(* ===== verification/Prelude.thy ===== *)
theory Prelude
  imports "HOL-Library.Word"
begin

text \<open>
  Shared vocabulary of the development: the machine types of the C code, the status codes of
  \<^verbatim>\<open>utils/utils.h\<close>, the program type every operation has, and generic lemmas on words and lists.

  An operation on a state \<open>'s\<close> is a function \<open>'s \<Rightarrow> ('a option \<times> 's) option\<close>:
  \<^item> \<open>Some (Some x, s')\<close>: the C function returned \<open>OK\<close> (with the out-parameters \<open>x\<close>) in state \<open>s'\<close>;
  \<^item> \<open>Some (None, s')\<close>: it returned \<open>FAILED\<close>, and \<open>s'\<close> holds whatever it had already changed;
  \<^item> \<open>None\<close>: it has no defined outcome, because it does not return or because it reads memory
    that C leaves undefined.
  So a theorem that an operation equals \<open>Some _\<close> says that it terminates without undefined
  behaviour.
\<close>

subsection \<open>Machine types (LP64)\<close>

type_synonym u8 = "8 word"
type_synonym u32 = "32 word"
type_synonym u64 = "64 word"
type_synonym size_t = "64 word"
type_synonym Sectoff = size_t
type_synonym Fileoff = size_t

datatype Status = OK | FAILED

text \<open>Collections of rewrite rules: effects of successful file accesses, and sizes.\<close>

named_theorems io_simps \<open>effects of file accesses that succeed\<close>
named_theorems size_simps \<open>lengths of encoded structures\<close>

subsection \<open>Programs\<close>

type_synonym ('s, 'a) prog = "'s \<Rightarrow> ('a option \<times> 's) option"

definition ret :: "'a \<Rightarrow> ('s, 'a) prog" where
  "ret x = (\<lambda>s. Some (Some x, s))"

definition fail :: "('s, 'a) prog" where
  "fail = (\<lambda>s. Some (None, s))"

definition undef :: "('s, 'a) prog" where
  "undef = (\<lambda>s. None)"

text \<open>\<^verbatim>\<open>DO_OR_FAIL(m); k\<close>: run \<open>m\<close>, return \<open>FAILED\<close> when it does, go on with \<open>k\<close> otherwise.\<close>

definition DO_OR_FAIL :: "('s, 'a) prog \<Rightarrow> ('a \<Rightarrow> ('s, 'b) prog) \<Rightarrow> ('s, 'b) prog" where
  "DO_OR_FAIL m k = (\<lambda>s. case m s of
       None \<Rightarrow> None
     | Some (None, s') \<Rightarrow> Some (None, s')
     | Some (Some x, s') \<Rightarrow> k x s')"

text \<open>Run \<open>m\<close> and look at its status instead of returning on failure.\<close>

definition attempt :: "('s, 'a) prog \<Rightarrow> ('s, 'a option) prog" where
  "attempt m = (\<lambda>s. case m s of None \<Rightarrow> None | Some (r, s') \<Rightarrow> Some (Some r, s'))"

text \<open>A value that is undefined when absent.\<close>

definition defined :: "'a option \<Rightarrow> ('s, 'a) prog" where
  "defined v = (case v of None \<Rightarrow> undef | Some x \<Rightarrow> ret x)"

lemma ret_apply [simp]: "ret x s = Some (Some x, s)"
  by (simp add: ret_def)

lemma fail_apply [simp]: "fail s = Some (None, s)"
  by (simp add: fail_def)

lemma undef_apply [simp]: "undef s = None"
  by (simp add: undef_def)

lemma DO_OR_FAIL_Some [simp]: "m s = Some (Some x, s') \<Longrightarrow> DO_OR_FAIL m k s = k x s'"
  by (simp add: DO_OR_FAIL_def)

lemma DO_OR_FAIL_fail [simp]: "m s = Some (None, s') \<Longrightarrow> DO_OR_FAIL m k s = Some (None, s')"
  by (simp add: DO_OR_FAIL_def)

lemma DO_OR_FAIL_undef [simp]: "m s = None \<Longrightarrow> DO_OR_FAIL m k s = None"
  by (simp add: DO_OR_FAIL_def)

lemma DO_OR_FAIL_ret [simp]: "DO_OR_FAIL (ret x) k = k x"
  by (simp add: DO_OR_FAIL_def fun_eq_iff)

lemma attempt_Some [simp]: "m s = Some (r, s') \<Longrightarrow> attempt m s = Some (Some r, s')"
  by (simp add: attempt_def)

lemma attempt_undef [simp]: "m s = None \<Longrightarrow> attempt m s = None"
  by (simp add: attempt_def)

lemma defined_simps [simp]: "defined (Some x) = ret x" "defined None = undef"
  by (simp_all add: defined_def)

lemma DO_OR_FAIL_eq_ok:
  "DO_OR_FAIL m k s = Some (Some y, t) \<longleftrightarrow> (\<exists>x s'. m s = Some (Some x, s') \<and> k x s' = Some (Some y, t))"
  by (auto simp: DO_OR_FAIL_def split: option.splits prod.splits)

lemma DO_OR_FAIL_eq_fail:
  "DO_OR_FAIL m k s = Some (None, t) \<longleftrightarrow>
     m s = Some (None, t) \<or> (\<exists>x s'. m s = Some (Some x, s') \<and> k x s' = Some (None, t))"
  by (auto simp: DO_OR_FAIL_def split: option.splits prod.splits)

lemma attempt_eq: "attempt m s = Some (x, t) \<longleftrightarrow> (\<exists>r. x = Some r \<and> m s = Some (r, t))"
  by (auto simp: attempt_def split: option.splits prod.splits)

text \<open>Both combinators are monotone, so recursive programs may be defined with them.\<close>

lemma DO_OR_FAIL_mono [partial_function_mono]:
  fixes m :: "('x \<Rightarrow> 'y option) \<Rightarrow> ('s, 'a) prog"
  assumes "\<And>s. monotone (fun_ord option_ord) option_ord (\<lambda>f. m f s)"
    and "\<And>x s. monotone (fun_ord option_ord) option_ord (\<lambda>f. k f x s)"
  shows "monotone (fun_ord option_ord) option_ord (\<lambda>f. DO_OR_FAIL (m f) (k f) s)"
proof (rule monotoneI)
  fix f g :: "'x \<Rightarrow> 'y option"
  assume le: "fun_ord option_ord f g"
  have m: "option_ord (m f s) (m g s)"
    using assms(1) [of s] le by (rule monotoneD [of _ _ _ f g])
  have k: "option_ord (k f x s') (k g x s')" for x s'
    using assms(2) [of x s'] le by (rule monotoneD [of _ _ _ f g])
  show "option_ord (DO_OR_FAIL (m f) (k f) s) (DO_OR_FAIL (m g) (k g) s)"
  proof (cases "m f s")
    case None
    then show ?thesis by (simp add: flat_ord_def DO_OR_FAIL_def)
  next
    case (Some r)
    with m have "m g s = Some r" by (auto simp: flat_ord_def)
    with Some k show ?thesis
      by (cases r) (auto simp: DO_OR_FAIL_def flat_ord_def split: option.splits)
  qed
qed

lemma attempt_mono [partial_function_mono]:
  fixes m :: "('x \<Rightarrow> 'y option) \<Rightarrow> ('s, 'a) prog"
  assumes "\<And>s. monotone (fun_ord option_ord) option_ord (\<lambda>f. m f s)"
  shows "monotone (fun_ord option_ord) option_ord (\<lambda>f. attempt (m f) s)"
proof (rule monotoneI)
  fix f g :: "'x \<Rightarrow> 'y option"
  assume le: "fun_ord option_ord f g"
  have "option_ord (m f s) (m g s)"
    using assms [of s] le by (rule monotoneD [of _ _ _ f g])
  then show "option_ord (attempt (m f) s) (attempt (m g) s)"
    by (auto simp: flat_ord_def attempt_def split: option.splits prod.splits)
qed

text \<open>The same for the conditionals the programs are written with.\<close>

lemma if_prog_mono [partial_function_mono]:
  assumes "monotone orda ordb (\<lambda>f. m f s)" "monotone orda ordb (\<lambda>f. n f s)"
  shows "monotone orda ordb (\<lambda>f. (if c then m f else n f) s)"
  using assms by (cases c) simp_all

lemma let_prog_mono [partial_function_mono]:
  assumes "monotone orda ordb (\<lambda>f. m x f s)"
  shows "monotone orda ordb (\<lambda>f. (let y = x in m y f) s)"
  using assms by simp

lemma case_option_prog_mono [partial_function_mono]:
  assumes "monotone orda ordb (\<lambda>f. m f s)" "\<And>x. monotone orda ordb (\<lambda>f. n x f s)"
  shows "monotone orda ordb (\<lambda>f. (case v of None \<Rightarrow> m f | Some x \<Rightarrow> n x f) s)"
  using assms by (cases v) simp_all

subsection \<open>Words read as numbers\<close>

lemma unat_add_small:
  fixes a b :: "64 word"
  assumes "unat a + unat b < 18446744073709551616"
  shows "unat (a + b) = unat a + unat b"
  using assms by (simp add: unat_word_ariths)

lemma unat_sub_small:
  fixes a b :: "64 word"
  assumes "unat b \<le> unat a"
  shows "unat (a - b) = unat a - unat b"
  using assms by (simp add: unat_sub word_le_nat_alt)

lemma unat_of_nat_small: "n < 18446744073709551616 \<Longrightarrow> unat (word_of_nat n :: 64 word) = n"
  by (simp add: unat_of_nat)

lemma word_of_unat [simp]: "word_of_nat (unat (w :: 64 word)) = w"
  by simp

lemma word_of_unat_eq: "unat (w :: 64 word) = n \<Longrightarrow> w = word_of_nat n"
  by auto

subsection \<open>Lists\<close>

lemma map_upt_cong: "(\<And>i. a \<le> i \<Longrightarrow> i < b \<Longrightarrow> f i = g i) \<Longrightarrow> map f [a..<b] = map g [a..<b]"
  by simp

lemma map_upt_shift: "map f [a..<a + n] = map (\<lambda>i. f (a + i)) [0..<n]"
  by (rule nth_equalityI) simp_all

lemma find_SomeD: "find P xs = Some x \<Longrightarrow> P x \<and> x \<in> set xs"
  by (induction xs) (auto split: if_splits)

lemma upt8: "[0..<8] = [0, 1, 2, 3, 4, 5, 6, 7 :: nat]"
  by (simp add: upt_rec)

lemma length8: "length bs = 8 \<Longrightarrow> \<exists>a b c d e f g h. bs = [a, b, c, d, e, f, g, h]"
  by (auto simp: length_Suc_conv eval_nat_numeral)

lemma replicate_zero_iff: "bs = replicate (length bs) (0 :: u8) \<longleftrightarrow> (\<forall>b \<in> set bs. b = 0)"
  by (induction bs) auto

end
