(* ===== verification/Stdio.thy ===== *)
theory Stdio
  imports Prelude
begin

text \<open>
  The C standard library's streams, as far as the program uses them, and the macros of
  \<^verbatim>\<open>dbms/include/utils/utils.h\<close>. A \<^verbatim>\<open>FILE\<close> opened with \<^verbatim>\<open>"w+"\<close> is a byte sequence with a
  position. \<open>fcap\<close> is the largest size the stream can reach (the space left on the device, and
  never more than \<^verbatim>\<open>LONG_MAX\<close>); a write that would pass it is cut there and reported as failed,
  which is where the \<^verbatim>\<open>FAILED\<close> results of the program come from. Bytes never written read as zero,
  as POSIX prescribes for the gap a write past the end leaves.
\<close>

subsection \<open>Streams\<close>

record FILE =
  fdata :: "nat \<Rightarrow> u8"
  fsize :: nat
  fpos :: nat
  fcap :: nat

abbreviation LONG_LIMIT :: nat where
  "LONG_LIMIT \<equiv> 9223372036854775808"

definition fopen_w :: "nat \<Rightarrow> FILE" where
  "fopen_w cap = \<lparr>fdata = (\<lambda>_. 0), fsize = 0, fpos = 0, fcap = cap\<rparr>"

text \<open>The bytes at an offset, and the stream after they are overwritten.\<close>

definition fget :: "FILE \<Rightarrow> nat \<Rightarrow> nat \<Rightarrow> u8 list" where
  "fget f off n = map (fdata f) [off..<off + n]"

definition fput :: "FILE \<Rightarrow> nat \<Rightarrow> u8 list \<Rightarrow> FILE" where
  "fput f off bs =
     (if bs = [] then f
      else f\<lparr>fdata := (\<lambda>i. if off \<le> i \<and> i < off + length bs then bs ! (i - off) else fdata f i),
             fsize := max (fsize f) (off + length bs)\<rparr>)"

text \<open>
  \<^verbatim>\<open>FSEEK_OR_FAIL\<close>: the offset is converted to \<^verbatim>\<open>long\<close>, and \<^verbatim>\<open>fseek\<close> refuses a negative one.
\<close>

definition FSEEK_OR_FAIL :: "Fileoff \<Rightarrow> (FILE, unit) prog" where
  "FSEEK_OR_FAIL off = (\<lambda>f.
     if unat off < LONG_LIMIT then ret () (f\<lparr>fpos := unat off\<rparr>) else fail f)"

text \<open>
  \<^verbatim>\<open>FWRITE_OR_FAIL\<close>: \<^verbatim>\<open>fwrite(data, size, 1, filp)\<close> must report one item; with size 0 it reports
  none. A write stopped by the capacity leaves the bytes that still fitted.
\<close>

definition FWRITE_OR_FAIL :: "u8 list \<Rightarrow> (FILE, unit) prog" where
  "FWRITE_OR_FAIL bs = (\<lambda>f.
     let n = min (length bs) (fcap f - fpos f);
         f' = (fput f (fpos f) (take n bs))\<lparr>fpos := fpos f + n\<rparr>
     in if bs \<noteq> [] \<and> n = length bs then ret () f' else fail f')"

text \<open>
  \<^verbatim>\<open>fread(buf, size, 1, filp)\<close>: the status and the bytes that reached the buffer, which on a short
  read are the ones before the end of the stream.
\<close>

definition fread :: "nat \<Rightarrow> FILE \<Rightarrow> (Status \<times> u8 list) \<times> FILE" where
  "fread sz f =
     (let n = min sz (fsize f - fpos f)
      in ((if sz \<noteq> 0 \<and> n = sz then OK else FAILED, fget f (fpos f) n), f\<lparr>fpos := fpos f + n\<rparr>))"

definition RA_FWRITE_OR_FAIL :: "u8 list \<Rightarrow> Fileoff \<Rightarrow> (FILE, unit) prog" where
  "RA_FWRITE_OR_FAIL bs off = DO_OR_FAIL (FSEEK_OR_FAIL off) (\<lambda>_. FWRITE_OR_FAIL bs)"

text \<open>\<^verbatim>\<open>SAVE_FILP(filp, func)\<close>: remember the position, run \<open>func\<close>, seek back.\<close>

definition SAVE_FILP :: "(FILE, 'a) prog \<Rightarrow> (FILE, 'a) prog" where
  "SAVE_FILP m = (\<lambda>f.
     DO_OR_FAIL m (\<lambda>x. DO_OR_FAIL (FSEEK_OR_FAIL (word_of_nat (fpos f))) (\<lambda>_. ret x)) f)"

text \<open>
  \<^verbatim>\<open>SAVE_FILP(filp, RA_FREAD_OR_FAIL(buf, sz, off, filp))\<close>, with the buffer's new prefix also when
  the read fails, for the callers that ignore the status.
\<close>

definition saved_read :: "Fileoff \<Rightarrow> nat \<Rightarrow> (FILE, Status \<times> u8 list) prog" where
  "saved_read off sz = (\<lambda>f. case FSEEK_OR_FAIL off f of
       None \<Rightarrow> None
     | Some (None, f1) \<Rightarrow> ret (FAILED, []) f1
     | Some (Some _, f1) \<Rightarrow>
        (case fread sz f1 of
           ((FAILED, bs), f2) \<Rightarrow> ret (FAILED, bs) f2
         | ((OK, bs), f2) \<Rightarrow>
            (case FSEEK_OR_FAIL (word_of_nat (fpos f)) f2 of
               None \<Rightarrow> None
             | Some (None, f3) \<Rightarrow> ret (FAILED, bs) f3
             | Some (Some _, f3) \<Rightarrow> ret (OK, bs) f3)))"

subsection \<open>Bytes read over bytes written\<close>

lemma length_fget [simp]: "length (fget f off n) = n"
  by (simp add: fget_def)

lemma fget_0 [simp]: "fget f off 0 = []"
  by (simp add: fget_def)

lemma nth_fget: "i < n \<Longrightarrow> fget f off n ! i = fdata f (off + i)"
  by (simp add: fget_def)

lemma fget_cong: "(\<And>i. off \<le> i \<Longrightarrow> i < off + n \<Longrightarrow> fdata f i = fdata g i) \<Longrightarrow> fget f off n = fget g off n"
  by (simp add: fget_def)

lemma fget_add: "fget f off (m + n) = fget f off m @ fget f (off + m) n"
proof -
  have "[off..<off + (m + n)] = [off..<off + m] @ [off + m..<off + m + n]"
    using upt_add_eq_append [of off "off + m" n] by (simp only: add.assoc le_add1)
  then show ?thesis unfolding fget_def by (simp only: map_append)
qed

lemma fget_eqD: "fget f off n = fget g off n \<Longrightarrow> off \<le> i \<Longrightarrow> i < off + n \<Longrightarrow> fdata f i = fdata g i"
  by (simp add: fget_def)

lemma fput_Nil [simp]: "fput f off [] = f"
  by (simp add: fput_def)

lemma fdata_fput:
  "fdata (fput f off bs) i = (if off \<le> i \<and> i < off + length bs then bs ! (i - off) else fdata f i)"
  by (auto simp: fput_def)

lemma fput_fields [simp]: "fpos (fput f off bs) = fpos f" "fcap (fput f off bs) = fcap f"
  by (simp_all add: fput_def)

lemma fsize_fput: "fsize (fput f off bs) = (if bs = [] then fsize f else max (fsize f) (off + length bs))"
  by (simp add: fput_def)

lemma fget_pos [simp]: "fget (f\<lparr>fpos := p\<rparr>) off n = fget f off n"
  by (simp add: fget_def)

lemma fput_pos: "fput (f\<lparr>fpos := p\<rparr>) off bs = (fput f off bs)\<lparr>fpos := p\<rparr>"
  by (cases f) (auto simp: fput_def fun_eq_iff)

lemma fget_fput_same [simp]: "n = length bs \<Longrightarrow> fget (fput f off bs) off n = bs"
  by (rule nth_equalityI) (simp_all add: nth_fget fdata_fput)

lemma fget_fput_other [simp]:
  "off + length bs \<le> a \<or> a + n \<le> off \<Longrightarrow> fget (fput f off bs) a n = fget f a n"
  by (rule fget_cong) (auto simp: fdata_fput)

text \<open>Writing back what is already there changes nothing.\<close>

lemma fput_fget_same: "off + n \<le> fsize f \<Longrightarrow> fput f off (fget f off n) = f"
  by (cases f) (auto simp: fput_def fget_def fun_eq_iff max_def)

lemma fput_twice: "fput (fput f off bs) off bs = fput f off bs"
  using fput_fget_same [of off "length bs" "fput f off bs"] by (cases "bs = []") (simp_all add: fsize_fput)

subsection \<open>Accesses that succeed\<close>

definition file_ok :: "FILE \<Rightarrow> bool" where
  "file_ok f \<longleftrightarrow> fpos f < LONG_LIMIT \<and> fsize f \<le> fcap f \<and> fcap f < LONG_LIMIT"

lemma file_ok_fopen: "cap < LONG_LIMIT \<Longrightarrow> file_ok (fopen_w cap)"
  by (simp add: file_ok_def fopen_w_def)

lemma file_ok_fput [simp]: "file_ok f \<Longrightarrow> off + length bs \<le> fcap f \<Longrightarrow> file_ok (fput f off bs)"
  by (auto simp: file_ok_def fsize_fput)

lemma seek_back:
  "p < LONG_LIMIT \<Longrightarrow> FSEEK_OR_FAIL (word_of_nat p) f = Some (Some (), f\<lparr>fpos := p\<rparr>)"
  by (simp add: FSEEK_OR_FAIL_def unat_of_nat_small)

lemma saved_write_ok [io_simps]:
  assumes "file_ok f" "bs \<noteq> []" "unat off + length bs \<le> fcap f"
  shows "SAVE_FILP (RA_FWRITE_OR_FAIL bs off) f = Some (Some (), fput f (unat off) bs)"
proof -
  have "unat off < LONG_LIMIT" using assms by (simp add: file_ok_def)
  then have "RA_FWRITE_OR_FAIL bs off f =
      Some (Some (), (fput f (unat off) bs)\<lparr>fpos := unat off + length bs\<rparr>)"
    using assms by (simp add: RA_FWRITE_OR_FAIL_def FSEEK_OR_FAIL_def DO_OR_FAIL_def
        FWRITE_OR_FAIL_def Let_def min_def fput_pos)
  moreover have "fpos f < LONG_LIMIT" using assms by (simp add: file_ok_def)
  ultimately show ?thesis
    by (simp add: SAVE_FILP_def DO_OR_FAIL_def seek_back flip: fput_pos)
qed

lemma saved_read_ok [io_simps]:
  assumes "file_ok f" "sz \<noteq> 0" "unat off + sz \<le> fsize f"
  shows "saved_read off sz f = Some (Some (OK, fget f (unat off) sz), f)"
proof -
  have "unat off < LONG_LIMIT" "fpos f < LONG_LIMIT" using assms by (auto simp: file_ok_def)
  moreover have "min sz (fsize f - unat off) = sz" using assms by simp
  ultimately show ?thesis
    using assms by (simp add: saved_read_def FSEEK_OR_FAIL_def fread_def Let_def unat_of_nat_small)
qed

text \<open>A write that does not fit is reported, and a read past the end too.\<close>

lemma saved_write_full:
  assumes "unat off < LONG_LIMIT" "fcap f < unat off + length bs"
  shows "\<exists>f'. SAVE_FILP (RA_FWRITE_OR_FAIL bs off) f = Some (None, f')"
  using assms by (cases bs) (auto simp: SAVE_FILP_def RA_FWRITE_OR_FAIL_def
        FSEEK_OR_FAIL_def DO_OR_FAIL_def FWRITE_OR_FAIL_def Let_def min_def)

lemma saved_read_never_fails: "\<exists>st bs f'. saved_read off sz f = Some (Some (st, bs), f')"
  by (auto simp: saved_read_def FSEEK_OR_FAIL_def fread_def Let_def split: Status.splits)

end
