(* ===== verification/Codec.thy ===== *)
theory Codec
  imports Stdio
begin

text \<open>
  The C code writes its structures to the file as they lie in memory: consecutive 64-bit fields,
  little-endian. This theory holds that encoding, the interface \<open>struct_codec\<close> every on-disk
  structure satisfies, and what the interface gives for the stream: a structure read back where it
  was written is the structure written.
\<close>

unbundle bit_operations_syntax

subsection \<open>64-bit fields\<close>

definition enc64 :: "u64 \<Rightarrow> u8 list" where
  "enc64 w = map (\<lambda>i. ucast (drop_bit (8 * i) w)) [0..<8]"

definition dec64 :: "u8 list \<Rightarrow> u64" where
  "dec64 bs = foldr (\<lambda>b w. ucast b OR push_bit 8 w) bs 0"

lemma length_enc64 [simp, size_simps]: "length (enc64 w) = 8"
  by (simp add: enc64_def)

lemma enc64_neq_Nil [simp]: "enc64 w \<noteq> []"
  by (simp add: enc64_def)

lemma byte_step:
  "ucast (ucast (drop_bit n w :: u64) :: u8) OR push_bit 8 (drop_bit (n + 8) w) = drop_bit n w"
proof (rule bit_word_eqI)
  fix i assume "i < LENGTH(64)"
  then show "bit (ucast (ucast (drop_bit n w) :: u8) OR push_bit 8 (drop_bit (n + 8) w)) i =
      bit (drop_bit n w) i"
    by (cases "i < 8") (auto simp: bit_simps not_less add.commute)
qed

lemma enc64_list:
  "enc64 w = [ucast (drop_bit 0 w), ucast (drop_bit (0+8) w), ucast (drop_bit (0+8+8) w),
     ucast (drop_bit (0+8+8+8) w), ucast (drop_bit (0+8+8+8+8) w), ucast (drop_bit (0+8+8+8+8+8) w),
     ucast (drop_bit (0+8+8+8+8+8+8) w), ucast (drop_bit (0+8+8+8+8+8+8+8) w)]"
  by (simp add: enc64_def upt8)

lemma drop64: "drop_bit (0+8+8+8+8+8+8+8+8) (w :: u64) = 0"
  by (rule bit_word_eqI) (auto simp: bit_simps dest: bit_imp_le_length)

lemma dec64_enc64 [simp]: "dec64 (enc64 w) = w"
proof -
  have "dec64 (enc64 w) = drop_bit 0 w"
    unfolding dec64_def enc64_list
    by (simp only: foldr.simps o_apply id_apply byte_step flip: drop64 [of w])
  then show ?thesis by simp
qed

lemma enc64_dec64: "length bs = 8 \<Longrightarrow> enc64 (dec64 bs) = bs"
  by (drule length8, clarsimp simp: dec64_def enc64_def upt8, intro conjI bit_word_eqI)
    (auto simp: bit_simps dest: bit_imp_le_length)

subsection \<open>Structures of 64-bit fields\<close>

definition enc_words :: "u64 list \<Rightarrow> u8 list" where
  "enc_words ws = concat (map enc64 ws)"

definition word_at :: "nat \<Rightarrow> u8 list \<Rightarrow> u64" where
  "word_at i bs = dec64 (take 8 (drop (8 * i) bs))"

lemma enc_words_simps [simp]:
  "enc_words [] = []" "enc_words (w # ws) = enc64 w @ enc_words ws"
  by (simp_all add: enc_words_def)

lemma length_enc_words [simp, size_simps]: "length (enc_words ws) = 8 * length ws"
  by (induction ws) simp_all

lemma word_at_enc_words: "i < length ws \<Longrightarrow> word_at i (enc_words ws) = ws ! i"
proof (induction ws arbitrary: i)
  case (Cons w ws)
  then show ?case by (cases i) (simp_all add: word_at_def)
qed simp

lemma enc_words_word_at:
  "length bs = 8 * n \<Longrightarrow> enc_words (map (\<lambda>i. word_at i bs) [0..<n]) = bs"
proof (induction n arbitrary: bs)
  case (Suc n)
  have IH: "enc_words (map (\<lambda>i. word_at i (drop 8 bs)) [0..<n]) = drop 8 bs"
    using Suc by simp
  have "map (\<lambda>i. word_at i bs) [0..<Suc n] = word_at 0 bs # map (\<lambda>i. word_at i (drop 8 bs)) [0..<n]"
    by (simp only: upt_conv_Cons map_Suc_upt [symmetric] zero_less_Suc list.map map_map)
      (simp add: word_at_def o_def add.commute)
  then show ?case
    using Suc.prems by (simp add: IH) (simp add: word_at_def enc64_dec64)
qed simp

subsection \<open>The interface of an on-disk structure\<close>

locale struct_codec =
  fixes enc :: "'a \<Rightarrow> u8 list" and dec :: "u8 list \<Rightarrow> 'a" and sz :: nat
  assumes length_enc: "length (enc x) = sz"
    and dec_enc: "dec (enc x) = x"
    and enc_dec: "length bs = sz \<Longrightarrow> enc (dec bs) = bs"
    and sz_pos: "0 < sz"
begin

lemma enc_inject: "enc x = enc y \<longleftrightarrow> x = y"
  by (metis dec_enc)

lemma enc_not_Nil: "enc x \<noteq> []"
  using length_enc [of x] sz_pos by auto

text \<open>What is stored at an offset, and when it is stored there.\<close>

lemma fget_enc_iff: "fget f off sz = enc x \<longleftrightarrow> dec (fget f off sz) = x"
  by (metis dec_enc enc_dec length_fget)

lemma fget_fput_enc: "fget (fput f off (enc x)) off sz = enc x"
  by (simp add: length_enc)

lemma dec_fput_enc: "dec (fget (fput f off (enc x)) off sz) = x"
  by (simp add: length_enc dec_enc)

lemma fget_fput_enc_other:
  "off + sz \<le> a \<or> a + n \<le> off \<Longrightarrow> fget (fput f off (enc x)) a n = fget f a n"
  by (simp add: length_enc)

text \<open>Read-after-write through the C library: both calls succeed and the value comes back.\<close>

lemma write_then_read:
  assumes "file_ok f" "unat off + sz \<le> fcap f"
  shows "\<exists>f'. SAVE_FILP (RA_FWRITE_OR_FAIL (enc x) off) f = Some (Some (), f') \<and>
     saved_read off sz f' = Some (Some (OK, enc x), f') \<and> fpos f' = fpos f"
proof -
  let ?f = "fput f (unat off) (enc x)"
  have "file_ok ?f" "unat off + sz \<le> fsize ?f"
    using assms by (simp_all add: length_enc fsize_fput enc_not_Nil)
  then have "saved_read off sz ?f = Some (Some (OK, enc x), ?f)"
    using sz_pos by (simp add: saved_read_ok length_enc)
  with assms show ?thesis
    by (simp add: saved_write_ok enc_not_Nil length_enc)
qed

end

text \<open>A single 64-bit field, the body of \<^verbatim>\<open>File_head_entity\<close>.\<close>

interpretation u64_codec: struct_codec enc64 dec64 8
  by unfold_locales (simp_all add: enc64_dec64)

text \<open>
  Any structure that is a list of \<open>n\<close> fields: enough that packing and unpacking its fields are
  inverse.
\<close>

locale field_codec =
  fixes fields :: "'a \<Rightarrow> u64 list" and build :: "(nat \<Rightarrow> u64) \<Rightarrow> 'a" and n :: nat
  assumes length_fields: "length (fields x) = n"
    and build_fields: "build (\<lambda>i. fields x ! i) = x"
    and build_cong: "(\<And>i. i < n \<Longrightarrow> g i = h i) \<Longrightarrow> build g = build h"
    and fields_build: "fields (build g) = map g [0..<n]"
    and n_pos: "0 < n"

sublocale field_codec \<subseteq> struct_codec "\<lambda>x. enc_words (fields x)" "\<lambda>bs. build (\<lambda>i. word_at i bs)" "8 * n"
proof unfold_locales
  show "length (enc_words (fields x)) = 8 * n" for x
    by (simp add: length_fields)
  show "build (\<lambda>i. word_at i (enc_words (fields x))) = x" for x
    using build_cong [of "\<lambda>i. word_at i (enc_words (fields x))" "\<lambda>i. fields x ! i"]
    by (simp add: word_at_enc_words length_fields build_fields)
  show "enc_words (fields (build (\<lambda>i. word_at i bs))) = bs" if "length bs = 8 * n" for bs
    using that by (simp add: fields_build enc_words_word_at)
  show "0 < 8 * n" by (simp add: n_pos)
qed

end
