(* ===== verification/Sect_Header.thy ===== *)
theory Sect_Header
  imports Codec
begin

text \<open>
  \<^verbatim>\<open>dbms/src/section/header.c\<close>. A section is \<^verbatim>\<open>SECTION_SIZE\<close> bytes of the file from
  \<^verbatim>\<open>file_offset\<close>: a 32-byte header, items growing upwards from it to \<^verbatim>\<open>lst_itm_ptr\<close>, records growing
  downwards from the section's end to \<^verbatim>\<open>fst_rec_ptr\<close>. The C struct \<^verbatim>\<open>Sect_head\<close> starts with the
  fields of \<^verbatim>\<open>Sect_head_entity\<close> and the code writes that prefix to the file, so the model extends
  the record \<open>Sect_head_entity\<close>. Its field \<^verbatim>\<open>filp\<close> points to the one stream all sections share; the
  state of a section operation is the header together with that stream.
\<close>

subsection \<open>State\<close>

abbreviation SECTION_SIZE :: size_t where "SECTION_SIZE \<equiv> 8192"
abbreviation sizeof_Sect_head_entity :: size_t where "sizeof_Sect_head_entity \<equiv> 32"

record Sect_head_entity =
  free_space :: size_t
  next_ptr :: Fileoff
  lst_itm_ptr :: Sectoff
  fst_rec_ptr :: Sectoff

record Sect_head = Sect_head_entity +
  file_offset :: Fileoff

type_synonym sect = "Sect_head \<times> FILE"

definition head_fields :: "Sect_head_entity \<Rightarrow> u64 list" where
  "head_fields h = [free_space h, next_ptr h, lst_itm_ptr h, fst_rec_ptr h]"

definition head_build :: "(nat \<Rightarrow> u64) \<Rightarrow> Sect_head_entity" where
  "head_build g = \<lparr>free_space = g 0, next_ptr = g 1, lst_itm_ptr = g 2, fst_rec_ptr = g 3\<rparr>"

text \<open>The bytes of \<^verbatim>\<open>sizeof(Sect_head_entity)\<close> at the start of a \<^verbatim>\<open>Sect_head\<close>.\<close>

definition head_bytes :: "Sect_head \<Rightarrow> u8 list" where
  "head_bytes h = enc_words (head_fields (Sect_head_entity.truncate h))"

interpretation head_codec: field_codec head_fields head_build 4
  by unfold_locales (simp_all add: head_fields_def head_build_def upt_rec eval_nat_numeral)

subsection \<open>Operations\<close>

definition sect_head_new :: Sect_head where
  "sect_head_new = \<lparr>free_space = 0, next_ptr = 0, lst_itm_ptr = 0, fst_rec_ptr = 0, file_offset = 0\<rparr>"

text \<open>Run a stream operation on the section's stream.\<close>

definition on_file :: "(FILE, 'a) prog \<Rightarrow> (sect, 'a) prog" where
  "on_file m = (\<lambda>(h, f). map_option (\<lambda>(r, f'). (r, (h, f'))) (m f))"

definition sect_head_get_fileoff :: "Sect_head \<Rightarrow> Sectoff \<Rightarrow> Fileoff" where
  "sect_head_get_fileoff h soff = file_offset h + soff"

definition sect_head_get_sectoff :: "Sect_head \<Rightarrow> Fileoff \<Rightarrow> Sectoff" where
  "sect_head_get_sectoff h foff = foff - file_offset h"

definition sect_head_sync :: "(sect, unit) prog" where
  "sect_head_sync = (\<lambda>(h, f).
     on_file (SAVE_FILP (RA_FWRITE_OR_FAIL (head_bytes h) (file_offset h))) (h, f))"

definition sect_head_ctor :: "Fileoff \<Rightarrow> (sect, unit) prog" where
  "sect_head_ctor offset = (\<lambda>(h, f).
     sect_head_sync
       (h\<lparr>free_space := SECTION_SIZE - sizeof_Sect_head_entity, next_ptr := 0,
          lst_itm_ptr := sizeof_Sect_head_entity, fst_rec_ptr := SECTION_SIZE,
          file_offset := offset\<rparr>, f))"

definition sect_head_dtor :: "(sect, unit) prog" where
  "sect_head_dtor = (\<lambda>(h, f).
     sect_head_sync (h\<lparr>free_space := 0, next_ptr := 0, lst_itm_ptr := 0, fst_rec_ptr := 0\<rparr>, f))"

definition sect_head_shift_lip :: "size_t \<Rightarrow> (sect, unit) prog" where
  "sect_head_shift_lip shift = (\<lambda>(h, f).
     sect_head_sync (h\<lparr>free_space := free_space h - shift, lst_itm_ptr := lst_itm_ptr h + shift\<rparr>, f))"

definition sect_head_shift_frp :: "size_t \<Rightarrow> (sect, unit) prog" where
  "sect_head_shift_frp shift = (\<lambda>(h, f).
     sect_head_sync (h\<lparr>free_space := free_space h + shift, fst_rec_ptr := fst_rec_ptr h + shift\<rparr>, f))"

text \<open>
  \<^verbatim>\<open>sect_head_read\<close>. Two callers ignore its status and go on with the buffer as it is, so the
  first form reports the status and the bytes that reached the buffer; the second is the usual
  \<^verbatim>\<open>DO_OR_FAIL\<close> use.
\<close>

definition sect_head_read_into :: "Sectoff \<Rightarrow> size_t \<Rightarrow> (sect, Status \<times> u8 list) prog" where
  "sect_head_read_into soff sz = (\<lambda>(h, f).
     if sz \<noteq> 0 then on_file (saved_read (sect_head_get_fileoff h soff) (unat sz)) (h, f)
     else ret (OK, []) (h, f))"

definition sect_head_read :: "Sectoff \<Rightarrow> size_t \<Rightarrow> (sect, u8 list) prog" where
  "sect_head_read soff sz =
     DO_OR_FAIL (sect_head_read_into soff sz) (\<lambda>(st, bs). if st = OK then ret bs else fail)"

definition sect_head_write :: "Sectoff \<Rightarrow> u8 list \<Rightarrow> (sect, unit) prog" where
  "sect_head_write soff bs = (\<lambda>(h, f).
     if bs \<noteq> [] then on_file (SAVE_FILP (RA_FWRITE_OR_FAIL bs (sect_head_get_fileoff h soff))) (h, f)
     else ret () (h, f))"

text \<open>
  A buffer after an unchecked read: \<open>None\<close> stands for bytes \<^verbatim>\<open>malloc\<close> left undefined. A short read
  overwrites a prefix.
\<close>

fun buf_after :: "u8 list option \<Rightarrow> Status \<times> u8 list \<Rightarrow> u8 list option" where
  "buf_after old (OK, bs) = Some bs"
| "buf_after None (FAILED, bs) = None"
| "buf_after (Some b) (FAILED, bs) = Some (bs @ drop (length bs) b)"

text \<open>
  The loop of \<^verbatim>\<open>sect_head_cmprs_lip\<close>: while the last item is all zero, give it back. The read of
  the item before the current one ignores its status. With the pointer already at the header it
  reads (or fails to read) bytes that are not looked at.
\<close>

definition read_last_item :: "size_t \<Rightarrow> (sect, Status \<times> u8 list) prog" where
  "read_last_item itm_size = (\<lambda>(h, f). sect_head_read_into (lst_itm_ptr h - itm_size) itm_size (h, f))"

definition drop_last_item :: "size_t \<Rightarrow> sect \<Rightarrow> sect" where
  "drop_last_item itm_size = (\<lambda>(h, f).
     (h\<lparr>lst_itm_ptr := lst_itm_ptr h - itm_size, free_space := free_space h + itm_size\<rparr>, f))"

partial_function (option) cmprs_lip_loop ::
    "size_t \<Rightarrow> u8 list option \<Rightarrow> sect \<Rightarrow> (unit option \<times> sect) option" where
  "cmprs_lip_loop itm_size rd_data s =
     (if lst_itm_ptr (fst s) = sizeof_Sect_head_entity then ret () s
      else case rd_data of
        None \<Rightarrow> None
      | Some bs \<Rightarrow>
         (if \<exists>b \<in> set bs. b \<noteq> 0 then ret () s
          else DO_OR_FAIL (read_last_item itm_size)
                 (\<lambda>r. cmprs_lip_loop itm_size (buf_after rd_data r)) (drop_last_item itm_size s)))"

definition sect_head_cmprs_lip :: "size_t \<Rightarrow> (sect, unit) prog" where
  "sect_head_cmprs_lip itm_size =
     DO_OR_FAIL (read_last_item itm_size) (\<lambda>r.
     DO_OR_FAIL (cmprs_lip_loop itm_size (buf_after None r)) (\<lambda>_.
     sect_head_sync))"

text \<open>The loop of \<^verbatim>\<open>sect_head_cmprs_frp\<close>: skip zero bytes up to the section's end.\<close>

definition read_first_rec :: "(sect, Status \<times> u8 list) prog" where
  "read_first_rec = (\<lambda>(h, f). sect_head_read_into (fst_rec_ptr h) 1 (h, f))"

definition skip_rec_byte :: "sect \<Rightarrow> sect" where
  "skip_rec_byte = (\<lambda>(h, f). (h\<lparr>fst_rec_ptr := fst_rec_ptr h + 1, free_space := free_space h + 1\<rparr>, f))"

partial_function (option) cmprs_frp_loop ::
    "u8 list option \<Rightarrow> sect \<Rightarrow> (unit option \<times> sect) option" where
  "cmprs_frp_loop chr s =
     DO_OR_FAIL read_first_rec (\<lambda>r s.
       if fst_rec_ptr (fst s) = SECTION_SIZE then ret () s
       else case buf_after chr r of
         None \<Rightarrow> None
       | Some c \<Rightarrow>
          (if \<exists>b \<in> set c. b \<noteq> 0 then ret () s
           else cmprs_frp_loop (buf_after chr r) (skip_rec_byte s))) s"

definition sect_head_cmprs_frp :: "(sect, unit) prog" where
  "sect_head_cmprs_frp = DO_OR_FAIL (cmprs_frp_loop None) (\<lambda>_. sect_head_sync)"

subsection \<open>Effects of the basic operations\<close>

lemma head_fields_truncate:
  "head_fields (Sect_head_entity.truncate h) = [free_space h, next_ptr h, lst_itm_ptr h, fst_rec_ptr h]"
  by (simp add: head_fields_def Sect_head_entity.truncate_def)

lemma length_head_bytes [simp, size_simps]: "length (head_bytes h) = 32"
  by (simp add: head_bytes_def head_fields_truncate)

lemma head_bytes_not_Nil [simp]: "head_bytes h \<noteq> []"
  using length_head_bytes [of h] by (metis list.size(3) zero_neq_numeral)

lemma head_bytes_eq:
  "free_space h = free_space h' \<Longrightarrow> next_ptr h = next_ptr h' \<Longrightarrow> lst_itm_ptr h = lst_itm_ptr h' \<Longrightarrow>
   fst_rec_ptr h = fst_rec_ptr h' \<Longrightarrow> head_bytes h = head_bytes h'"
  by (simp add: head_bytes_def head_fields_truncate)

lemma file_ok_limit: "file_ok f \<Longrightarrow> n \<le> fcap f \<Longrightarrow> n < 18446744073709551616"
  by (simp add: file_ok_def)

lemma file_ok_size: "file_ok f \<Longrightarrow> fsize f \<le> fcap f"
  by (simp add: file_ok_def)

lemma unat_fileoff:
  assumes "file_ok f" "unat (file_offset h) + unat soff \<le> fcap f"
  shows "unat (sect_head_get_fileoff h soff) = unat (file_offset h) + unat soff"
  using assms by (simp add: sect_head_get_fileoff_def unat_add_small file_ok_def)

lemma sect_head_sync_ok [io_simps]:
  "file_ok f \<Longrightarrow> unat (file_offset h) + 32 \<le> fcap f \<Longrightarrow>
   sect_head_sync (h, f) = Some (Some (), (h, fput f (unat (file_offset h)) (head_bytes h)))"
  by (simp add: sect_head_sync_def on_file_def saved_write_ok)

lemma sect_head_write_ok [io_simps]:
  assumes "file_ok f" "unat (file_offset h) + unat soff + length bs \<le> fcap f"
  shows "sect_head_write soff bs (h, f) =
    Some (Some (), (h, fput f (unat (file_offset h) + unat soff) bs))"
proof -
  have "unat (sect_head_get_fileoff h soff) = unat (file_offset h) + unat soff"
    using assms by (intro unat_fileoff) auto
  with assms show ?thesis
    by (simp add: sect_head_write_def on_file_def saved_write_ok)
qed

lemma sect_head_read_into_ok [io_simps]:
  assumes "file_ok f" "unat (file_offset h) + unat soff + unat sz \<le> fsize f"
  shows "sect_head_read_into soff sz (h, f) =
    Some (Some (OK, fget f (unat (file_offset h) + unat soff) (unat sz)), (h, f))"
proof (cases "sz = 0")
  case False
  have "unat (sect_head_get_fileoff h soff) = unat (file_offset h) + unat soff"
    using assms file_ok_size [of f] by (intro unat_fileoff) auto
  with assms False show ?thesis
    by (simp add: sect_head_read_into_def on_file_def saved_read_ok unat_eq_zero)
qed (simp add: sect_head_read_into_def)

lemma sect_head_read_ok [io_simps]:
  assumes "file_ok f" "unat (file_offset h) + unat soff + unat sz \<le> fsize f"
  shows "sect_head_read soff sz (h, f) =
    Some (Some (fget f (unat (file_offset h) + unat soff) (unat sz)), (h, f))"
  using assms by (simp add: sect_head_read_def sect_head_read_into_ok)

subsection \<open>Unchecked reads\<close>

text \<open>
  A read whose status nobody looks at leaves the stored bytes alone; at the end of the stream it
  leaves the position moved, because \<^verbatim>\<open>SAVE_FILP\<close> returns before it seeks back.
\<close>

lemma saved_read_unchecked:
  assumes "file_ok f"
  shows "\<exists>r p. saved_read off sz f = Some (Some r, f\<lparr>fpos := p\<rparr>) \<and> p < LONG_LIMIT"
proof -
  have p: "fpos f < LONG_LIMIT" "fsize f < LONG_LIMIT" using assms by (auto simp: file_ok_def)
  show ?thesis
  proof (cases "unat off < LONG_LIMIT")
    case False
    then have "saved_read off sz f = Some (Some (FAILED, []), f\<lparr>fpos := fpos f\<rparr>)"
      by (simp add: saved_read_def FSEEK_OR_FAIL_def)
    with p show ?thesis by blast
  next
    case True
    let ?n = "min sz (fsize f - unat off)"
    show ?thesis
    proof (cases "sz \<noteq> 0 \<and> ?n = sz")
      case ok: True
      then have "saved_read off sz f = Some (Some (OK, fget f (unat off) sz), f\<lparr>fpos := fpos f\<rparr>)"
        using True p by (simp add: saved_read_def FSEEK_OR_FAIL_def fread_def Let_def seek_back
            unat_of_nat_small)
      with p show ?thesis by blast
    next
      case short: False
      then have "saved_read off sz f =
          Some (Some (FAILED, fget f (unat off) ?n), f\<lparr>fpos := unat off + ?n\<rparr>)"
        using True by (auto simp: saved_read_def FSEEK_OR_FAIL_def fread_def Let_def)
      moreover have "unat off + ?n < LONG_LIMIT" using True p by auto
      ultimately show ?thesis by blast
    qed
  qed
qed

lemma sect_head_read_into_unchecked:
  assumes "file_ok f"
  shows "\<exists>r p. sect_head_read_into soff sz (h, f) = Some (Some r, (h, f\<lparr>fpos := p\<rparr>)) \<and> p < LONG_LIMIT"
proof (cases "sz = 0")
  case True
  then have "sect_head_read_into soff sz (h, f) = Some (Some (OK, []), (h, f\<lparr>fpos := fpos f\<rparr>))"
    by (simp add: sect_head_read_into_def)
  with assms show ?thesis unfolding file_ok_def by blast
next
  case False
  obtain r p where "saved_read (sect_head_get_fileoff h soff) (unat sz) f = Some (Some r, f\<lparr>fpos := p\<rparr>)"
    "p < LONG_LIMIT"
    using saved_read_unchecked [OF assms] by blast
  with False have "sect_head_read_into soff sz (h, f) = Some (Some r, (h, f\<lparr>fpos := p\<rparr>))"
    by (simp add: sect_head_read_into_def on_file_def)
  with \<open>p < LONG_LIMIT\<close> show ?thesis by blast
qed

lemma file_ok_pos [simp]: "file_ok f \<Longrightarrow> p < LONG_LIMIT \<Longrightarrow> file_ok (f\<lparr>fpos := p\<rparr>)"
  by (simp add: file_ok_def)

subsection \<open>The compression loops\<close>

text \<open>
  What the loops look for: the number of items left when trailing all-zero ones are dropped, and
  the first record byte that is not zero.
\<close>

fun last_used :: "FILE \<Rightarrow> nat \<Rightarrow> nat \<Rightarrow> nat \<Rightarrow> nat" where
  "last_used f base i 0 = 0"
| "last_used f base i (Suc n) =
     (if \<forall>b \<in> set (fget f (base + i * n) i). b = 0 then last_used f base i n else Suc n)"

definition first_used :: "FILE \<Rightarrow> nat \<Rightarrow> nat \<Rightarrow> nat" where
  "first_used f off p = p + length (takeWhile (\<lambda>b. b = 0) (fget f (off + p) (8192 - p)))"

lemma last_used_le: "last_used f base i n \<le> n"
  by (induction n) auto

lemma last_used_zero_above:
  "last_used f base i n \<le> k \<Longrightarrow> k < n \<Longrightarrow> b \<in> set (fget f (base + i * k) i) \<Longrightarrow> b = 0"
  by (induction n) (auto simp: less_Suc_eq split: if_splits)

lemma last_used_nonzero_below:
  "last_used f base i n = Suc k \<Longrightarrow> \<exists>b \<in> set (fget f (base + i * k) i). b \<noteq> 0"
  by (induction n) (auto split: if_splits)

lemma last_used_cong:
  "(\<And>k. k < n \<Longrightarrow> fget f (base + i * k) i = fget g (base + i * k) i) \<Longrightarrow>
   last_used f base i n = last_used g base i n"
  by (induction n) auto

lemma last_used_pos [simp]: "last_used (f\<lparr>fpos := p\<rparr>) base i n = last_used f base i n"
  by (rule last_used_cong) simp

lemma first_used_pos [simp]: "first_used (f\<lparr>fpos := p\<rparr>) off q = first_used f off q"
  by (simp add: first_used_def)

lemma first_used_bounds: "p \<le> 8192 \<Longrightarrow> p \<le> first_used f off p \<and> first_used f off p \<le> 8192"
  using length_takeWhile_le [of "\<lambda>b. b = 0" "fget f (off + p) (8192 - p)"]
  by (auto simp: first_used_def)

lemma fget_Suc: "fget f off (Suc n) = fdata f off # fget f (Suc off) n"
  by (simp add: fget_def upt_conv_Cons del: upt_Suc)

lemma first_used_step:
  assumes "p < 8192"
  shows "first_used f off p = (if fdata f (off + p) = 0 then first_used f off (Suc p) else p)"
proof -
  have "8192 - p = Suc (8192 - Suc p)" using assms by simp
  then show ?thesis by (simp add: first_used_def fget_Suc del: diff_Suc_Suc)
qed

lemma first_used_end: "first_used f off 8192 = 8192"
  by (simp add: first_used_def)

lemma first_used_zero_below:
  "p \<le> q \<Longrightarrow> q < first_used f off p \<Longrightarrow> p \<le> 8192 \<Longrightarrow> fdata f (off + q) = 0"
proof (induction "8192 - p" arbitrary: p)
  case 0
  then show ?case by (simp add: first_used_end)
next
  case (Suc n)
  then have "p < 8192" "n = 8192 - Suc p" by simp_all
  with Suc.prems Suc.hyps(1) [of "Suc p"] show ?case
    by (cases "p = q") (auto simp: first_used_step split: if_splits)
qed

lemma first_used_nonzero:
  "p \<le> 8192 \<Longrightarrow> first_used f off p < 8192 \<Longrightarrow> fdata f (off + first_used f off p) \<noteq> 0"
proof (induction "8192 - p" arbitrary: p)
  case 0
  then show ?case by (simp add: first_used_end)
next
  case (Suc n)
  then have "p < 8192" "n = 8192 - Suc p" by simp_all
  with Suc.prems Suc.hyps(1) [of "Suc p"] show ?case
    by (auto simp: first_used_step split: if_splits)
qed

subsection \<open>What the loops compute\<close>

text \<open>A header whose item or record pointer moved, the free space with it.\<close>

definition set_lip :: "nat \<Rightarrow> Sect_head \<Rightarrow> Sect_head" where
  "set_lip n h = h\<lparr>lst_itm_ptr := word_of_nat n, free_space := fst_rec_ptr h - word_of_nat n\<rparr>"

definition set_frp :: "nat \<Rightarrow> Sect_head \<Rightarrow> Sect_head" where
  "set_frp n h = h\<lparr>fst_rec_ptr := word_of_nat n, free_space := word_of_nat n - lst_itm_ptr h\<rparr>"

definition free_ok :: "Sect_head \<Rightarrow> bool" where
  "free_ok h \<longleftrightarrow> free_space h = fst_rec_ptr h - lst_itm_ptr h"

lemma set_lip_fields [simp]:
  "lst_itm_ptr (set_lip n h) = word_of_nat n" "fst_rec_ptr (set_lip n h) = fst_rec_ptr h"
  "file_offset (set_lip n h) = file_offset h" "next_ptr (set_lip n h) = next_ptr h"
  "free_ok (set_lip n h)"
  by (simp_all add: set_lip_def free_ok_def)

lemma set_frp_fields [simp]:
  "fst_rec_ptr (set_frp n h) = word_of_nat n" "lst_itm_ptr (set_frp n h) = lst_itm_ptr h"
  "file_offset (set_frp n h) = file_offset h" "next_ptr (set_frp n h) = next_ptr h"
  "free_ok (set_frp n h)"
  by (simp_all add: set_frp_def free_ok_def)

lemma set_lip_same: "free_ok h \<Longrightarrow> lst_itm_ptr h = word_of_nat n \<Longrightarrow> set_lip n h = h"
  by (simp add: set_lip_def free_ok_def)

lemma set_frp_same: "free_ok h \<Longrightarrow> fst_rec_ptr h = word_of_nat n \<Longrightarrow> set_frp n h = h"
  by (simp add: set_frp_def free_ok_def)

lemma set_lip_twice [simp]: "set_lip m (set_lip n h) = set_lip m h"
  by (simp add: set_lip_def)

lemma set_frp_twice [simp]: "set_frp m (set_frp n h) = set_frp m h"
  by (simp add: set_frp_def)

lemma drop_last_item_eq:
  "free_ok h \<Longrightarrow> lst_itm_ptr h = word_of_nat (m + i) \<Longrightarrow>
   drop_last_item (word_of_nat i) (h, f) = (set_lip m h, f)"
  by (simp add: drop_last_item_def set_lip_def free_ok_def)

lemma skip_rec_byte_eq:
  "free_ok h \<Longrightarrow> fst_rec_ptr h = word_of_nat p \<Longrightarrow>
   skip_rec_byte (h, f) = (set_frp (Suc p) h, f)"
  by (simp add: skip_rec_byte_def set_frp_def free_ok_def)

lemma read_last_item_ok:
  assumes "file_ok f" "lst_itm_ptr h = word_of_nat (m + i)" "m + i \<le> 8192"
    and "unat (file_offset h) + m + i \<le> fsize f"
  shows "read_last_item (word_of_nat i) (h, f) =
    Some (Some (OK, fget f (unat (file_offset h) + m) i), (h, f))"
  using assms by (simp add: read_last_item_def sect_head_read_into_ok unat_of_nat_small)

lemma pos_same: "file_ok f \<Longrightarrow> \<exists>p. f = f\<lparr>fpos := p\<rparr> \<and> p < LONG_LIMIT"
  by (rule exI [of _ "fpos f"]) (simp add: file_ok_def)

lemma read_last_item_unchecked:
  "file_ok f \<Longrightarrow> \<exists>r p. read_last_item i (h, f) = Some (Some r, (h, f\<lparr>fpos := p\<rparr>)) \<and> p < LONG_LIMIT"
  using sect_head_read_into_unchecked by (simp add: read_last_item_def)

lemma cmprs_lip_loop_ok:
  assumes "file_ok f" "free_ok h" "lst_itm_ptr h = word_of_nat (32 + i * n)"
    and "0 < i" "32 + i * n \<le> 8192" "unat (file_offset h) + 32 + i * n \<le> fsize f"
    and "0 < n \<longrightarrow> rd = Some (fget f (unat (file_offset h) + 32 + i * (n - 1)) i)"
  shows "\<exists>p. cmprs_lip_loop (word_of_nat i) rd (h, f) =
      Some (Some (), (set_lip (32 + i * last_used f (unat (file_offset h) + 32) i n) h, f\<lparr>fpos := p\<rparr>))
      \<and> p < LONG_LIMIT"
  using assms
proof (induction n arbitrary: f h rd)
  case 0
  then have "cmprs_lip_loop (word_of_nat i) rd (h, f) =
      Some (Some (), (set_lip 32 h, f\<lparr>fpos := fpos f\<rparr>))"
    by (simp add: cmprs_lip_loop.simps set_lip_same)
  with 0 show ?case by (simp add: pos_same)
next
  case (Suc n)
  let ?off = "unat (file_offset h)"
  let ?item = "fget f (?off + 32 + i * n) i"
  have neq: "lst_itm_ptr h \<noteq> 32"
  proof
    assume "lst_itm_ptr h = 32"
    then have "unat (lst_itm_ptr h) = 32" by simp
    moreover have "unat (lst_itm_ptr h) = 32 + i * Suc n"
      unfolding Suc.prems(3) using Suc.prems(5) by (intro unat_of_nat_small) simp
    ultimately show False using Suc.prems(4) by simp
  qed
  show ?case
  proof (cases "\<forall>b \<in> set ?item. b = 0")
    case False
    then have "cmprs_lip_loop (word_of_nat i) rd (h, f) =
        Some (Some (), (set_lip (32 + i * Suc n) h, f\<lparr>fpos := fpos f\<rparr>))"
      using Suc.prems neq
      by (subst cmprs_lip_loop.simps) (auto simp: set_lip_same)
    with False Suc.prems show ?thesis by (auto intro: pos_same)
  next
    case True
    let ?h = "set_lip (32 + i * n) h"
    have drop: "drop_last_item (word_of_nat i) (h, f) = (?h, f)"
      using Suc.prems by (intro drop_last_item_eq) (simp_all add: algebra_simps)
    obtain r p where rd1: "read_last_item (word_of_nat i) (?h, f) = Some (Some r, (?h, f\<lparr>fpos := p\<rparr>))"
      and p: "p < LONG_LIMIT"
      using read_last_item_unchecked [OF Suc.prems(1)] by blast
    have rd2: "r = (OK, fget f (?off + 32 + i * (n - 1)) i)" if "0 < n"
    proof -
      from that have split: "32 + i * n = 32 + i * (n - 1) + i" by (cases n) auto
      have "read_last_item (word_of_nat i) (?h, f) =
          Some (Some (OK, fget f (unat (file_offset ?h) + (32 + i * (n - 1))) i), (?h, f))"
        using Suc.prems split by (intro read_last_item_ok) (simp_all only: set_lip_fields, auto)
      with rd1 show ?thesis by (simp add: add.assoc)
    qed
    have "\<exists>q. cmprs_lip_loop (word_of_nat i) (buf_after rd r) (?h, f\<lparr>fpos := p\<rparr>) =
        Some (Some (), (set_lip (32 + i * last_used (f\<lparr>fpos := p\<rparr>) (unat (file_offset ?h) + 32) i n) ?h,
          f\<lparr>fpos := p\<rparr>\<lparr>fpos := q\<rparr>)) \<and> q < LONG_LIMIT"
      using Suc.prems p rd2 by (intro Suc.IH) simp_all
    then show ?thesis
      using True Suc.prems neq drop rd1
      by (subst cmprs_lip_loop.simps) auto
  qed
qed

lemma read_first_rec_ok:
  assumes "file_ok f" "fst_rec_ptr h = word_of_nat p" "p < 8192"
    and "unat (file_offset h) + p < fsize f"
  shows "read_first_rec (h, f) = Some (Some (OK, [fdata f (unat (file_offset h) + p)]), (h, f))"
  using assms by (simp add: read_first_rec_def sect_head_read_into_ok unat_of_nat_small fget_def)

lemma cmprs_frp_loop_ok:
  assumes "file_ok f" "free_ok h" "fst_rec_ptr h = word_of_nat p" "p \<le> 8192"
    and "p < 8192 \<longrightarrow> unat (file_offset h) + 8192 \<le> fsize f"
  shows "\<exists>q. cmprs_frp_loop chr (h, f) =
      Some (Some (), (set_frp (first_used f (unat (file_offset h)) p) h, f\<lparr>fpos := q\<rparr>)) \<and> q < LONG_LIMIT"
  using assms
proof (induction "8192 - p" arbitrary: f h p chr)
  case 0
  then have p: "p = 8192" by simp
  obtain r q where rd: "read_first_rec (h, f) = Some (Some r, (h, f\<lparr>fpos := q\<rparr>))" "q < LONG_LIMIT"
    using sect_head_read_into_unchecked [OF 0(2)] unfolding read_first_rec_def by fastforce
  with 0 p have "cmprs_frp_loop chr (h, f) = Some (Some (), (set_frp 8192 h, f\<lparr>fpos := q\<rparr>))"
    by (simp add: cmprs_frp_loop.simps set_frp_same)
  with rd p show ?case by (auto simp: first_used_end)
next
  case (Suc n)
  let ?off = "unat (file_offset h)"
  have p: "p < 8192" using Suc.hyps(2) by simp
  have rd: "read_first_rec (h, f) = Some (Some (OK, [fdata f (?off + p)]), (h, f))"
    using Suc.prems p by (intro read_first_rec_ok) auto
  have neq: "fst_rec_ptr h \<noteq> 8192"
  proof
    assume "fst_rec_ptr h = 8192"
    then have "unat (word_of_nat p :: u64) = unat (8192 :: u64)" using Suc.prems(3) by simp
    then show False using p by (simp add: unat_of_nat_small)
  qed
  show ?case
  proof (cases "fdata f (?off + p) = 0")
    case False
    then have "cmprs_frp_loop chr (h, f) = Some (Some (), (set_frp p h, f\<lparr>fpos := fpos f\<rparr>))"
      using rd neq Suc.prems by (subst cmprs_frp_loop.simps) (simp add: set_frp_same)
    with False p Suc.prems show ?thesis by (simp add: first_used_step pos_same)
  next
    case True
    have "\<exists>q. cmprs_frp_loop (Some [0]) (set_frp (Suc p) h, f) =
        Some (Some (), (set_frp (first_used f (unat (file_offset (set_frp (Suc p) h))) (Suc p))
          (set_frp (Suc p) h), f\<lparr>fpos := q\<rparr>)) \<and> q < LONG_LIMIT"
      using Suc.prems Suc.hyps(2) p by (intro Suc.hyps(1)) auto
    moreover have "cmprs_frp_loop chr (h, f) = cmprs_frp_loop (Some [0]) (set_frp (Suc p) h, f)"
      using True rd neq skip_rec_byte_eq [OF Suc.prems(2,3)]
      by (subst cmprs_frp_loop.simps) simp
    ultimately show ?thesis using True p by (simp add: first_used_step)
  qed
qed

subsection \<open>Well-formed sections\<close>

text \<open>
  What the section code keeps true between its operations: the pointers are ordered and inside the
  section, the free space is their distance, the section fits the stream, the bytes the pointers
  give away are there, and the header on disk is the header in memory.
\<close>

definition sect_wf :: "sect \<Rightarrow> bool" where
  "sect_wf = (\<lambda>(h, f).
     file_ok f \<and> free_ok h \<and>
     32 \<le> unat (lst_itm_ptr h) \<and> unat (lst_itm_ptr h) \<le> unat (fst_rec_ptr h) \<and>
     unat (fst_rec_ptr h) \<le> 8192 \<and>
     unat (file_offset h) + 8192 \<le> fcap f \<and>
     unat (file_offset h) + unat (lst_itm_ptr h) \<le> fsize f \<and>
     (unat (fst_rec_ptr h) < 8192 \<longrightarrow> unat (file_offset h) + 8192 \<le> fsize f) \<and>
     fget f (unat (file_offset h)) 32 = head_bytes h)"

text \<open>The stream after the header is written out.\<close>

definition synced :: "Sect_head \<Rightarrow> FILE \<Rightarrow> FILE" where
  "synced h f = fput f (unat (file_offset h)) (head_bytes h)"

lemma synced_fields [simp]: "fpos (synced h f) = fpos f" "fcap (synced h f) = fcap f"
  by (simp_all add: synced_def)

lemma fsize_synced: "fsize (synced h f) = max (fsize f) (unat (file_offset h) + 32)"
  by (simp add: synced_def fsize_fput)

lemma synced_pos: "synced h (f\<lparr>fpos := p\<rparr>) = (synced h f)\<lparr>fpos := p\<rparr>"
  by (simp add: synced_def fput_pos)

lemma fget_synced_head [simp]: "fget (synced h f) (unat (file_offset h)) 32 = head_bytes h"
  by (simp add: synced_def)

lemma fdata_synced:
  "i < unat (file_offset h) \<or> unat (file_offset h) + 32 \<le> i \<Longrightarrow> fdata (synced h f) i = fdata f i"
  by (auto simp: synced_def fdata_fput)

lemma fget_synced_other:
  "a + n \<le> unat (file_offset h) \<or> unat (file_offset h) + 32 \<le> a \<Longrightarrow> fget (synced h f) a n = fget f a n"
  by (auto simp: synced_def)

lemma unat_free_space: "sect_wf (h, f) \<Longrightarrow> unat (free_space h) = unat (fst_rec_ptr h) - unat (lst_itm_ptr h)"
  by (simp add: sect_wf_def free_ok_def unat_sub_small)

lemma sync_ok:
  "file_ok f \<Longrightarrow> unat (file_offset h) + 32 \<le> fcap f \<Longrightarrow>
   sect_head_sync (h, f) = Some (Some (), (h, synced h f))"
  by (simp add: sect_head_sync_ok synced_def)

text \<open>On a well-formed section a sync changes nothing.\<close>

lemma sync_wf: "sect_wf (h, f) \<Longrightarrow> sect_head_sync (h, f) = Some (Some (), (h, f))"
proof -
  assume wf: "sect_wf (h, f)"
  then have "unat (file_offset h) + 32 \<le> fsize f" by (auto simp: sect_wf_def)
  then have "synced h f = f"
    using fput_fget_same [of "unat (file_offset h)" 32 f] wf by (simp add: synced_def sect_wf_def)
  with wf show ?thesis by (simp add: sync_ok sect_wf_def)
qed

lemma sect_wf_pos: "sect_wf (h, f) \<Longrightarrow> p < LONG_LIMIT \<Longrightarrow> sect_wf (h, f\<lparr>fpos := p\<rparr>)"
  by (simp add: sect_wf_def)

text \<open>A fresh section.\<close>

definition fresh_head :: "Fileoff \<Rightarrow> Sect_head" where
  "fresh_head off = \<lparr>free_space = 8160, next_ptr = 0, lst_itm_ptr = 32, fst_rec_ptr = 8192, file_offset = off\<rparr>"

lemma sect_head_ctor_ok:
  assumes "file_ok f" "unat off + 8192 \<le> fcap f"
  shows "sect_head_ctor off (h, f) = Some (Some (), (fresh_head off, synced (fresh_head off) f))"
    and "sect_wf (fresh_head off, synced (fresh_head off) f)"
proof -
  have "h\<lparr>free_space := SECTION_SIZE - sizeof_Sect_head_entity, next_ptr := 0,
      lst_itm_ptr := sizeof_Sect_head_entity, fst_rec_ptr := SECTION_SIZE, file_offset := off\<rparr> = fresh_head off"
    by (cases h) (simp add: fresh_head_def)
  then have "sect_head_ctor off (h, f) = sect_head_sync (fresh_head off, f)"
    by (simp only: sect_head_ctor_def prod.case)
  also have "\<dots> = Some (Some (), (fresh_head off, synced (fresh_head off) f))"
    using assms by (intro sync_ok) (simp_all add: fresh_head_def)
  finally show "sect_head_ctor off (h, f) = Some (Some (), (fresh_head off, synced (fresh_head off) f))" .
  have "unat (file_offset (fresh_head off)) = unat off" by (simp add: fresh_head_def)
  with assms show "sect_wf (fresh_head off, synced (fresh_head off) f)"
    using fget_synced_head [of "fresh_head off" f]
    by (simp add: sect_wf_def fsize_synced file_ok_def free_ok_def) (simp add: fresh_head_def synced_def file_ok_def)
qed

text \<open>The two compressions on a well-formed section: they return, and this is where they stop.\<close>

lemma sect_head_cmprs_lip_ok:
  assumes wf: "sect_wf (h, f)" and lip: "unat (lst_itm_ptr h) = 32 + i * n" and i: "0 < i"
  shows "\<exists>p. sect_head_cmprs_lip (word_of_nat i) (h, f) = Some (Some (),
      (set_lip (32 + i * last_used f (unat (file_offset h) + 32) i n) h,
       (synced (set_lip (32 + i * last_used f (unat (file_offset h) + 32) i n) h) f)\<lparr>fpos := p\<rparr>))
      \<and> p < LONG_LIMIT"
proof -
  let ?off = "unat (file_offset h)"
  let ?h = "set_lip (32 + i * last_used f (?off + 32) i n) h"
  have f: "file_ok f" "free_ok h" and sz: "32 + i * n \<le> 8192" "?off + 32 + i * n \<le> fsize f"
    and cap: "?off + 8192 \<le> fcap f"
    using wf lip by (auto simp: sect_wf_def)
  have lw: "lst_itm_ptr h = word_of_nat (32 + i * n)"
    using lip by (rule word_of_unat_eq)
  obtain r p where rd: "read_last_item (word_of_nat i) (h, f) = Some (Some r, (h, f\<lparr>fpos := p\<rparr>))"
    and p: "p < LONG_LIMIT"
    using read_last_item_unchecked [OF f(1)] by blast
  have r: "r = (OK, fget f (?off + 32 + i * (n - 1)) i)" if "0 < n"
  proof -
    from that obtain m where n: "n = Suc m" by (cases n) auto
    have "read_last_item (word_of_nat i) (h, f) =
        Some (Some (OK, fget f (?off + (32 + i * m)) i), (h, f))"
      using f sz lw n by (intro read_last_item_ok) (simp_all add: algebra_simps)
    with n have "read_last_item (word_of_nat i) (h, f) =
        Some (Some (OK, fget f (?off + (32 + i * (n - 1))) i), (h, f))"
      by simp
    with rd show ?thesis by (simp add: add.assoc)
  qed
  obtain q where "cmprs_lip_loop (word_of_nat i) (buf_after None r) (h, f\<lparr>fpos := p\<rparr>) =
      Some (Some (), (?h, f\<lparr>fpos := q\<rparr>))" and q: "q < LONG_LIMIT"
    using cmprs_lip_loop_ok [of "f\<lparr>fpos := p\<rparr>" h i n "buf_after None r"] f p lw i sz r by auto
  then have "sect_head_cmprs_lip (word_of_nat i) (h, f) = sect_head_sync (?h, f\<lparr>fpos := q\<rparr>)"
    using rd by (simp add: sect_head_cmprs_lip_def)
  also have "\<dots> = Some (Some (), (?h, (synced ?h f)\<lparr>fpos := q\<rparr>))"
    using f q cap by (simp add: sync_ok synced_pos)
  finally show ?thesis using q by blast
qed

lemma sect_head_cmprs_frp_ok:
  assumes wf: "sect_wf (h, f)"
  shows "\<exists>p. sect_head_cmprs_frp (h, f) = Some (Some (),
      (set_frp (first_used f (unat (file_offset h)) (unat (fst_rec_ptr h))) h,
       (synced (set_frp (first_used f (unat (file_offset h)) (unat (fst_rec_ptr h))) h) f)\<lparr>fpos := p\<rparr>))
      \<and> p < LONG_LIMIT"
proof -
  let ?off = "unat (file_offset h)"
  let ?h = "set_frp (first_used f ?off (unat (fst_rec_ptr h))) h"
  have f: "file_ok f" "free_ok h" and frp: "unat (fst_rec_ptr h) \<le> 8192"
    "unat (fst_rec_ptr h) < 8192 \<longrightarrow> ?off + 8192 \<le> fsize f" and cap: "?off + 8192 \<le> fcap f"
    using wf by (auto simp: sect_wf_def)
  obtain q where "cmprs_frp_loop None (h, f) = Some (Some (), (?h, f\<lparr>fpos := q\<rparr>))" and q: "q < LONG_LIMIT"
    using cmprs_frp_loop_ok [OF f word_of_unat [symmetric] frp, of None] by blast
  then have "sect_head_cmprs_frp (h, f) = sect_head_sync (?h, f\<lparr>fpos := q\<rparr>)"
    by (simp add: sect_head_cmprs_frp_def)
  also have "\<dots> = Some (Some (), (?h, (synced ?h f)\<lparr>fpos := q\<rparr>))"
    using f q cap by (simp add: sync_ok synced_pos)
  finally show ?thesis using q by blast
qed

text \<open>The section after a compression is well-formed again.\<close>

lemma sect_wf_set_lip:
  assumes wf: "sect_wf (h, f)" and n: "32 \<le> n" "n \<le> unat (lst_itm_ptr h)" and p: "p < LONG_LIMIT"
  shows "sect_wf (set_lip n h, (synced (set_lip n h) f)\<lparr>fpos := p\<rparr>)"
proof -
  have "unat (word_of_nat n :: u64) = n"
    using n wf by (intro unat_of_nat_small) (auto simp: sect_wf_def)
  moreover have "file_ok (synced (set_lip n h) f)"
    using wf by (simp add: synced_def sect_wf_def)
  ultimately show ?thesis
    using wf n p fget_synced_head [of "set_lip n h" f] by (auto simp: sect_wf_def fsize_synced)
qed

lemma sect_wf_set_frp:
  assumes wf: "sect_wf (h, f)" and n: "unat (fst_rec_ptr h) \<le> n" "n \<le> 8192" and p: "p < LONG_LIMIT"
  shows "sect_wf (set_frp n h, (synced (set_frp n h) f)\<lparr>fpos := p\<rparr>)"
proof -
  have "unat (word_of_nat n :: u64) = n"
    using n by (intro unat_of_nat_small) auto
  moreover have "file_ok (synced (set_frp n h) f)"
    using wf by (simp add: synced_def sect_wf_def)
  ultimately show ?thesis
    using wf n p fget_synced_head [of "set_frp n h" f] by (auto simp: sect_wf_def fsize_synced)
qed

subsection \<open>Properties\<close>

text \<open>A section as the constructor leaves it, at the first section offset of a file.\<close>

definition sample_head :: Sect_head where
  "sample_head = fresh_head 8"

definition sample_stream :: FILE where
  "sample_stream = synced sample_head (fopen_w 20000)"

lemma sample_sect_wf: "sect_wf (sample_head, sample_stream)"
  unfolding sample_head_def sample_stream_def
  using file_ok_fopen [of 20000] by (intro sect_head_ctor_ok(2)) (simp_all add: fopen_w_def)

lemma sample_head_fields [simp]:
  "lst_itm_ptr sample_head = 32" "fst_rec_ptr sample_head = 8192" "file_offset sample_head = 8"
  by (simp_all add: sample_head_def fresh_head_def)

text \<open>C22: \<open>sect_head_cmprs_lip\<close> returns on every well-formed section that holds \<open>n\<close> items of size \<open>i\<close>.
  It gives back exactly the trailing items whose bytes are all zero, keeps the section well-formed and
  changes no byte behind the header.\<close>

theorem cmprs_lip_effect:
  assumes "sect_wf (h, f)" "unat (lst_itm_ptr h) = 32 + i * n" "0 < i"
  shows "\<exists>h' f' m. sect_head_cmprs_lip (word_of_nat i) (h, f) = Some (Some (), (h', f')) \<and> sect_wf (h', f') \<and>
    m \<le> n \<and> unat (lst_itm_ptr h') = 32 + i * m \<and> fst_rec_ptr h' = fst_rec_ptr h \<and>
    (\<forall>k. m \<le> k \<longrightarrow> k < n \<longrightarrow> (\<forall>b \<in> set (fget f (unat (file_offset h) + 32 + i * k) i). b = 0)) \<and>
    (m \<noteq> 0 \<longrightarrow> (\<exists>b \<in> set (fget f (unat (file_offset h) + 32 + i * (m - 1)) i). b \<noteq> 0)) \<and>
    (\<forall>a. a < unat (file_offset h) \<or> unat (file_offset h) + 32 \<le> a \<longrightarrow> fdata f' a = fdata f a)"
proof -
  let ?m = "last_used f (unat (file_offset h) + 32) i n"
  let ?h = "set_lip (32 + i * ?m) h"
  obtain p where eq: "sect_head_cmprs_lip (word_of_nat i) (h, f) = Some (Some (), (?h, (synced ?h f)\<lparr>fpos := p\<rparr>))"
    and p: "p < LONG_LIMIT"
    using sect_head_cmprs_lip_ok [OF assms] by blast
  have m: "?m \<le> n" by (rule last_used_le)
  then have le: "32 + i * ?m \<le> unat (lst_itm_ptr h)" by (simp add: assms(2))
  have "unat (lst_itm_ptr h) \<le> 8192" using assms(1) by (auto simp: sect_wf_def)
  then have u: "unat (word_of_nat (32 + i * ?m) :: u64) = 32 + i * ?m"
    using le by (intro unat_of_nat_small) simp
  have wf: "sect_wf (?h, (synced ?h f)\<lparr>fpos := p\<rparr>)"
    using le p by (intro sect_wf_set_lip [OF assms(1)]) simp_all
  have low: "\<exists>b \<in> set (fget f (unat (file_offset h) + 32 + i * (?m - 1)) i). b \<noteq> 0" if "?m \<noteq> 0"
    using last_used_nonzero_below [of f "unat (file_offset h) + 32" i n "?m - 1"] that by simp
  have data: "fdata ((synced ?h f)\<lparr>fpos := p\<rparr>) a = fdata f a"
    if "a < unat (file_offset h) \<or> unat (file_offset h) + 32 \<le> a" for a
    using that by (simp add: fdata_synced)
  show ?thesis
    by (rule exI [of _ ?h], rule exI [of _ "(synced ?h f)\<lparr>fpos := p\<rparr>"], rule exI [of _ ?m])
      (use eq wf m u low data last_used_zero_above [of f "unat (file_offset h) + 32" i n] in
        \<open>simp only: set_lip_fields simp_thms, blast\<close>)
qed

theorem cmprs_lip_effect_witness:
  "\<exists>h' f' m. sect_head_cmprs_lip (word_of_nat 80) (sample_head, sample_stream) = Some (Some (), (h', f')) \<and> sect_wf (h', f') \<and>
    m \<le> 0 \<and> unat (lst_itm_ptr h') = 32 + 80 * m \<and> fst_rec_ptr h' = fst_rec_ptr sample_head \<and>
    (\<forall>k. m \<le> k \<longrightarrow> k < 0 \<longrightarrow> (\<forall>b \<in> set (fget sample_stream (unat (file_offset sample_head) + 32 + 80 * k) 80). b = 0)) \<and>
    (m \<noteq> 0 \<longrightarrow> (\<exists>b \<in> set (fget sample_stream (unat (file_offset sample_head) + 32 + 80 * (m - 1)) 80). b \<noteq> 0)) \<and>
    (\<forall>a. a < unat (file_offset sample_head) \<or> unat (file_offset sample_head) + 32 \<le> a \<longrightarrow> fdata f' a = fdata sample_stream a)"
  by (rule cmprs_lip_effect [OF sample_sect_wf]) simp_all

text \<open>C23: \<open>sect_head_cmprs_frp\<close> returns on every well-formed section. The record border moves up over
  zero bytes only and stops at the first byte that is not zero, or at the end of the section; no byte
  behind the header changes.\<close>

theorem cmprs_frp_effect:
  assumes "sect_wf (h, f)"
  shows "\<exists>h' f'. sect_head_cmprs_frp (h, f) = Some (Some (), (h', f')) \<and> sect_wf (h', f') \<and>
    lst_itm_ptr h' = lst_itm_ptr h \<and> unat (fst_rec_ptr h) \<le> unat (fst_rec_ptr h') \<and>
    (\<forall>a. unat (fst_rec_ptr h) \<le> a \<longrightarrow> a < unat (fst_rec_ptr h') \<longrightarrow> fdata f (unat (file_offset h) + a) = 0) \<and>
    (unat (fst_rec_ptr h') < 8192 \<longrightarrow> fdata f (unat (file_offset h) + unat (fst_rec_ptr h')) \<noteq> 0) \<and>
    (\<forall>a. a < unat (file_offset h) \<or> unat (file_offset h) + 32 \<le> a \<longrightarrow> fdata f' a = fdata f a)"
proof -
  let ?m = "first_used f (unat (file_offset h)) (unat (fst_rec_ptr h))"
  let ?h = "set_frp ?m h"
  obtain p where eq: "sect_head_cmprs_frp (h, f) = Some (Some (), (?h, (synced ?h f)\<lparr>fpos := p\<rparr>))"
    and p: "p < LONG_LIMIT"
    using sect_head_cmprs_frp_ok [OF assms] by blast
  have frp: "unat (fst_rec_ptr h) \<le> 8192" using assms by (simp add: sect_wf_def)
  have m: "unat (fst_rec_ptr h) \<le> ?m" "?m \<le> 8192" using first_used_bounds [OF frp] by blast+
  then have u: "unat (word_of_nat ?m :: u64) = ?m" by (intro unat_of_nat_small) simp
  have wf: "sect_wf (?h, (synced ?h f)\<lparr>fpos := p\<rparr>)"
    using m p by (intro sect_wf_set_frp [OF assms]) simp_all
  have zero: "fdata f (unat (file_offset h) + a) = 0" if "unat (fst_rec_ptr h) \<le> a" "a < ?m" for a
    using first_used_zero_below [OF that frp] .
  have data: "fdata ((synced ?h f)\<lparr>fpos := p\<rparr>) a = fdata f a"
    if "a < unat (file_offset h) \<or> unat (file_offset h) + 32 \<le> a" for a
    using that by (simp add: fdata_synced)
  show ?thesis
    by (rule exI [of _ ?h], rule exI [of _ "(synced ?h f)\<lparr>fpos := p\<rparr>"])
      (use eq wf m u zero data first_used_nonzero [OF frp, of f "unat (file_offset h)"] in
        \<open>simp only: set_frp_fields simp_thms, blast\<close>)
qed

theorem cmprs_frp_effect_witness:
  "\<exists>h' f'. sect_head_cmprs_frp (sample_head, sample_stream) = Some (Some (), (h', f')) \<and> sect_wf (h', f') \<and>
    lst_itm_ptr h' = lst_itm_ptr sample_head \<and> unat (fst_rec_ptr sample_head) \<le> unat (fst_rec_ptr h') \<and>
    (\<forall>a. unat (fst_rec_ptr sample_head) \<le> a \<longrightarrow> a < unat (fst_rec_ptr h') \<longrightarrow>
       fdata sample_stream (unat (file_offset sample_head) + a) = 0) \<and>
    (unat (fst_rec_ptr h') < 8192 \<longrightarrow>
       fdata sample_stream (unat (file_offset sample_head) + unat (fst_rec_ptr h')) \<noteq> 0) \<and>
    (\<forall>a. a < unat (file_offset sample_head) \<or> unat (file_offset sample_head) + 32 \<le> a \<longrightarrow>
       fdata f' a = fdata sample_stream a)"
  by (rule cmprs_frp_effect [OF sample_sect_wf])

end
