(* ===== verification/Sect_Step.thy ===== *)
theory Sect_Step
  imports Sect_Header
begin

text \<open>
  The contract between the section code and the file code. A section operation keeps its section
  well-formed, stays inside the section's bytes and never shrinks the stream: \<open>sect_step\<close>. An
  operation with that contract is a \<open>section_op\<close>; the file code's lemmas about running it on one
  of many sections are proved from the contract alone (theory \<open>File_Inv\<close>).
\<close>

subsection \<open>Steps of one section\<close>

definition sect_step :: "sect \<Rightarrow> sect \<Rightarrow> bool" where
  "sect_step = (\<lambda>(h, f) (h', f').
     sect_wf (h', f') \<and> file_offset h' = file_offset h \<and> fcap f' = fcap f \<and> fsize f \<le> fsize f' \<and>
     (\<forall>i. i < unat (file_offset h) \<or> unat (file_offset h) + 8192 \<le> i \<longrightarrow> fdata f' i = fdata f i))"

lemma sect_stepI:
  assumes "sect_wf (h', f')" "file_offset h' = file_offset h" "fcap f' = fcap f" "fsize f \<le> fsize f'"
    and "\<And>i. i < unat (file_offset h) \<or> unat (file_offset h) + 8192 \<le> i \<Longrightarrow> fdata f' i = fdata f i"
  shows "sect_step (h, f) (h', f')"
  using assms by (simp add: sect_step_def)

lemma sect_stepD:
  assumes "sect_step (h, f) (h', f')"
  shows "sect_wf (h', f')" "file_offset h' = file_offset h" "fcap f' = fcap f" "fsize f \<le> fsize f'"
    "i < unat (file_offset h) \<or> unat (file_offset h) + 8192 \<le> i \<Longrightarrow> fdata f' i = fdata f i"
  using assms by (auto simp: sect_step_def)

lemma sect_step_refl: "sect_wf (h, f) \<Longrightarrow> sect_step (h, f) (h, f)"
  by (simp add: sect_step_def)

lemma sect_step_trans: "sect_step s t \<Longrightarrow> sect_step t u \<Longrightarrow> sect_step s u"
  by (cases s; cases t; cases u) (auto simp: sect_step_def)

text \<open>The position of the stream is not part of the contract, beyond being a valid one.\<close>

lemma sect_step_pos: "sect_wf (h, f) \<Longrightarrow> p < LONG_LIMIT \<Longrightarrow> sect_step (h, f) (h, f\<lparr>fpos := p\<rparr>)"
  by (intro sect_stepI) (simp_all add: sect_wf_pos)

text \<open>A write into the section, behind its header.\<close>

lemma sect_step_fput:
  assumes wf: "sect_wf (h, f)" and "32 \<le> a" "a + length bs \<le> 8192"
  shows "sect_step (h, f) (h, fput f (unat (file_offset h) + a) bs)"
proof (rule sect_stepI)
  show "sect_wf (h, fput f (unat (file_offset h) + a) bs)"
    using assms by (auto simp: sect_wf_def fsize_fput)
qed (use assms in \<open>auto simp: fsize_fput fdata_fput\<close>)

text \<open>A new header, written out.\<close>

lemma sect_step_synced:
  assumes wf: "sect_wf (h, f)" and h': "free_ok h'" "file_offset h' = file_offset h"
    and ptrs: "32 \<le> unat (lst_itm_ptr h')" "unat (lst_itm_ptr h') \<le> unat (fst_rec_ptr h')" "unat (fst_rec_ptr h') \<le> 8192"
    and size: "unat (file_offset h) + unat (lst_itm_ptr h') \<le> fsize f"
      "unat (fst_rec_ptr h') < 8192 \<Longrightarrow> unat (file_offset h) + 8192 \<le> fsize f"
  shows "sect_step (h, f) (h', synced h' f)"
proof (rule sect_stepI)
  have "file_ok (synced h' f)"
    using wf h' by (simp add: sect_wf_def synced_def)
  then show "sect_wf (h', synced h' f)"
    using assms fget_synced_head [of h' f] by (auto simp: sect_wf_def fsize_synced)
qed (use h' in \<open>auto simp: fsize_synced fdata_synced\<close>)

subsection \<open>The interface\<close>

locale section_op =
  fixes op :: "(sect, 'a) prog" and pre :: "sect \<Rightarrow> bool"
  assumes op_step: "sect_wf (h, f) \<Longrightarrow> pre (h, f) \<Longrightarrow>
    \<exists>r h' f'. op (h, f) = Some (r, (h', f')) \<and> sect_step (h, f) (h', f')"
begin

lemma op_wf:
  assumes "sect_wf (h, f)" "pre (h, f)" "op (h, f) = Some (r, (h', f'))"
  shows "sect_wf (h', f')"
  using op_step [OF assms(1,2)] assms(3) by (auto dest: sect_stepD(1))

lemma op_stepD:
  assumes "sect_wf (h, f)" "pre (h, f)" "op (h, f) = Some (r, (h', f'))"
  shows "sect_step (h, f) (h', f')"
  using op_step [OF assms(1,2)] assms(3) by auto

end

text \<open>The compressions have the contract.\<close>

interpretation cmprs_lip: section_op "sect_head_cmprs_lip (word_of_nat i)"
    "\<lambda>(h, f). 0 < i \<and> (\<exists>n. unat (lst_itm_ptr h) = 32 + i * n)" for i
proof unfold_locales
  fix h f
  assume wf: "sect_wf (h, f)" and "case (h, f) of (h, f) \<Rightarrow> 0 < i \<and> (\<exists>n. unat (lst_itm_ptr h) = 32 + i * n)"
  then obtain n where i: "0 < i" and n: "unat (lst_itm_ptr h) = 32 + i * n" by auto
  let ?m = "32 + i * last_used f (unat (file_offset h) + 32) i n"
  obtain p where p: "p < LONG_LIMIT" and eq: "sect_head_cmprs_lip (word_of_nat i) (h, f) =
      Some (Some (), (set_lip ?m h, (synced (set_lip ?m h) f)\<lparr>fpos := p\<rparr>))"
    using sect_head_cmprs_lip_ok [OF wf n i] by blast
  have "?m \<le> unat (lst_itm_ptr h)" by (simp add: n last_used_le)
  then have "sect_step (h, f) (set_lip ?m h, (synced (set_lip ?m h) f)\<lparr>fpos := p\<rparr>)"
    using sect_wf_set_lip [OF wf _ _ p, of ?m]
    by (intro sect_stepI) (auto simp: fsize_synced fdata_synced)
  with eq show "\<exists>r h' f'. sect_head_cmprs_lip (word_of_nat i) (h, f) = Some (r, (h', f')) \<and>
      sect_step (h, f) (h', f')" by blast
qed

interpretation cmprs_frp: section_op sect_head_cmprs_frp "\<lambda>_. True"
proof unfold_locales
  fix h f
  assume wf: "sect_wf (h, f)"
  let ?m = "first_used f (unat (file_offset h)) (unat (fst_rec_ptr h))"
  obtain p where p: "p < LONG_LIMIT" and eq: "sect_head_cmprs_frp (h, f) =
      Some (Some (), (set_frp ?m h, (synced (set_frp ?m h) f)\<lparr>fpos := p\<rparr>))"
    using sect_head_cmprs_frp_ok [OF wf] by blast
  have "unat (fst_rec_ptr h) \<le> ?m" "?m \<le> 8192"
    using wf first_used_bounds by (auto simp: sect_wf_def)
  then have "sect_step (h, f) (set_frp ?m h, (synced (set_frp ?m h) f)\<lparr>fpos := p\<rparr>)"
    using sect_wf_set_frp [OF wf _ _ p, of ?m]
    by (intro sect_stepI) (auto simp: fsize_synced fdata_synced)
  with eq show "\<exists>r h' f'. sect_head_cmprs_frp (h, f) = Some (r, (h', f')) \<and> sect_step (h, f) (h', f')"
    by blast
qed

interpretation sync: section_op sect_head_sync "\<lambda>_. True"
  by unfold_locales (auto simp: sync_wf intro: sect_step_refl)

end
