(* ===== verification/Cstring.thy ===== *)
theory Cstring
  imports Prelude
begin

text \<open>
  \<^verbatim>\<open>dbms/src/utils/string.c\<close>. A \<^verbatim>\<open>String\<close> is a heap buffer \<^verbatim>\<open>val\<close> of exactly \<^verbatim>\<open>cnt\<close> bytes, with
  no terminating NUL; \<open>string_ctor\<close>, its only constructor, allocates it so. The model is the list
  of its bytes, and \<^verbatim>\<open>cnt\<close> is the length of the list. The C library functions that look for a NUL
  are modelled on byte lists too: they have no defined result when they run off the end of the
  buffer, which is \<open>None\<close>.
\<close>

type_synonym String = "u8 list"

definition cnt :: "String \<Rightarrow> size_t" where
  "cnt s = word_of_nat (length s)"

text \<open>\<^verbatim>\<open>strncpy(dst, src, n)\<close> into a buffer of \<open>n\<close> bytes: up to the first NUL, then zero padding.\<close>

fun strncpy :: "u8 list \<Rightarrow> nat \<Rightarrow> u8 list" where
  "strncpy src 0 = []"
| "strncpy [] (Suc n) = replicate (Suc n) 0"
| "strncpy (b # bs) (Suc n) = (if b = 0 then replicate (Suc n) 0 else b # strncpy bs n)"

definition string_ctor :: "u8 list \<Rightarrow> String" where
  "string_ctor src = strncpy src (length src)"

definition string_get_size :: "String \<Rightarrow> size_t" where
  "string_get_size s = cnt s"

text \<open>\<^verbatim>\<open>strncmp\<close> on two buffers of the same length, the bound being that length.\<close>

fun strncmp :: "u8 list \<Rightarrow> u8 list \<Rightarrow> int" where
  "strncmp (a # as) (b # bs) =
     (if a \<noteq> b then uint a - uint b else if a = 0 then 0 else strncmp as bs)"
| "strncmp _ _ = 0"

definition string_cmp :: "String \<Rightarrow> String \<Rightarrow> int" where
  "string_cmp s1 s2 =
     (if length s1 > length s2 then 1
      else if length s1 < length s2 then -1
      else strncmp s1 s2)"

text \<open>\<^verbatim>\<open>strcmp\<close> stops at the first difference or at a common NUL; before either, it needs more bytes.\<close>

fun strcmp :: "u8 list \<Rightarrow> u8 list \<Rightarrow> int option" where
  "strcmp (a # as) (b # bs) =
     (if a \<noteq> b then Some (uint a - uint b) else if a = 0 then Some 0 else strcmp as bs)"
| "strcmp _ _ = None"

text \<open>
  \<^verbatim>\<open>strstr(hay, needle) != NULL\<close>: the needle must be a C string. The haystack is tried position by
  position; at each one the comparison stops at the needle's end or at the first difference.
\<close>

fun c_str :: "u8 list \<Rightarrow> u8 list option" where
  "c_str [] = None"
| "c_str (b # bs) = (if b = 0 then Some [] else map_option (Cons b) (c_str bs))"

definition strstr :: "u8 list \<Rightarrow> u8 list \<Rightarrow> bool option" where
  "strstr hay needle =
     (case (c_str hay, c_str needle) of
        (Some h, Some n) \<Rightarrow> Some (\<exists>i \<in> set [0..<Suc (length h)]. take (length n) (drop i h) = n)
      | _ \<Rightarrow> None)"

subsection \<open>Canonical strings\<close>

text \<open>
  The strings \<open>string_ctor\<close> builds: nothing but zero bytes after the first NUL. They are a fixed
  point of the constructor, and on them \<open>string_cmp\<close> decides equality.
\<close>

definition canonical :: "String \<Rightarrow> bool" where
  "canonical s \<longleftrightarrow> string_ctor s = s"

lemma length_strncpy [simp]: "length (strncpy src n) = n"
  by (induction src n rule: strncpy.induct) auto

lemma length_string_ctor [simp]: "length (string_ctor s) = length s"
  by (simp add: string_ctor_def)

lemma string_ctor_Nil [simp]: "string_ctor [] = []"
  by (simp add: string_ctor_def)

lemma string_ctor_Cons:
  "string_ctor (b # bs) = (if b = 0 then replicate (Suc (length bs)) 0 else b # string_ctor bs)"
  by (simp add: string_ctor_def)

lemma canonical_Nil [simp]: "canonical []"
  by (simp add: canonical_def)

lemma canonical_Cons:
  "canonical (b # bs) \<longleftrightarrow> (if b = 0 then \<forall>c \<in> set bs. c = 0 else canonical bs)"
  by (auto simp: canonical_def string_ctor_Cons simp flip: replicate_zero_iff)

lemma canonical_no_NUL: "0 \<notin> set s \<Longrightarrow> canonical s"
  by (induction s) (auto simp: canonical_Cons)

lemma canonical_string_ctor [simp]: "canonical (string_ctor s)"
  by (induction s) (auto simp: string_ctor_Cons canonical_Cons)

lemma canonical_ctor_eq: "canonical s \<Longrightarrow> string_ctor s = s"
  by (simp add: canonical_def)

lemma uint_diff_zero [simp]: "uint (a :: u8) = uint b \<longleftrightarrow> a = b"
  by (simp add: word_uint_eq_iff)

lemma all_zero_eq:
  "length s = length t \<Longrightarrow> \<forall>c \<in> set s. c = 0 \<Longrightarrow> \<forall>c \<in> set t. c = 0 \<Longrightarrow> s = (t :: u8 list)"
  by (induction s t rule: list_induct2) auto

lemma strncmp_zero_iff:
  "length s = length t \<Longrightarrow> canonical s \<Longrightarrow> canonical t \<Longrightarrow> strncmp s t = 0 \<longleftrightarrow> s = t"
proof (induction s t rule: list_induct2)
  case (Cons a as b bs)
  show ?case
  proof (cases "a = b \<and> a = 0")
    case True
    then have "a = 0" "b = 0" by auto
    with Cons.prems have "\<forall>c \<in> set as. c = 0" "\<forall>c \<in> set bs. c = 0"
      by (simp_all only: canonical_Cons simp_thms if_True)
    with Cons.hyps have "as = bs" by (rule all_zero_eq)
    then show ?thesis using \<open>a = 0\<close> \<open>b = 0\<close> by simp
  next
    case False
    show ?thesis
    proof (cases "a = b")
      case True
      with False have "b \<noteq> 0" by auto
      with True Cons.prems have "canonical as" "canonical bs"
        by (simp_all only: canonical_Cons if_False)
      with True \<open>b \<noteq> 0\<close> show ?thesis by (simp add: Cons.IH)
    qed simp
  qed
qed simp

lemma string_cmp_zero_iff:
  "canonical s \<Longrightarrow> canonical t \<Longrightarrow> string_cmp s t = 0 \<longleftrightarrow> s = t"
  by (auto simp: string_cmp_def strncmp_zero_iff)

lemma string_cmp_refl [simp]: "string_cmp s s = 0"
proof -
  have "strncmp s s = 0" by (induction s) auto
  then show ?thesis by (simp add: string_cmp_def)
qed

text \<open>The comparison is antisymmetric up to sign, so it orders strings consistently.\<close>

lemma strncmp_swap: "strncmp t s = - strncmp s t"
  by (induction s t rule: strncmp.induct) auto

lemma string_cmp_swap: "string_cmp t s = - string_cmp s t"
  by (auto simp: string_cmp_def strncmp_swap [of t s])

text \<open>
  \<^verbatim>\<open>strcmp\<close> on buffers without a NUL: it finds a difference or runs off the end; it never answers
  \<open>equal\<close>.
\<close>

lemma strcmp_no_NUL: "0 \<notin> set s \<Longrightarrow> strcmp s t \<noteq> Some 0"
  by (induction s t rule: strcmp.induct) auto

lemma strcmp_self_no_NUL: "0 \<notin> set s \<Longrightarrow> strcmp s s = None"
  by (induction s) auto

text \<open>Without a NUL, \<open>strcmp\<close> ends only at a difference.\<close>

lemma strcmp_ends:
  "0 \<notin> set s \<Longrightarrow> strcmp s t \<noteq> None \<longleftrightarrow> (\<exists>i < min (length s) (length t). s ! i \<noteq> t ! i)"
proof (induction s t rule: strcmp.induct)
  case (1 a as b bs)
  have "(\<exists>i < min (length (a # as)) (length (b # bs)). (a # as) ! i \<noteq> (b # bs) ! i) \<longleftrightarrow>
      a \<noteq> b \<or> (\<exists>i < min (length as) (length bs). as ! i \<noteq> bs ! i)"
    by (simp add: Ex_less_Suc2)
  with 1 show ?case by auto
qed auto

lemma c_str_no_NUL: "c_str s = None \<longleftrightarrow> 0 \<notin> set s"
  by (induction s) auto

subsection \<open>Properties\<close>

text \<open>C24: on the strings the constructor builds, \<open>string_cmp\<close> answers 0 exactly for equal strings, and
  exchanging the arguments changes the sign.\<close>

theorem string_cmp_decides:
  "(string_cmp (string_ctor a) (string_ctor b) = 0 \<longleftrightarrow> string_ctor a = string_ctor b) \<and>
   string_cmp (string_ctor b) (string_ctor a) = - string_cmp (string_ctor a) (string_ctor b)"
  by (simp add: string_cmp_zero_iff string_cmp_swap [of "string_ctor b"])

end
