(* ===== verification/Objects.thy ===== *)
theory Objects
  imports Codec Cstring
begin

text \<open>
  \<^verbatim>\<open>dbms/include/json/type.h\<close> and \<^verbatim>\<open>dbms/src/object/\<close>: value types, attributes, document types and the
  structures they have on disk. The attribute list of a type is a singly linked list in C
  (\<^verbatim>\<open>LIST_DECLARE(Attr)\<close>) and a list here; theory \<open>Linked_List\<close> justifies the step.
\<close>

subsection \<open>Value types\<close>

datatype Json_type = TYPE_INT32 | TYPE_FLOAT | TYPE_STRING | TYPE_BOOL | TYPE_OBJECT

text \<open>The enumeration's numbers, as stored in the 64-bit fields of the file.\<close>

fun type_code :: "Json_type \<Rightarrow> u64" where
  "type_code TYPE_INT32 = 0"
| "type_code TYPE_FLOAT = 1"
| "type_code TYPE_STRING = 2"
| "type_code TYPE_BOOL = 3"
| "type_code TYPE_OBJECT = 4"

text \<open>A number outside the enumeration has no counterpart.\<close>

definition type_of_code :: "u64 \<Rightarrow> Json_type option" where
  "type_of_code w =
     (if w = 0 then Some TYPE_INT32 else if w = 1 then Some TYPE_FLOAT
      else if w = 2 then Some TYPE_STRING else if w = 3 then Some TYPE_BOOL
      else if w = 4 then Some TYPE_OBJECT else None)"

lemma type_of_code_code [simp]: "type_of_code (type_code t) = Some t"
  by (cases t) (simp_all add: type_of_code_def)

lemma type_code_inject [simp]: "type_code s = type_code t \<longleftrightarrow> s = t"
  by (metis option.inject type_of_code_code)

text \<open>The comparisons of \<^verbatim>\<open>attr.c\<close> and \<^verbatim>\<open>json.c\<close> order the enumeration by its numbers.\<close>

instantiation Json_type :: linorder
begin

definition less_eq_Json_type :: "Json_type \<Rightarrow> Json_type \<Rightarrow> bool" where
  "less_eq_Json_type s t \<longleftrightarrow> type_code s \<le> type_code t"

definition less_Json_type :: "Json_type \<Rightarrow> Json_type \<Rightarrow> bool" where
  "less_Json_type s t \<longleftrightarrow> type_code s < type_code t"

instance
proof
  fix x y z :: Json_type
  show "x < y \<longleftrightarrow> x \<le> y \<and> \<not> y \<le> x"
    unfolding less_eq_Json_type_def less_Json_type_def by (rule less_le_not_le)
  show "x \<le> x" by (simp add: less_eq_Json_type_def)
  show "x \<le> y \<Longrightarrow> y \<le> z \<Longrightarrow> x \<le> z" by (simp add: less_eq_Json_type_def)
  show "x \<le> y \<Longrightarrow> y \<le> x \<Longrightarrow> x = y"
    unfolding less_eq_Json_type_def using order.antisym [of "type_code x" "type_code y"] by simp
  show "x \<le> y \<or> y \<le> x" by (simp add: less_eq_Json_type_def linear)
qed

end

subsection \<open>Attributes: object/attr.c\<close>

record Attr =
  attr_name :: String
  attr_type :: Json_type

definition attr_ctor :: "String \<Rightarrow> Json_type \<Rightarrow> Attr" where
  "attr_ctor name t = \<lparr>attr_name = name, attr_type = t\<rparr>"

definition attr_cmp :: "Attr \<Rightarrow> Attr \<Rightarrow> int" where
  "attr_cmp a1 a2 =
     (let str_cmp = string_cmp (attr_name a1) (attr_name a2)
      in if str_cmp = 0 then (if attr_type a1 \<noteq> attr_type a2 then 1 else 0) else str_cmp)"

lemma attr_cmp_zero_iff:
  "canonical (attr_name a) \<Longrightarrow> canonical (attr_name b) \<Longrightarrow> attr_cmp a b = 0 \<longleftrightarrow> a = b"
  by (cases a; cases b) (auto simp: attr_cmp_def Let_def string_cmp_zero_iff)

subsection \<open>Types: object/type.c\<close>

record Type =
  type_name :: String
  attr_list :: "Attr list"

definition type_ctor :: "String \<Rightarrow> Attr list \<Rightarrow> Type" where
  "type_ctor name attrs = \<lparr>type_name = name, attr_list = attrs\<rparr>"

definition type_cmp :: "Type \<Rightarrow> Type \<Rightarrow> int" where
  "type_cmp t1 t2 = string_cmp (type_name t1) (type_name t2)"

definition type_add_atr :: "Type \<Rightarrow> Attr \<Rightarrow> Type" where
  "type_add_atr t a = t\<lparr>attr_list := attr_list t @ [a]\<rparr>"

text \<open>
  \<^verbatim>\<open>type_cpy(dest, src)\<close>: the name is copied, the attributes are moved one by one to a fresh list,
  and the source is left without any. The result is the new \<open>dest\<close> and \<open>src\<close>.
\<close>

definition type_cpy :: "Type \<Rightarrow> Type \<times> Type" where
  "type_cpy src =
     (fold (\<lambda>a dest. type_add_atr dest a) (attr_list src)
        \<lparr>type_name = string_ctor (type_name src), attr_list = []\<rparr>,
      src\<lparr>attr_list := []\<rparr>)"

subsection \<open>On-disk entities: object/type_ent.c, object/attr_ent.c\<close>

record Type_entity =
  t_name_size :: size_t
  t_name_ptr :: Sectoff
  attr_cnt :: size_t

record Attr_entity =
  a_name_size :: size_t
  a_name_ptr :: Sectoff
  a_attr_type :: u64

abbreviation sizeof_Type_entity :: size_t where "sizeof_Type_entity \<equiv> 24"
abbreviation sizeof_Attr_entity :: size_t where "sizeof_Attr_entity \<equiv> 24"

definition type_entity_new :: Type_entity where
  "type_entity_new = \<lparr>t_name_size = 0, t_name_ptr = 0, attr_cnt = 0\<rparr>"

definition attr_entity_new :: Attr_entity where
  "attr_entity_new = \<lparr>a_name_size = 0, a_name_ptr = 0, a_attr_type = 0\<rparr>"

definition type_entity_sz :: "size_t \<Rightarrow> size_t" where
  "type_entity_sz name_ln = sizeof_Type_entity + name_ln"

definition attr_entity_sz :: "size_t \<Rightarrow> size_t" where
  "attr_entity_sz name_ln = sizeof_Attr_entity + name_ln"

definition t_ent_fields :: "Type_entity \<Rightarrow> u64 list" where
  "t_ent_fields e = [t_name_size e, t_name_ptr e, attr_cnt e]"

definition t_ent_build :: "(nat \<Rightarrow> u64) \<Rightarrow> Type_entity" where
  "t_ent_build g = \<lparr>t_name_size = g 0, t_name_ptr = g 1, attr_cnt = g 2\<rparr>"

definition a_ent_fields :: "Attr_entity \<Rightarrow> u64 list" where
  "a_ent_fields e = [a_name_size e, a_name_ptr e, a_attr_type e]"

definition a_ent_build :: "(nat \<Rightarrow> u64) \<Rightarrow> Attr_entity" where
  "a_ent_build g = \<lparr>a_name_size = g 0, a_name_ptr = g 1, a_attr_type = g 2\<rparr>"

interpretation t_ent_codec: field_codec t_ent_fields t_ent_build 3
  by unfold_locales (simp_all add: t_ent_fields_def t_ent_build_def upt_rec eval_nat_numeral)

interpretation a_ent_codec: field_codec a_ent_fields a_ent_build 3
  by unfold_locales (simp_all add: a_ent_fields_def a_ent_build_def upt_rec eval_nat_numeral)

definition t_ent_bytes :: "Type_entity \<Rightarrow> u8 list" where
  "t_ent_bytes e = enc_words (t_ent_fields e)"

definition t_ent_of :: "u8 list \<Rightarrow> Type_entity" where
  "t_ent_of bs = t_ent_build (\<lambda>i. word_at i bs)"

definition a_ent_bytes :: "Attr_entity \<Rightarrow> u8 list" where
  "a_ent_bytes e = enc_words (a_ent_fields e)"

definition a_ent_of :: "u8 list \<Rightarrow> Attr_entity" where
  "a_ent_of bs = a_ent_build (\<lambda>i. word_at i bs)"

lemma ent_bytes_length [simp, size_simps]: "length (t_ent_bytes e) = 24" "length (a_ent_bytes d) = 24"
  by (simp_all add: t_ent_bytes_def a_ent_bytes_def t_ent_fields_def a_ent_fields_def)

lemma ent_of_bytes [simp]: "t_ent_of (t_ent_bytes e) = e" "a_ent_of (a_ent_bytes d) = d"
  using t_ent_codec.dec_enc [of e] a_ent_codec.dec_enc [of d]
  by (simp_all add: t_ent_of_def t_ent_bytes_def a_ent_of_def a_ent_bytes_def)

subsection \<open>Sizes on disk\<close>

definition type_itm_sz :: "Type \<Rightarrow> size_t" where
  "type_itm_sz t = sizeof_Type_entity + word_of_nat (length (attr_list t)) * sizeof_Attr_entity"

definition type_rec_sz :: "Type \<Rightarrow> size_t" where
  "type_rec_sz t = fold (\<lambda>a size. size + cnt (attr_name a)) (attr_list t) (cnt (type_name t))"

definition type_ph_sz :: "Type \<Rightarrow> size_t" where
  "type_ph_sz t = type_itm_sz t + type_rec_sz t"

text \<open>The same sizes as numbers; they agree while the sum fits a \<^verbatim>\<open>size_t\<close>.\<close>

definition names_len :: "Type \<Rightarrow> nat" where
  "names_len t = length (type_name t) + sum_list (map (length \<circ> attr_name) (attr_list t))"

definition items_len :: "Type \<Rightarrow> nat" where
  "items_len t = 24 * Suc (length (attr_list t))"

lemma fold_cnt:
  "fold (\<lambda>a size. size + cnt (attr_name a)) as (word_of_nat n) =
   word_of_nat (n + sum_list (map (length \<circ> attr_name) as))"
proof (induction as arbitrary: n)
  case (Cons a as)
  have "word_of_nat n + cnt (attr_name a) = word_of_nat (n + length (attr_name a))"
    by (simp add: cnt_def)
  with Cons.IH [of "n + length (attr_name a)"] show ?case by (simp add: add.assoc)
qed simp

lemma type_rec_sz_eq: "type_rec_sz t = word_of_nat (names_len t)"
  using fold_cnt [of "attr_list t" "length (type_name t)"]
  by (simp add: type_rec_sz_def names_len_def cnt_def)

lemma type_itm_sz_eq: "type_itm_sz t = word_of_nat (items_len t)"
  by (simp add: type_itm_sz_def items_len_def algebra_simps)

lemma type_ph_sz_eq: "type_ph_sz t = word_of_nat (items_len t + names_len t)"
  by (simp add: type_ph_sz_def type_rec_sz_eq type_itm_sz_eq)

lemma fold_type_add_atr:
  "fold (\<lambda>a dest. type_add_atr dest a) as t = t\<lparr>attr_list := attr_list t @ as\<rparr>"
  by (induction as arbitrary: t) (simp_all add: type_add_atr_def)

lemma type_cpy_eq:
  "type_cpy t = (t\<lparr>type_name := string_ctor (type_name t)\<rparr>, t\<lparr>attr_list := []\<rparr>)"
  by (cases t) (simp add: type_cpy_def fold_type_add_atr)

end
