(* ===== verification/Json_Tree.thy ===== *)
theory Json_Tree
  imports Objects
begin

text \<open>
  \<^verbatim>\<open>dbms/src/json/json.c\<close> and \<^verbatim>\<open>dbms/src/json/entity.c\<close>. A document is a tree in first-son/next-brother
  form: \<^verbatim>\<open>son\<close> and \<^verbatim>\<open>bro\<close> are pointers in C, optional subtrees here, and so is \<^verbatim>\<open>next\<close>. The
  parent pointer \<^verbatim>\<open>dad\<close> is left out: no function of the C code ever sets it. Allocation and the
  destructors are left out too.
\<close>

subsection \<open>Values\<close>

text \<open>
  The union \<^verbatim>\<open>value\<close> is eight bytes. Integers, floats and booleans are read from those bytes
  whatever was stored there; the pointer member leads to a \<^verbatim>\<open>String\<close>. Reading a pointer as a number
  or a number as a pointer has no defined result.
\<close>

datatype jvalue = VRaw u64 | VStr String

fun int32_val :: "jvalue \<Rightarrow> int option" where
  "int32_val (VRaw w) = Some (sint (ucast w :: u32))"
| "int32_val (VStr _) = None"

fun float_val :: "jvalue \<Rightarrow> u32 option" where
  "float_val (VRaw w) = Some (ucast w)"
| "float_val (VStr _) = None"

text \<open>A \<^verbatim>\<open>bool\<close> is the low byte; only 0 and 1 are values of the type.\<close>

fun bool_val :: "jvalue \<Rightarrow> bool option" where
  "bool_val (VRaw w) = (let b = (ucast w :: u8) in if b = 0 then Some False else if b = 1 then Some True else None)"
| "bool_val (VStr _) = None"

fun string_val :: "jvalue \<Rightarrow> String option" where
  "string_val (VStr s) = Some s"
| "string_val (VRaw _) = None"

text \<open>Comparisons of \<^verbatim>\<open>float\<close> values, on their IEEE single-precision bits.\<close>

definition f32_mag :: "u32 \<Rightarrow> int" where
  "f32_mag w = uint (take_bit 31 w)"

definition f32_nan :: "u32 \<Rightarrow> bool" where
  "f32_nan w \<longleftrightarrow> f32_mag w > 0x7F800000"

definition f32_key :: "u32 \<Rightarrow> int" where
  "f32_key w = (if bit w 31 then - f32_mag w else f32_mag w)"

definition f32_eq :: "u32 \<Rightarrow> u32 \<Rightarrow> bool" where
  "f32_eq a b \<longleftrightarrow> \<not> f32_nan a \<and> \<not> f32_nan b \<and> f32_key a = f32_key b"

definition f32_lt :: "u32 \<Rightarrow> u32 \<Rightarrow> bool" where
  "f32_lt a b \<longleftrightarrow> \<not> f32_nan a \<and> \<not> f32_nan b \<and> f32_key a < f32_key b"

definition f32_le :: "u32 \<Rightarrow> u32 \<Rightarrow> bool" where
  "f32_le a b \<longleftrightarrow> f32_lt a b \<or> f32_eq a b"

subsection \<open>Documents\<close>

datatype Json = Json (jkey: String) (jval: jvalue) (jtype: Json_type)
  (jbro: "Json option") (json_son: "Json option") (jnext: "Json option") (jfoff: Fileoff)

text \<open>\<^verbatim>\<open>json_new\<close> followed by \<^verbatim>\<open>json_ctor\<close>: the rest of the struct is zero.\<close>

definition json_ctor :: "Json_type \<Rightarrow> u8 list \<Rightarrow> Json" where
  "json_ctor t key = Json (string_ctor key) (VRaw 0) t None None None 0"

fun json_set_val :: "jvalue \<Rightarrow> Json \<Rightarrow> Json" where
  "json_set_val v (Json k _ t b s n a) = Json k v t b s n a"

fun json_set_foff :: "Fileoff \<Rightarrow> Json \<Rightarrow> Json" where
  "json_set_foff a (Json k v t b s n _) = Json k v t b s n a"

text \<open>The bytes \<^verbatim>\<open>json_val_ptr\<close> points to, and \<^verbatim>\<open>json_val_size\<close>.\<close>

fun json_val_ptr :: "Json \<Rightarrow> u8 list option" where
  "json_val_ptr (Json _ v t _ _ _ _) =
     (case t of
        TYPE_OBJECT \<Rightarrow> Some []
      | TYPE_STRING \<Rightarrow> string_val v
      | _ \<Rightarrow> (case v of VRaw w \<Rightarrow> Some (enc64 w) | VStr _ \<Rightarrow> None))"

fun json_val_size :: "Json \<Rightarrow> size_t option" where
  "json_val_size (Json _ v t _ _ _ _) =
     (case t of
        TYPE_OBJECT \<Rightarrow> Some 0
      | TYPE_STRING \<Rightarrow> map_option string_get_size (string_val v)
      | _ \<Rightarrow> Some 8)"

lemma json_val_size_ptr: "json_val_ptr j = Some bs \<Longrightarrow> json_val_size j = Some (cnt bs)"
  by (cases j) (auto simp: cnt_def string_get_size_def split: Json_type.splits jvalue.splits)

fun json_add_bro :: "Json \<Rightarrow> Json option \<Rightarrow> Json" where
  "json_add_bro (Json k v t None s n a) bro = Json k v t bro s n a"
| "json_add_bro (Json k v t (Some b) s n a) bro = Json k v t (Some (json_add_bro b bro)) s n a"

fun json_add_son :: "Json \<Rightarrow> Json option \<Rightarrow> Json" where
  "json_add_son (Json k v t b None n a) son = Json k v t b son n a"
| "json_add_son (Json k v t b (Some s) n a) son = Json k v t b (Some (json_add_bro s son)) n a"

fun json_set_nxt :: "Json option \<Rightarrow> Json \<Rightarrow> Json" where
  "json_set_nxt n (Json k v t b s _ a) = Json k v t b s n a"

definition json_add_nxt :: "Json \<Rightarrow> Json \<Rightarrow> Json" where
  "json_add_nxt j next = json_set_nxt (Some (json_set_nxt (jnext j) next)) j"

text \<open>\<^verbatim>\<open>json_cmp\<close> compares type, key and value of the two roots; \<open>None\<close> where a value has no such member.\<close>

definition json_cmp :: "Json \<Rightarrow> Json \<Rightarrow> int option" where
  "json_cmp j1 j2 =
     (if type_code (jtype j1) > type_code (jtype j2) then Some 1
      else if type_code (jtype j1) < type_code (jtype j2) then Some (-1)
      else
        let key_cmp = string_cmp (jkey j1) (jkey j2)
        in if key_cmp \<noteq> 0 then Some key_cmp
           else case jtype j1 of
             TYPE_STRING \<Rightarrow> (case (string_val (jval j1), string_val (jval j2)) of
                 (Some s1, Some s2) \<Rightarrow> Some (string_cmp s1 s2) | _ \<Rightarrow> None)
           | TYPE_INT32 \<Rightarrow> (case (int32_val (jval j1), int32_val (jval j2)) of
                 (Some a, Some b) \<Rightarrow> Some (if a = b then 0 else 1) | _ \<Rightarrow> None)
           | TYPE_FLOAT \<Rightarrow> (case (float_val (jval j1), float_val (jval j2)) of
                 (Some a, Some b) \<Rightarrow> Some (if f32_eq a b then 0 else 1) | _ \<Rightarrow> None)
           | TYPE_BOOL \<Rightarrow> (case (bool_val (jval j1), bool_val (jval j2)) of
                 (Some a, Some b) \<Rightarrow> Some (if a = b then 0 else 1) | _ \<Rightarrow> None)
           | TYPE_OBJECT \<Rightarrow> Some 0)"

lemma json_cmp_type:
  "jtype j1 < jtype j2 \<Longrightarrow> json_cmp j1 j2 = Some (-1)" "jtype j2 < jtype j1 \<Longrightarrow> json_cmp j1 j2 = Some 1"
  by (auto simp: json_cmp_def less_Json_type_def)

fun memcmp :: "u8 list \<Rightarrow> u8 list \<Rightarrow> int" where
  "memcmp (a # as) (b # bs) = (if a \<noteq> b then uint a - uint b else memcmp as bs)"
| "memcmp _ _ = 0"

definition json_cmp_wth_foff :: "Json \<Rightarrow> Json \<Rightarrow> int" where
  "json_cmp_wth_foff j1 j2 = memcmp (enc64 (jfoff j1)) (enc64 (jfoff j2))"

text \<open>
  \<^verbatim>\<open>json_is_apply_type\<close>: the loop walks the attributes of the type and, from the first son on, the
  \<^verbatim>\<open>next\<close> pointers (not \<^verbatim>\<open>bro\<close>) of the document. It is declared \<^verbatim>\<open>bool\<close> and returns a status.
\<close>

fun apply_type_loop :: "Json option \<Rightarrow> Attr list \<Rightarrow> Status" where
  "apply_type_loop None as = (if as \<noteq> [] then FAILED else OK)"
| "apply_type_loop (Some _) [] = OK"
| "apply_type_loop (Some (Json k v t b s n a)) (at # as) =
     (if string_cmp (attr_name at) k = 0
      then (if attr_type at \<noteq> t then FAILED else apply_type_loop n as)
      else apply_type_loop n (at # as))"

definition json_is_apply_type :: "Json \<Rightarrow> Type \<Rightarrow> Status" where
  "json_is_apply_type j t =
     (if jtype j = TYPE_OBJECT then apply_type_loop (json_son j) (attr_list t) else OK)"

fun bro_by_key :: "Json option \<Rightarrow> String \<Rightarrow> Json option" where
  "bro_by_key None key = None"
| "bro_by_key (Some (Json k v t b s n a)) key =
     (if string_cmp k key = 0 then Some (Json k v t b s n a) else bro_by_key b key)"

definition json_son_by_key :: "Json \<Rightarrow> String \<Rightarrow> Json option" where
  "json_son_by_key j key = bro_by_key (json_son j) key"

subsection \<open>On-disk entities: json/entity.c\<close>

record Tplgy =
  dad_ptr :: Fileoff
  bro_ptr :: Fileoff
  son_ptr :: Fileoff

record Entity =
  key_ptr :: Sectoff
  key_size :: size_t
  val_ptr :: Sectoff
  val_size :: size_t
  ent_type :: u64
  init_rec_sz :: size_t
  fam_addr :: Tplgy
  type_ptr :: Fileoff

abbreviation sizeof_Entity :: size_t where "sizeof_Entity \<equiv> 80"
abbreviation offsetof_fam_addr :: size_t where "offsetof_fam_addr \<equiv> 48"
abbreviation offsetof_bro_ptr :: size_t where "offsetof_bro_ptr \<equiv> 8"
abbreviation offsetof_son_ptr :: size_t where "offsetof_son_ptr \<equiv> 16"

definition entity_new :: Entity where
  "entity_new = \<lparr>key_ptr = 0, key_size = 0, val_ptr = 0, val_size = 0, ent_type = 0, init_rec_sz = 0,
     fam_addr = \<lparr>dad_ptr = 0, bro_ptr = 0, son_ptr = 0\<rparr>, type_ptr = 0\<rparr>"

definition entity_ctor :: "Entity \<Rightarrow> size_t \<Rightarrow> size_t \<Rightarrow> u64 \<Rightarrow> Tplgy \<Rightarrow> Entity" where
  "entity_ctor e key_sz val_sz t tplgy =
     e\<lparr>key_size := key_sz, val_size := val_sz, fam_addr := tplgy, ent_type := t,
       init_rec_sz := key_sz + val_sz\<rparr>"

text \<open>The macro \<^verbatim>\<open>ENTITY_INIT\<close> of \<^verbatim>\<open>json/entity.h\<close>.\<close>

definition ENTITY_INIT :: "Json \<Rightarrow> Fileoff \<Rightarrow> Fileoff \<Rightarrow> Fileoff \<Rightarrow> Fileoff \<Rightarrow> Entity option" where
  "ENTITY_INIT j dad bro son tptr =
     map_option (\<lambda>val_sz. entity_ctor (entity_new\<lparr>type_ptr := tptr\<rparr>) (cnt (jkey j)) val_sz
       (type_code (jtype j)) \<lparr>dad_ptr = dad, bro_ptr = bro, son_ptr = son\<rparr>) (json_val_size j)"

definition entity_itm_size :: "Entity \<Rightarrow> size_t" where
  "entity_itm_size e = sizeof_Entity"

definition entity_rec_sz :: "Entity \<Rightarrow> size_t" where
  "entity_rec_sz e = key_size e + val_size e"

definition entity_init_rec_sz :: "Entity \<Rightarrow> size_t" where
  "entity_init_rec_sz e = init_rec_sz e"

definition entity_ph_size :: "Entity \<Rightarrow> size_t" where
  "entity_ph_size e = entity_itm_size e + entity_rec_sz e"

definition entity_clear :: "Entity \<Rightarrow> Entity" where
  "entity_clear e = entity_new"

definition entity_cpy :: "Entity \<Rightarrow> Entity \<Rightarrow> Entity" where
  "entity_cpy dest src = src"

definition entity_fields :: "Entity \<Rightarrow> u64 list" where
  "entity_fields e =
     [key_ptr e, key_size e, val_ptr e, val_size e, ent_type e, init_rec_sz e,
      dad_ptr (fam_addr e), bro_ptr (fam_addr e), son_ptr (fam_addr e), type_ptr e]"

definition entity_build :: "(nat \<Rightarrow> u64) \<Rightarrow> Entity" where
  "entity_build g =
     \<lparr>key_ptr = g 0, key_size = g 1, val_ptr = g 2, val_size = g 3, ent_type = g 4, init_rec_sz = g 5,
      fam_addr = \<lparr>dad_ptr = g 6, bro_ptr = g 7, son_ptr = g 8\<rparr>, type_ptr = g 9\<rparr>"

interpretation entity_codec: field_codec entity_fields entity_build 10
  by unfold_locales (simp_all add: entity_fields_def entity_build_def upt_rec eval_nat_numeral)

definition entity_bytes :: "Entity \<Rightarrow> u8 list" where
  "entity_bytes e = enc_words (entity_fields e)"

definition entity_of :: "u8 list \<Rightarrow> Entity" where
  "entity_of bs = entity_build (\<lambda>i. word_at i bs)"

definition entity_cmp :: "Entity \<Rightarrow> Entity \<Rightarrow> int" where
  "entity_cmp e1 e2 = memcmp (entity_bytes e1) (entity_bytes e2)"

lemma length_entity_bytes [simp, size_simps]: "length (entity_bytes e) = 80"
  by (simp add: entity_bytes_def entity_fields_def)

lemma entity_of_bytes [simp]: "entity_of (entity_bytes e) = e"
  using entity_codec.dec_enc [of e] by (simp add: entity_of_def entity_bytes_def)

lemma entity_bytes_of: "length bs = 80 \<Longrightarrow> entity_bytes (entity_of bs) = bs"
  using entity_codec.enc_dec [of bs] by (simp add: entity_of_def entity_bytes_def)

lemma entity_bytes_inject [simp]: "entity_bytes e = entity_bytes d \<longleftrightarrow> e = d"
  by (metis entity_of_bytes)

lemma entity_bytes_not_Nil [simp]: "entity_bytes e \<noteq> []"
  using length_entity_bytes [of e] by (metis list.size(3) zero_neq_numeral)

lemma memcmp_zero_iff: "length s = length t \<Longrightarrow> memcmp s t = 0 \<longleftrightarrow> s = t"
  by (induction s t rule: list_induct2) auto

lemma entity_cmp_zero_iff: "entity_cmp e1 e2 = 0 \<longleftrightarrow> e1 = e2"
  by (simp add: entity_cmp_def memcmp_zero_iff)

lemma json_cmp_wth_foff_zero_iff: "json_cmp_wth_foff j1 j2 = 0 \<longleftrightarrow> jfoff j1 = jfoff j2"
  by (simp add: json_cmp_wth_foff_def memcmp_zero_iff u64_codec.enc_inject)

subsection \<open>Properties\<close>

text \<open>The sons of a document, from the first one along the \<^verbatim>\<open>bro\<close> pointers, without their relatives.\<close>

fun bro_chain :: "Json option \<Rightarrow> (String \<times> jvalue \<times> Json_type \<times> Json option) list" where
  "bro_chain None = []"
| "bro_chain (Some (Json k v t b s n a)) = (k, v, t, s) # bro_chain b"

definition json_head :: "Json \<Rightarrow> String \<times> jvalue \<times> Json_type \<times> Json option" where
  "json_head j = (jkey j, jval j, jtype j, json_son j)"

lemma bro_chain_add_bro: "bro_chain (Some (json_add_bro j b)) = bro_chain (Some j) @ bro_chain b"
  by (induction j b rule: json_add_bro.induct) simp_all

lemma bro_by_key_find:
  "map_option json_head (bro_by_key j key) = find (\<lambda>x. string_cmp (fst x) key = 0) (bro_chain j)"
  by (induction j key rule: bro_by_key.induct) (simp_all add: json_head_def)

text \<open>\<open>json_add_son\<close> appends to the sons of a document, and \<open>json_son_by_key\<close> finds the first son of
  the given key: a son that was there keeps being found, a new one is found when no other has its key.\<close>

theorem add_son_lookup:
  "bro_chain (json_son (json_add_son j s)) = bro_chain (json_son j) @ bro_chain s \<and>
   map_option json_head (json_son_by_key (json_add_son j s) key) =
     (case json_son_by_key j key of
        Some x \<Rightarrow> Some (json_head x)
      | None \<Rightarrow> map_option json_head (bro_by_key s key))"
proof -
  have chain: "bro_chain (json_son (json_add_son j s)) = bro_chain (json_son j) @ bro_chain s"
    by (cases j; cases "json_son j") (auto simp: bro_chain_add_bro)
  have app: "find P (xs @ ys) = (case find P xs of Some x \<Rightarrow> Some x | None \<Rightarrow> find P ys)"
    for P :: "String \<times> jvalue \<times> Json_type \<times> Json option \<Rightarrow> bool" and xs ys
    by (induction xs) simp_all
  have "map_option json_head (json_son_by_key (json_add_son j s) key) =
      (case map_option json_head (json_son_by_key j key) of
         Some x \<Rightarrow> Some x | None \<Rightarrow> map_option json_head (bro_by_key s key))"
    unfolding json_son_by_key_def bro_by_key_find chain app ..
  with chain show ?thesis by (cases "json_son_by_key j key") simp_all
qed

text \<open>C26: \<open>json_is_apply_type\<close> walks the \<^verbatim>\<open>next\<close> pointers, which \<open>json_add_son\<close> and \<open>json_add_bro\<close> never
  set. So it looks at the first son only: an object whose sons are linked as brothers is accepted only
  by a type without attributes or with a single one, that of the first son.\<close>

theorem apply_type_first_son_only:
  assumes "jtype j = TYPE_OBJECT" "json_son j = Some s" "jnext s = None"
  shows "json_is_apply_type j t = OK \<longleftrightarrow>
    attr_list t = [] \<or>
    (\<exists>a. attr_list t = [a] \<and> string_cmp (attr_name a) (jkey s) = 0 \<and> attr_type a = jtype s)"
proof (cases "attr_list t")
  case Nil
  with assms show ?thesis by (simp add: json_is_apply_type_def)
next
  case (Cons a "as")
  with assms show ?thesis by (cases s) (auto simp: json_is_apply_type_def)
qed

theorem apply_type_first_son_only_witness:
  "json_is_apply_type
     (json_add_son (json_add_son (json_ctor TYPE_OBJECT [])
        (Some (json_ctor TYPE_INT32 [97]))) (Some (json_ctor TYPE_BOOL [98])))
     (type_ctor [116] [attr_ctor [97] TYPE_INT32, attr_ctor [98] TYPE_BOOL]) = FAILED"
proof -
  let ?j = "json_add_son (json_add_son (json_ctor TYPE_OBJECT [])
        (Some (json_ctor TYPE_INT32 [97]))) (Some (json_ctor TYPE_BOOL [98]))"
  let ?s = "json_add_bro (json_ctor TYPE_INT32 [97]) (Some (json_ctor TYPE_BOOL [98]))"
  have "jtype ?j = TYPE_OBJECT" "json_son ?j = Some ?s" "jnext ?s = None"
    by (simp_all add: json_ctor_def)
  from apply_type_first_son_only [OF this]
  have "json_is_apply_type ?j (type_ctor [116] [attr_ctor [97] TYPE_INT32, attr_ctor [98] TYPE_BOOL]) \<noteq> OK"
    unfolding type_ctor_def Type.simps by simp
  then show ?thesis
    by (cases "json_is_apply_type ?j (type_ctor [116] [attr_ctor [97] TYPE_INT32, attr_ctor [98] TYPE_BOOL])")
      simp_all
qed

end
