(* ===== verification/Sect_Extents.thy ===== *)
theory Sect_Extents
  imports Sect_Step Json_Tree
begin

text \<open>
  \<^verbatim>\<open>dbms/src/section/extents.c\<close>: sections of documents. An item is an \<open>Entity\<close>; its record is the
  value followed by the key. The \<^verbatim>\<open>val\<close> and \<^verbatim>\<open>val_sz\<close> arguments of the C functions are one byte list.
\<close>

subsection \<open>Operations\<close>

definition get_head :: "(sect, Sect_head) prog" where
  "get_head = (\<lambda>(h, f). ret h (h, f))"

definition put_head :: "Sect_head \<Rightarrow> (sect, unit) prog" where
  "put_head h' = (\<lambda>(h, f). ret () (h', f))"

definition sect_ext_ctor :: "Fileoff \<Rightarrow> (sect, unit) prog" where
  "sect_ext_ctor offset = sect_head_ctor offset"

definition sect_ext_dtor :: "(sect, unit) prog" where
  "sect_ext_dtor = sect_head_dtor"

definition sect_ext_wrt_itm :: "Sectoff \<Rightarrow> Entity \<Rightarrow> (sect, unit) prog" where
  "sect_ext_wrt_itm soff ent = sect_head_write soff (entity_bytes ent)"

definition sect_ext_rd_itm :: "Sectoff \<Rightarrow> (sect, Entity) prog" where
  "sect_ext_rd_itm soff = DO_OR_FAIL (sect_head_read soff sizeof_Entity) (\<lambda>bs. ret (entity_of bs))"

text \<open>
  \<^verbatim>\<open>sect_ext_write\<close> returns the entity with its two pointers filled in and the address of the item.
\<close>

definition sect_ext_write :: "String \<Rightarrow> u8 list \<Rightarrow> Entity \<Rightarrow> (sect, Entity \<times> Sectoff) prog" where
  "sect_ext_write key val ent =
     DO_OR_FAIL get_head (\<lambda>h.
     if free_space h < sizeof_Entity + cnt key + cnt val then fail
     else
       DO_OR_FAIL (sect_head_shift_frp (- 1 * cnt key)) (\<lambda>_.
       DO_OR_FAIL get_head (\<lambda>h1.
       DO_OR_FAIL (sect_head_write (fst_rec_ptr h1) key) (\<lambda>_.
       DO_OR_FAIL (sect_head_shift_frp (- 1 * cnt val)) (\<lambda>_.
       DO_OR_FAIL get_head (\<lambda>h2.
       DO_OR_FAIL (sect_head_write (fst_rec_ptr h2) val) (\<lambda>_.
       let ent' = ent\<lparr>key_ptr := fst_rec_ptr h1, val_ptr := fst_rec_ptr h2\<rparr> in
       DO_OR_FAIL (sect_ext_wrt_itm (lst_itm_ptr h2) ent') (\<lambda>_.
       DO_OR_FAIL (sect_head_shift_lip sizeof_Entity) (\<lambda>_.
       DO_OR_FAIL sect_head_sync (\<lambda>_.
       ret (ent', lst_itm_ptr h)))))))))))"

text \<open>
  \<^verbatim>\<open>sect_ext_read\<close>. A non-string value is read into the zeroed eight bytes of the union; more than
  eight would overrun it.
\<close>

definition read_union :: "u8 list \<Rightarrow> jvalue option" where
  "read_union bs =
     (if length bs \<le> 8 then Some (VRaw (dec64 (bs @ replicate (8 - length bs) 0))) else None)"

definition sect_ext_read :: "Sectoff \<Rightarrow> (sect, Entity \<times> Json) prog" where
  "sect_ext_read soff =
     DO_OR_FAIL (sect_ext_rd_itm soff) (\<lambda>e.
     DO_OR_FAIL (sect_head_read (key_ptr e) (key_size e)) (\<lambda>key.
     DO_OR_FAIL (defined (type_of_code (ent_type e))) (\<lambda>t.
     let j = json_ctor t key in
     DO_OR_FAIL
       (if t = TYPE_STRING then
          DO_OR_FAIL (sect_head_read (val_ptr e) (val_size e)) (\<lambda>v.
          ret (json_set_val (VStr (string_ctor v)) j))
        else if t \<noteq> TYPE_OBJECT then
          DO_OR_FAIL (sect_head_read (val_ptr e) (val_size e)) (\<lambda>v.
          DO_OR_FAIL (defined (read_union v)) (\<lambda>w.
          ret (json_set_val w j)))
        else ret j) (\<lambda>j'.
     DO_OR_FAIL sect_head_sync (\<lambda>_.
     ret (e, j'))))))"

text \<open>\<^verbatim>\<open>sect_ext_delete\<close> returns the deleted entity, which C hands out when asked for.\<close>

definition sect_ext_delete :: "Sectoff \<Rightarrow> (sect, Entity) prog" where
  "sect_ext_delete soff =
     DO_OR_FAIL (sect_ext_rd_itm soff) (\<lambda>del.
     DO_OR_FAIL get_head (\<lambda>h.
     DO_OR_FAIL
       (if soff + entity_itm_size del = lst_itm_ptr h then
          DO_OR_FAIL (sect_head_shift_lip (- 1 * entity_itm_size del)) (\<lambda>_.
          sect_head_shift_frp (entity_rec_sz del))
        else ret ()) (\<lambda>_.
     DO_OR_FAIL (sect_head_write (key_ptr del - val_size del)
                   (replicate (unat (entity_rec_sz del)) 0)) (\<lambda>_.
     DO_OR_FAIL (sect_ext_wrt_itm soff (entity_clear del)) (\<lambda>_.
     DO_OR_FAIL (sect_head_cmprs_lip sizeof_Entity) (\<lambda>_.
     DO_OR_FAIL sect_head_cmprs_frp (\<lambda>_.
     DO_OR_FAIL sect_head_sync (\<lambda>_.
     ret del))))))))"

text \<open>
  \<^verbatim>\<open>sect_ext_update\<close>. The caller's entity keeps the promoted \<^verbatim>\<open>init_rec_sz\<close> when the update fails, so
  the result is the status together with that entity.
\<close>

definition promote :: "Entity \<Rightarrow> Entity \<Rightarrow> Entity" where
  "promote old new = (if init_rec_sz new < init_rec_sz old then new\<lparr>init_rec_sz := init_rec_sz old\<rparr> else new)"

definition update_boundary ::
    "Sect_head \<Rightarrow> Sectoff \<Rightarrow> String \<Rightarrow> u8 list \<Rightarrow> Entity \<Rightarrow> Entity \<Rightarrow> (sect, Entity) prog" where
  "update_boundary h soff key val old new =
     (let frp = fst_rec_ptr h + init_rec_sz old in
      DO_OR_FAIL (put_head (h\<lparr>lst_itm_ptr := soff, fst_rec_ptr := frp, free_space := frp - soff\<rparr>)) (\<lambda>_.
      DO_OR_FAIL (sect_ext_write key val new) (\<lambda>(ent, _).
      DO_OR_FAIL get_head (\<lambda>h'.
      DO_OR_FAIL (put_head (h'\<lparr>lst_itm_ptr := lst_itm_ptr h,
                               free_space := fst_rec_ptr h' - lst_itm_ptr h\<rparr>)) (\<lambda>_.
      DO_OR_FAIL sect_head_sync (\<lambda>_. ret ent))))))"

definition update_move ::
    "Sectoff \<Rightarrow> String \<Rightarrow> u8 list \<Rightarrow> Entity \<Rightarrow> (sect, Entity) prog" where
  "update_move soff key val new =
     DO_OR_FAIL (attempt (sect_ext_delete soff)) (\<lambda>_.
     DO_OR_FAIL get_head (\<lambda>h1.
     DO_OR_FAIL (put_head (h1\<lparr>lst_itm_ptr := soff\<rparr>)) (\<lambda>_.
     DO_OR_FAIL (sect_ext_write key val new) (\<lambda>(ent, _).
     DO_OR_FAIL get_head (\<lambda>h2.
     DO_OR_FAIL (put_head (h2\<lparr>lst_itm_ptr := lst_itm_ptr h1,
                              free_space := fst_rec_ptr h2 - lst_itm_ptr h1\<rparr>)) (\<lambda>_.
     DO_OR_FAIL sect_head_sync (\<lambda>_. ret ent)))))))"

definition update_gap ::
    "Sect_head \<Rightarrow> Sectoff \<Rightarrow> String \<Rightarrow> u8 list \<Rightarrow> Entity \<Rightarrow> Entity \<Rightarrow> (sect, Entity) prog" where
  "update_gap h soff key val old new =
     (let frp = key_ptr old + key_size old in
      DO_OR_FAIL (put_head (h\<lparr>lst_itm_ptr := soff, fst_rec_ptr := frp, free_space := frp - soff\<rparr>)) (\<lambda>_.
      DO_OR_FAIL (sect_ext_write key val new) (\<lambda>(ent, _).
      DO_OR_FAIL get_head (\<lambda>h'.
      DO_OR_FAIL (put_head (h'\<lparr>lst_itm_ptr := lst_itm_ptr h, fst_rec_ptr := fst_rec_ptr h,
                               free_space := fst_rec_ptr h - lst_itm_ptr h\<rparr>)) (\<lambda>_.
      ret ent)))))"

definition update_place ::
    "Sectoff \<Rightarrow> String \<Rightarrow> u8 list \<Rightarrow> Entity \<Rightarrow> Entity \<Rightarrow> (sect, Entity) prog" where
  "update_place soff key val old new =
     DO_OR_FAIL get_head (\<lambda>h.
     if key_ptr old - val_size old = fst_rec_ptr h then
       (if free_space h + init_rec_sz old \<ge> init_rec_sz new
        then update_boundary h soff key val old new else fail)
     else if init_rec_sz new > init_rec_sz old then
       (if free_space h \<ge> entity_rec_sz new then update_move soff key val new else fail)
     else update_gap h soff key val old new)"

definition sect_ext_update ::
    "Sectoff \<Rightarrow> String \<Rightarrow> u8 list \<Rightarrow> Entity \<Rightarrow> (sect, Status \<times> Entity) prog" where
  "sect_ext_update soff key val new =
     DO_OR_FAIL (attempt (sect_ext_rd_itm soff)) (\<lambda>r. case r of
       None \<Rightarrow> ret (FAILED, new)
     | Some old \<Rightarrow>
        DO_OR_FAIL (attempt (update_place soff key val old (promote old new))) (\<lambda>r. ret (case r of
          None \<Rightarrow> (FAILED, promote old new)
        | Some ent \<Rightarrow> (OK, ent))))"

text \<open>\<^verbatim>\<open>sect_ext_load\<close>: the file offsets of the items that can be read.\<close>

partial_function (option) ext_load_loop ::
    "Sectoff \<Rightarrow> Fileoff list \<Rightarrow> sect \<Rightarrow> (Fileoff list option \<times> sect) option" where
  "ext_load_loop i col s =
     (if i < lst_itm_ptr (fst s) then
        DO_OR_FAIL (attempt (sect_ext_read i)) (\<lambda>r.
          ext_load_loop (i + sizeof_Entity)
            (case r of None \<Rightarrow> col | Some _ \<Rightarrow> col @ [sect_head_get_fileoff (fst s) i])) s
      else ret col s)"

definition sect_ext_load :: "(sect, Fileoff list) prog" where
  "sect_ext_load = ext_load_loop sizeof_Sect_head_entity []"

subsection \<open>Writing an entity\<close>

lemma get_head_apply [simp]: "get_head (h, f) = Some (Some h, (h, f))"
  by (simp add: get_head_def)

lemma put_head_apply [simp]: "put_head h' (h, f) = Some (Some (), (h', f))"
  by (simp add: put_head_def)

text \<open>Where an entity of given key and value goes in a section with this header.\<close>

definition placed :: "Sect_head \<Rightarrow> String \<Rightarrow> u8 list \<Rightarrow> Entity \<Rightarrow> Entity" where
  "placed h key val ent = ent\<lparr>key_ptr := fst_rec_ptr h - cnt key,
     val_ptr := fst_rec_ptr h - cnt key - cnt val\<rparr>"

definition head_after :: "Sect_head \<Rightarrow> String \<Rightarrow> u8 list \<Rightarrow> Sect_head" where
  "head_after h key val = h\<lparr>fst_rec_ptr := fst_rec_ptr h - cnt key - cnt val,
     lst_itm_ptr := lst_itm_ptr h + sizeof_Entity,
     free_space := free_space h - cnt key - cnt val - sizeof_Entity\<rparr>"

definition fits :: "Sect_head \<Rightarrow> String \<Rightarrow> u8 list \<Rightarrow> bool" where
  "fits h key val \<longleftrightarrow>
     80 + length key + length val \<le> unat (fst_rec_ptr h) - unat (lst_itm_ptr h)"

text \<open>The stream after each step of a write; \<open>off\<close>, \<open>frp\<close>, \<open>lip\<close> are the header's pointers as numbers.\<close>

definition head_mid :: "Sect_head \<Rightarrow> String \<Rightarrow> Sect_head" where
  "head_mid h key = h\<lparr>fst_rec_ptr := fst_rec_ptr h - cnt key, free_space := free_space h - cnt key\<rparr>"

definition head_rec :: "Sect_head \<Rightarrow> String \<Rightarrow> u8 list \<Rightarrow> Sect_head" where
  "head_rec h key val = h\<lparr>fst_rec_ptr := fst_rec_ptr h - cnt key - cnt val,
     free_space := free_space h - cnt key - cnt val\<rparr>"

definition file_after :: "Sect_head \<Rightarrow> FILE \<Rightarrow> String \<Rightarrow> u8 list \<Rightarrow> Entity \<Rightarrow> FILE" where
  "file_after h f key val ent =
     (let off = unat (file_offset h); frp = unat (fst_rec_ptr h); lip = unat (lst_itm_ptr h);
          f2 = fput (synced (head_mid h key) f) (off + (frp - length key)) key;
          f4 = fput (synced (head_rec h key val) f2) (off + (frp - length key - length val)) val;
          f5 = fput f4 (off + lip) (entity_bytes (placed h key val ent))
      in synced (head_after h key val) f5)"

lemma unat_cnt: "length s < 18446744073709551616 \<Longrightarrow> unat (cnt s) = length s"
  by (simp add: cnt_def unat_of_nat_small)

lemma fits_cnt:
  assumes "sect_wf (h, f)" "fits h key val"
  shows "unat (cnt key) = length key" "unat (cnt val) = length val"
    "unat (fst_rec_ptr h - cnt key) = unat (fst_rec_ptr h) - length key"
    "unat (fst_rec_ptr h - cnt key - cnt val) = unat (fst_rec_ptr h) - length key - length val"
    "unat (lst_itm_ptr h + 80) = unat (lst_itm_ptr h) + 80"
proof -
  have b: "length key + length val + 80 \<le> unat (fst_rec_ptr h) - unat (lst_itm_ptr h)" "unat (fst_rec_ptr h) \<le> 8192"
    using assms by (auto simp: sect_wf_def fits_def)
  show k: "unat (cnt key) = length key" and v: "unat (cnt val) = length val"
    using b by (auto intro!: unat_cnt)
  show fk: "unat (fst_rec_ptr h - cnt key) = unat (fst_rec_ptr h) - length key"
    using b by (simp add: unat_sub_small k)
  show "unat (fst_rec_ptr h - cnt key - cnt val) = unat (fst_rec_ptr h) - length key - length val"
    using b by (subst unat_sub_small) (simp_all add: fk v)
  show "unat (lst_itm_ptr h + 80) = unat (lst_itm_ptr h) + 80"
    using b by (subst unat_add_small) auto
qed

lemma free_space_less_iff:
  assumes "sect_wf (h, f)" "length key + length val + 80 < 18446744073709551616"
  shows "free_space h < sizeof_Entity + cnt key + cnt val \<longleftrightarrow> \<not> fits h key val"
proof -
  have "unat (80 + cnt key + cnt val) = 80 + length key + length val"
    using assms(2) by (simp add: unat_add_small unat_cnt)
  then show ?thesis
    using unat_free_space [OF assms(1)] by (auto simp: word_less_nat_alt fits_def)
qed

text \<open>A section without room refuses the entity and stays as it was.\<close>

lemma sect_ext_write_full:
  assumes "sect_wf (h, f)" "\<not> fits h key val" "length key + length val + 80 < 18446744073709551616"
  shows "sect_ext_write key val ent (h, f) = Some (None, (h, f))"
  using assms free_space_less_iff [of h f key val] by (simp add: sect_ext_write_def)

lemma shift_steps:
  "file_ok f \<Longrightarrow> unat (file_offset h) + 32 \<le> fcap f \<Longrightarrow>
   sect_head_shift_frp (- cnt key) (h, f) = Some (Some (), (head_mid h key, synced (head_mid h key) f))"
  "file_ok f \<Longrightarrow> unat (file_offset h) + 32 \<le> fcap f \<Longrightarrow>
   sect_head_shift_frp (- cnt val) (head_mid h key, f) =
     Some (Some (), (head_rec h key val, synced (head_rec h key val) f))"
  "file_ok f \<Longrightarrow> unat (file_offset h) + 32 \<le> fcap f \<Longrightarrow>
   sect_head_shift_lip sizeof_Entity (head_rec h key val, f) =
     Some (Some (), (head_after h key val, synced (head_after h key val) f))"
  by (cases h, simp add: sect_head_shift_frp_def sect_head_shift_lip_def head_mid_def head_rec_def
      head_after_def sync_ok)+

lemma sect_ext_write_eq:
  assumes wf: "sect_wf (h, f)" and fits: "fits h key val"
  shows "sect_ext_write key val ent (h, f) =
    Some (Some (placed h key val ent, lst_itm_ptr h), (head_after h key val, file_after h f key val ent))"
proof -
  let ?off = "unat (file_offset h)" and ?frp = "unat (fst_rec_ptr h)" and ?lip = "unat (lst_itm_ptr h)"
  note c = fits_cnt [OF wf fits]
  have b: "length key + length val + 80 \<le> ?frp - ?lip" "?frp \<le> 8192" "?off + 8192 \<le> fcap f" "file_ok f"
    "32 \<le> ?lip"
    using wf fits by (auto simp: sect_wf_def fits_def)
  have room: "\<not> free_space h < sizeof_Entity + cnt key + cnt val"
    using free_space_less_iff [OF wf] fits b by auto
  define h1 h2 h3 where h_defs: "h1 = head_mid h key" "h2 = head_rec h key val" "h3 = head_after h key val"
  define f1 f2 f3 f4 f5 f6 where f_defs: "f1 = synced h1 f"
    "f2 = fput f1 (?off + (?frp - length key)) key" "f3 = synced h2 f2"
    "f4 = fput f3 (?off + (?frp - length key - length val)) val"
    "f5 = fput f4 (?off + ?lip) (entity_bytes (placed h key val ent))" "f6 = synced h3 f5"
  have hs: "file_offset h1 = file_offset h" "file_offset h2 = file_offset h" "file_offset h3 = file_offset h"
    "fst_rec_ptr h1 = fst_rec_ptr h - cnt key" "fst_rec_ptr h2 = fst_rec_ptr h - cnt key - cnt val"
    "lst_itm_ptr h2 = lst_itm_ptr h"
    by (simp_all add: h_defs head_mid_def head_rec_def head_after_def)
  have ok: "file_ok f1" "file_ok f2" "file_ok f3" "file_ok f4" "file_ok f5" "file_ok f6"
    and caps: "fcap f1 = fcap f" "fcap f2 = fcap f" "fcap f3 = fcap f" "fcap f4 = fcap f"
      "fcap f5 = fcap f" "fcap f6 = fcap f"
    using b by (simp_all add: f_defs synced_def hs)
  have s1: "sect_head_shift_frp (- cnt key) (h, f) = Some (Some (), (h1, f1))"
    unfolding h_defs f_defs using b by (intro shift_steps) simp_all
  have s2: "sect_head_write (fst_rec_ptr h1) key (h1, f1) = Some (Some (), (h1, f2))"
    using b ok c by (subst sect_head_write_ok) (simp_all add: hs caps f_defs)
  have s3: "sect_head_shift_frp (- cnt val) (h1, f2) = Some (Some (), (h2, f3))"
    using b ok caps unfolding f_defs(3) h_defs by (intro shift_steps) simp_all
  have s4: "sect_head_write (fst_rec_ptr h2) val (h2, f3) = Some (Some (), (h2, f4))"
    using b ok c by (subst sect_head_write_ok) (simp_all add: hs caps f_defs)
  have s5: "sect_ext_wrt_itm (lst_itm_ptr h2) (placed h key val ent) (h2, f4) = Some (Some (), (h2, f5))"
    using b ok unfolding sect_ext_wrt_itm_def
    by (subst sect_head_write_ok) (simp_all add: hs caps f_defs)
  have s6: "sect_head_shift_lip sizeof_Entity (h2, f5) = Some (Some (), (h3, f6))"
    using b ok caps unfolding f_defs(6) h_defs by (intro shift_steps) simp_all
  have s7: "sect_head_sync (h3, f6) = Some (Some (), (h3, f6))"
    using b ok by (simp add: sync_ok hs caps) (simp add: f_defs(6) synced_def fput_twice)
  have ent: "ent\<lparr>key_ptr := fst_rec_ptr h1, val_ptr := fst_rec_ptr h2\<rparr> = placed h key val ent"
    by (simp add: placed_def hs)
  have "sect_ext_write key val ent (h, f) = Some (Some (placed h key val ent, lst_itm_ptr h), (h3, f6))"
    using room by (simp add: sect_ext_write_def s1 s2 s3 s4 s5 s6 s7 ent Let_def)
  moreover have "f6 = file_after h f key val ent"
    by (simp only: file_after_def Let_def f_defs h_defs)
  ultimately show ?thesis by (simp add: h_defs)
qed

text \<open>
  What a successful write leaves: the three pieces are where the entity says, everything that was
  allocated before is as it was, and the section is well-formed.
\<close>

lemma head_after_fields:
  assumes "sect_wf (h, f)" "fits h key val"
  shows "file_offset (head_after h key val) = file_offset h"
    "unat (lst_itm_ptr (head_after h key val)) = unat (lst_itm_ptr h) + 80"
    "unat (fst_rec_ptr (head_after h key val)) = unat (fst_rec_ptr h) - length key - length val"
    "free_ok (head_after h key val)"
  using fits_cnt [OF assms] assms(1)
  by (simp_all add: head_after_def free_ok_def sect_wf_def)

lemma file_after_fields [simp]:
  "fpos (file_after h f key val ent) = fpos f" "fcap (file_after h f key val ent) = fcap f"
  by (simp_all add: file_after_def Let_def)

lemma fits_split:
  assumes "sect_wf (h, f)" "fits h key val"
  obtains r where "unat (fst_rec_ptr h) = unat (lst_itm_ptr h) + 80 + r + length val + length key"
    "32 \<le> unat (lst_itm_ptr h)"
proof -
  have "unat (lst_itm_ptr h) + 80 + length val + length key \<le> unat (fst_rec_ptr h)"
    and "32 \<le> unat (lst_itm_ptr h)"
    using assms by (auto simp: sect_wf_def fits_def)
  then show ?thesis
    by (intro that [of "unat (fst_rec_ptr h) - (unat (lst_itm_ptr h) + 80 + length val + length key)"]) auto
qed

lemma step_offsets [simp]:
  "file_offset (head_after h key val) = file_offset h"
  "file_offset (head_rec h key val) = file_offset h" "file_offset (head_mid h key) = file_offset h"
  by (simp_all add: head_after_def head_rec_def head_mid_def)

lemma file_after_item:
  assumes "sect_wf (h, f)" "fits h key val"
  shows "fget (file_after h f key val ent) (unat (file_offset h) + unat (lst_itm_ptr h)) 80 =
    entity_bytes (placed h key val ent)"
  by (rule fits_split [OF assms]) (simp add: file_after_def Let_def fget_synced_other)

lemma file_after_key:
  assumes "sect_wf (h, f)" "fits h key val"
  shows "fget (file_after h f key val ent)
    (unat (file_offset h) + (unat (fst_rec_ptr h) - length key)) (length key) = key"
  by (rule fits_split [OF assms]) (simp add: file_after_def Let_def fget_synced_other)

lemma file_after_val:
  assumes "sect_wf (h, f)" "fits h key val"
  shows "fget (file_after h f key val ent)
    (unat (file_offset h) + (unat (fst_rec_ptr h) - length key - length val)) (length val) = val"
  by (rule fits_split [OF assms]) (simp add: file_after_def Let_def fget_synced_other add.assoc)

lemma file_after_frame:
  assumes "sect_wf (h, f)" "fits h key val"
    and "i < unat (file_offset h) \<or>
      unat (file_offset h) + 32 \<le> i \<and> i < unat (file_offset h) + unat (lst_itm_ptr h) \<or>
      unat (file_offset h) + unat (fst_rec_ptr h) \<le> i"
  shows "fdata (file_after h f key val ent) i = fdata f i"
proof -
  have offs: "file_offset (head_after h key val) = file_offset h"
    "file_offset (head_rec h key val) = file_offset h" "file_offset (head_mid h key) = file_offset h"
    by (simp_all add: head_after_def head_rec_def head_mid_def)
  have "32 \<le> unat (lst_itm_ptr h)" "unat (lst_itm_ptr h) + 80 + length key + length val \<le> unat (fst_rec_ptr h)"
    using assms by (auto simp: sect_wf_def fits_def)
  then show ?thesis
    using assms(3) by (auto simp: file_after_def Let_def fdata_synced fdata_fput offs)
qed

lemma fsize_file_after:
  assumes "sect_wf (h, f)" "fits h key val"
  shows "fsize f \<le> fsize (file_after h f key val ent)"
    "unat (file_offset h) + unat (lst_itm_ptr h) + 80 \<le> fsize (file_after h f key val ent)"
    "key \<noteq> [] \<or> val \<noteq> [] \<Longrightarrow> unat (fst_rec_ptr h) = 8192 \<Longrightarrow>
       unat (file_offset h) + 8192 \<le> fsize (file_after h f key val ent)"
  using assms by (auto simp: file_after_def Let_def fsize_synced fsize_fput fits_def)

lemma file_ok_file_after:
  assumes "sect_wf (h, f)" "fits h key val"
  shows "file_ok (file_after h f key val ent)"
proof -
  have b: "unat (lst_itm_ptr h) + 80 + length key + length val \<le> unat (fst_rec_ptr h)"
    "unat (file_offset h) + 8192 \<le> fcap f" "unat (fst_rec_ptr h) \<le> 8192" "file_ok f"
    using assms by (auto simp: sect_wf_def fits_def)
  have "file_offset (head_after h key val) = file_offset h"
    "file_offset (head_rec h key val) = file_offset h" "file_offset (head_mid h key) = file_offset h"
    by (simp_all add: head_after_def head_rec_def head_mid_def)
  with b show ?thesis by (simp add: file_after_def Let_def synced_def)
qed

lemma sect_wf_after:
  assumes wf: "sect_wf (h, f)" and fits: "fits h key val"
  shows "sect_wf (head_after h key val, file_after h f key val ent)"
proof -
  note h = head_after_fields [OF wf fits] and sz = fsize_file_after [OF wf fits, of ent]
  have "fget (file_after h f key val ent) (unat (file_offset h)) 32 = head_bytes (head_after h key val)"
    using h(1) fget_synced_head [of "head_after h key val"] by (simp add: file_after_def Let_def)
  moreover have "unat (file_offset h) + 8192 \<le> fsize (file_after h f key val ent)"
    if "unat (fst_rec_ptr (head_after h key val)) < 8192"
  proof (cases "unat (fst_rec_ptr h) = 8192")
    case True
    with that h(3) have "key \<noteq> [] \<or> val \<noteq> []" by auto
    with True sz(3) show ?thesis by blast
  next
    case False
    with wf sz(1) show ?thesis by (auto simp: sect_wf_def)
  qed
  ultimately show ?thesis
    using wf fits h sz file_ok_file_after [OF wf fits, of ent]
    by (auto simp: sect_wf_def fits_def)
qed

subsection \<open>Reading an entity\<close>

text \<open>
  The document an entity with given key and value bytes denotes (without its relatives), and the
  condition under which the read is defined.
\<close>

definition decode_json :: "Entity \<Rightarrow> u8 list \<Rightarrow> u8 list \<Rightarrow> Json option" where
  "decode_json e key val =
     (case type_of_code (ent_type e) of
        None \<Rightarrow> None
      | Some t \<Rightarrow>
         if t = TYPE_STRING then Some (json_set_val (VStr (string_ctor val)) (json_ctor t key))
         else if t \<noteq> TYPE_OBJECT then map_option (\<lambda>w. json_set_val w (json_ctor t key)) (read_union val)
         else Some (json_ctor t key))"

lemma sect_ext_rd_itm_ok:
  assumes "file_ok f" "unat (file_offset h) + unat soff + 80 \<le> fsize f"
  shows "sect_ext_rd_itm soff (h, f) =
    Some (Some (entity_of (fget f (unat (file_offset h) + unat soff) 80)), (h, f))"
  using assms by (simp add: sect_ext_rd_itm_def sect_head_read_ok)

lemma sect_ext_read_ok:
  assumes wf: "sect_wf (h, f)"
    and itm: "unat (file_offset h) + unat soff + 80 \<le> fsize f"
      "fget f (unat (file_offset h) + unat soff) 80 = entity_bytes e"
    and key: "unat (file_offset h) + unat (key_ptr e) + unat (key_size e) \<le> fsize f"
      "fget f (unat (file_offset h) + unat (key_ptr e)) (unat (key_size e)) = key"
    and val: "unat (file_offset h) + unat (val_ptr e) + unat (val_size e) \<le> fsize f"
      "fget f (unat (file_offset h) + unat (val_ptr e)) (unat (val_size e)) = val"
    and j: "decode_json e key val = Some j"
  shows "sect_ext_read soff (h, f) = Some (Some (e, j), (h, f))"
proof -
  have f: "file_ok f" using wf by (simp add: sect_wf_def)
  have r: "sect_ext_rd_itm soff (h, f) = Some (Some e, (h, f))"
    "sect_head_read (key_ptr e) (key_size e) (h, f) = Some (Some key, (h, f))"
    "sect_head_read (val_ptr e) (val_size e) (h, f) = Some (Some val, (h, f))"
    using f itm key val by (simp_all add: sect_ext_rd_itm_ok sect_head_read_ok)
  obtain t where t: "type_of_code (ent_type e) = Some t"
    using j by (auto simp: decode_json_def split: option.splits)
  show ?thesis
    using j t by (auto simp: sect_ext_read_def r sync_wf [OF wf] decode_json_def Let_def split: if_splits)
qed

text \<open>A value written for a well-typed document reads back as the same value.\<close>

lemma read_union_enc64 [simp]: "read_union (enc64 w) = Some (VRaw w)"
  by (simp add: read_union_def)

end
