(* ===== verification/Extents_Spec.thy ===== *)
theory Extents_Spec
  imports Sect_Extents
begin

text \<open>
  What the operations of \<^verbatim>\<open>section/extents.c\<close> promise, over \<open>entity_in\<close>: an entity lies in a section
  with its key and value, inside a given set of bytes. A write puts the entity into bytes that were
  free, a read gives it back, a delete removes its bytes and no others.
\<close>

subsection \<open>Entities in a section\<close>

definition entity_in :: "nat set \<Rightarrow> FILE \<Rightarrow> Sect_head \<Rightarrow> nat \<Rightarrow> Entity \<Rightarrow> u8 list \<Rightarrow> u8 list \<Rightarrow> bool" where
  "entity_in A f h soff e key val \<longleftrightarrow>
     (let off = unat (file_offset h); kp = unat (key_ptr e); vp = unat (val_ptr e) in
      32 \<le> soff \<and> soff + 80 \<le> unat (lst_itm_ptr h) \<and>
      {off + soff ..< off + soff + 80} \<subseteq> A \<and> fget f (off + soff) 80 = entity_bytes e \<and>
      unat (key_size e) = length key \<and> unat (val_size e) = length val \<and>
      unat (fst_rec_ptr h) \<le> vp \<and> vp + length val = kp \<and> kp + length key \<le> 8192 \<and>
      {off + vp ..< off + kp + length key} \<subseteq> A \<and>
      fget f (off + vp) (length val) = val \<and> fget f (off + kp) (length key) = key)"

text \<open>The bytes a section has given away, apart from its header.\<close>

definition sect_alloc :: "Sect_head \<Rightarrow> nat set" where
  "sect_alloc h =
     (let off = unat (file_offset h)
      in {off + 32 ..< off + unat (lst_itm_ptr h)} \<union> {off + unat (fst_rec_ptr h) ..< off + 8192})"

text \<open>Section headers whose item area is a row of entities.\<close>

definition items :: "Sect_head \<Rightarrow> nat \<Rightarrow> bool" where
  "items h n \<longleftrightarrow> unat (lst_itm_ptr h) = 32 + 80 * n"

text \<open>The header of a section that has only grown.\<close>

definition head_grows :: "Sect_head \<Rightarrow> Sect_head \<Rightarrow> bool" where
  "head_grows h h' \<longleftrightarrow> file_offset h' = file_offset h \<and> lst_itm_ptr h \<le> lst_itm_ptr h' \<and>
     fst_rec_ptr h' \<le> fst_rec_ptr h"

lemma head_grows_refl [simp]: "head_grows h h"
  by (simp add: head_grows_def)

lemma head_grows_trans: "head_grows h h' \<Longrightarrow> head_grows h' h'' \<Longrightarrow> head_grows h h''"
  by (auto simp: head_grows_def)

lemma sect_alloc_mono: "head_grows h h' \<Longrightarrow> sect_alloc h \<subseteq> sect_alloc h'"
  by (auto simp: head_grows_def sect_alloc_def word_le_nat_alt Let_def)

text \<open>An entity stays where it is while its bytes do and its section only grows.\<close>

lemma entity_in_transfer:
  assumes "entity_in A f h soff e key val" "head_grows h h'" "\<And>i. i \<in> A \<Longrightarrow> fdata f' i = fdata f i"
  shows "entity_in A f' h' soff e key val"
proof -
  let ?off = "unat (file_offset h)"
  have A: "{?off + soff ..< ?off + soff + 80} \<subseteq> A"
    "{?off + unat (val_ptr e) ..< ?off + unat (key_ptr e) + length key} \<subseteq> A"
    "unat (val_ptr e) + length val = unat (key_ptr e)"
    using assms(1) by (simp_all add: entity_in_def Let_def)
  have "fget f' (?off + soff) 80 = fget f (?off + soff) 80"
    "fget f' (?off + unat (val_ptr e)) (length val) = fget f (?off + unat (val_ptr e)) (length val)"
    "fget f' (?off + unat (key_ptr e)) (length key) = fget f (?off + unat (key_ptr e)) (length key)"
    using A by (auto intro!: fget_cong assms(3))
  with assms(1,2) show ?thesis
    by (auto simp: entity_in_def head_grows_def Let_def word_le_nat_alt)
qed

lemma entity_in_mono: "entity_in A f h soff e key val \<Longrightarrow> A \<subseteq> B \<Longrightarrow> entity_in B f h soff e key val"
  by (auto simp: entity_in_def Let_def)

lemma entity_in_alloc:
  "entity_in A f h soff e key val \<Longrightarrow> entity_in (A \<inter> sect_alloc h) f h soff e key val"
  by (auto simp: entity_in_def sect_alloc_def Let_def)

subsection \<open>Reading\<close>

lemma sect_head_read_opt:
  assumes "file_ok f" "0 < unat sz \<Longrightarrow> unat (file_offset h) + unat soff + unat sz \<le> fsize f"
  shows "sect_head_read soff sz (h, f) =
    Some (Some (fget f (unat (file_offset h) + unat soff) (unat sz)), (h, f))"
proof (cases "unat sz = 0")
  case True
  then have "sz = 0" by (simp add: unat_eq_zero)
  then show ?thesis by (simp add: sect_head_read_def sect_head_read_into_def)
qed (use assms in \<open>simp add: sect_head_read_ok\<close>)

lemma entity_in_reads:
  assumes wf: "sect_wf (h, f)" and e: "entity_in A f h (unat soff) e key val"
  shows "sect_ext_rd_itm soff (h, f) = Some (Some e, (h, f))"
    "sect_head_read (key_ptr e) (key_size e) (h, f) = Some (Some key, (h, f))"
    "sect_head_read (val_ptr e) (val_size e) (h, f) = Some (Some val, (h, f))"
proof -
  let ?off = "unat (file_offset h)"
  have f: "file_ok f" "?off + unat (lst_itm_ptr h) \<le> fsize f"
    "unat (fst_rec_ptr h) < 8192 \<longrightarrow> ?off + 8192 \<le> fsize f"
    using wf by (auto simp: sect_wf_def)
  have s: "unat soff + 80 \<le> unat (lst_itm_ptr h)" "unat (fst_rec_ptr h) \<le> unat (val_ptr e)"
    "unat (val_ptr e) + length val = unat (key_ptr e)" "unat (key_ptr e) + length key \<le> 8192"
    "unat (key_size e) = length key" "unat (val_size e) = length val"
    and b: "fget f (?off + unat soff) 80 = entity_bytes e"
    "fget f (?off + unat (val_ptr e)) (length val) = val" "fget f (?off + unat (key_ptr e)) (length key) = key"
    using e by (simp_all add: entity_in_def Let_def)
  show "sect_ext_rd_itm soff (h, f) = Some (Some e, (h, f))"
    using f s b by (simp add: sect_ext_rd_itm_ok)
  show "sect_head_read (key_ptr e) (key_size e) (h, f) = Some (Some key, (h, f))"
    using f s b by (subst sect_head_read_opt) simp_all
  show "sect_head_read (val_ptr e) (val_size e) (h, f) = Some (Some val, (h, f))"
    using f s b by (subst sect_head_read_opt) simp_all
qed

lemma sect_ext_read_entity:
  assumes wf: "sect_wf (h, f)" and e: "entity_in A f h (unat soff) e key val"
    and j: "decode_json e key val = Some j"
  shows "sect_ext_read soff (h, f) = Some (Some (e, j), (h, f))"
proof -
  note r = entity_in_reads [OF wf e]
  obtain t where "type_of_code (ent_type e) = Some t"
    using j by (auto simp: decode_json_def split: option.splits)
  then show ?thesis
    using j by (auto simp: sect_ext_read_def r sync_wf [OF wf] decode_json_def Let_def split: if_splits)
qed

subsection \<open>Writing\<close>

lemma head_after_grows:
  assumes "sect_wf (h, f)" "fits h key val"
  shows "head_grows h (head_after h key val)"
  using head_after_fields [OF assms] assms by (simp add: head_grows_def word_le_nat_alt)

lemma sect_step_after:
  assumes "sect_wf (h, f)" "fits h key val"
  shows "sect_step (h, f) (head_after h key val, file_after h f key val ent)"
proof (rule sect_stepI)
  show "fdata (file_after h f key val ent) i = fdata f i"
    if "i < unat (file_offset h) \<or> unat (file_offset h) + 8192 \<le> i" for i
    using that assms by (intro file_after_frame) (auto simp: sect_wf_def)
qed (use assms in \<open>simp_all add: sect_wf_after fsize_file_after\<close>)

text \<open>The new entity lies in bytes that were free before, and no allocated byte changes.\<close>

lemma file_after_alloc:
  assumes "sect_wf (h, f)" "fits h key val" "i \<in> sect_alloc h"
  shows "fdata (file_after h f key val ent) i = fdata f i"
  using assms by (intro file_after_frame) (auto simp: sect_alloc_def Let_def)

lemma entity_in_after:
  assumes wf: "sect_wf (h, f)" and fits: "fits h key val"
    and sz: "key_size ent = cnt key" "val_size ent = cnt val"
  shows "entity_in (sect_alloc (head_after h key val) - sect_alloc h) (file_after h f key val ent)
    (head_after h key val) (unat (lst_itm_ptr h)) (placed h key val ent) key val"
proof -
  note c = fits_cnt [OF wf fits]
  obtain r where r: "unat (fst_rec_ptr h) = unat (lst_itm_ptr h) + 80 + r + length val + length key"
    and l: "32 \<le> unat (lst_itm_ptr h)"
    using fits_split [OF wf fits] by blast
  have frp: "unat (fst_rec_ptr h) \<le> 8192" using wf by (simp add: sect_wf_def)
  have p: "unat (key_ptr (placed h key val ent)) = unat (lst_itm_ptr h) + 80 + r + length val"
    "unat (val_ptr (placed h key val ent)) = unat (lst_itm_ptr h) + 80 + r"
    "key_size (placed h key val ent) = cnt key" "val_size (placed h key val ent) = cnt val"
    using c r by (simp_all add: placed_def sz)
  show ?thesis
    using file_after_item [OF wf fits, of ent] file_after_key [OF wf fits, of ent]
      file_after_val [OF wf fits, of ent] c p r l frp head_after_fields [OF wf fits]
    by (auto simp: entity_in_def sect_alloc_def Let_def)
qed

interpretation ext_write: section_op "sect_ext_write key val ent"
    "\<lambda>_. length key + length val + 80 < 18446744073709551616" for key val ent
proof unfold_locales
  fix h f
  assume wf: "sect_wf (h, f)" and len: "length key + length val + 80 < 18446744073709551616"
  show "\<exists>r h' f'. sect_ext_write key val ent (h, f) = Some (r, (h', f')) \<and> sect_step (h, f) (h', f')"
  proof (cases "fits h key val")
    case True
    with sect_ext_write_eq [OF wf True, of ent] sect_step_after [OF wf True, of ent] show ?thesis by blast
  next
    case False
    with sect_ext_write_full [OF wf False len, of ent] sect_step_refl [OF wf] show ?thesis by blast
  qed
qed

text \<open>Rewriting an item in place.\<close>

lemma sect_ext_wrt_itm_ok:
  assumes wf: "sect_wf (h, f)" and "32 \<le> unat soff" "unat soff + 80 \<le> unat (lst_itm_ptr h)"
  shows "sect_ext_wrt_itm soff ent (h, f) =
      Some (Some (), (h, fput f (unat (file_offset h) + unat soff) (entity_bytes ent)))"
    "sect_step (h, f) (h, fput f (unat (file_offset h) + unat soff) (entity_bytes ent))"
proof -
  have b: "file_ok f" "unat (lst_itm_ptr h) \<le> 8192" "unat (file_offset h) + 8192 \<le> fcap f"
    using wf by (auto simp: sect_wf_def)
  show "sect_ext_wrt_itm soff ent (h, f) =
      Some (Some (), (h, fput f (unat (file_offset h) + unat soff) (entity_bytes ent)))"
    using assms b by (simp add: sect_ext_wrt_itm_def sect_head_write_ok)
  show "sect_step (h, f) (h, fput f (unat (file_offset h) + unat soff) (entity_bytes ent))"
    using assms b by (intro sect_step_fput) simp_all
qed

interpretation ext_wrt_itm: section_op "sect_ext_wrt_itm soff ent"
    "\<lambda>(h, f). 32 \<le> unat soff \<and> unat soff + 80 \<le> unat (lst_itm_ptr h)" for soff ent
  by unfold_locales (use sect_ext_wrt_itm_ok in fastforce)

text \<open>An item rewritten with the same record stays a well-placed entity.\<close>

lemma entity_in_rewrite:
  assumes wf: "sect_wf (h, f)" and e: "entity_in A f h soff e key val"
    and same: "key_ptr e' = key_ptr e" "key_size e' = key_size e" "val_ptr e' = val_ptr e" "val_size e' = val_size e"
  shows "entity_in A (fput f (unat (file_offset h) + soff) (entity_bytes e')) h soff e' key val"
proof -
  have "unat (lst_itm_ptr h) \<le> unat (fst_rec_ptr h)" using wf by (simp add: sect_wf_def)
  with e show ?thesis by (simp add: entity_in_def Let_def same)
qed

subsection \<open>Properties\<close>

text \<open>C19: \<open>sect_ext_write\<close> on a well-formed section either has room, and then puts item, key and value
  into bytes that were free, changes no allocated byte, keeps the section well-formed and the entity
  can be read back; or it refuses, and section and stream are as before.\<close>

theorem ext_write_effect:
  assumes "sect_wf (h, f)" "key_size ent = cnt key" "val_size ent = cnt val"
    and "length key + length val + 80 < 18446744073709551616"
  shows "if fits h key val then \<exists>e h' f'.
      sect_ext_write key val ent (h, f) = Some (Some (e, lst_itm_ptr h), (h', f')) \<and>
      e = ent\<lparr>key_ptr := key_ptr e, val_ptr := val_ptr e\<rparr> \<and> sect_step (h, f) (h', f') \<and>
      sect_alloc h \<subseteq> sect_alloc h' \<and> (\<forall>i \<in> sect_alloc h. fdata f' i = fdata f i) \<and>
      entity_in (sect_alloc h' - sect_alloc h) f' h' (unat (lst_itm_ptr h)) e key val \<and>
      (\<forall>j. decode_json e key val = Some j \<longrightarrow>
         sect_ext_read (lst_itm_ptr h) (h', f') = Some (Some (e, j), (h', f')))
    else sect_ext_write key val ent (h, f) = Some (None, (h, f))"
proof (cases "fits h key val")
  case True
  note w = sect_ext_write_eq [OF assms(1) True, of ent] and st = sect_step_after [OF assms(1) True, of ent]
  note e = entity_in_after [OF assms(1) True assms(2,3)]
  have pl: "placed h key val ent = ent\<lparr>key_ptr := key_ptr (placed h key val ent), val_ptr := val_ptr (placed h key val ent)\<rparr>"
    by (simp add: placed_def)
  have rd: "\<forall>j. decode_json (placed h key val ent) key val = Some j \<longrightarrow>
      sect_ext_read (lst_itm_ptr h) (head_after h key val, file_after h f key val ent) =
        Some (Some (placed h key val ent, j), (head_after h key val, file_after h f key val ent))"
    using sect_ext_read_entity [OF sect_stepD(1) [OF st] e] by blast
  have al: "sect_alloc h \<subseteq> sect_alloc (head_after h key val)"
    by (rule sect_alloc_mono [OF head_after_grows [OF assms(1) True]])
  from True w st e pl rd al file_after_alloc [OF assms(1) True] show ?thesis by (simp only: if_True, blast)
next
  case False
  with sect_ext_write_full [OF assms(1) False assms(4)] show ?thesis by simp
qed

definition sample_entity :: Entity where
  "sample_entity = entity_new\<lparr>key_size := 1, val_size := 8\<rparr>"

theorem ext_write_effect_witness:
  "\<exists>e h' f'. sect_ext_write [107] (enc64 5) sample_entity (sample_head, sample_stream) =
      Some (Some (e, lst_itm_ptr sample_head), (h', f')) \<and>
    e = sample_entity\<lparr>key_ptr := key_ptr e, val_ptr := val_ptr e\<rparr> \<and>
    sect_step (sample_head, sample_stream) (h', f') \<and>
    sect_alloc sample_head \<subseteq> sect_alloc h' \<and> (\<forall>i \<in> sect_alloc sample_head. fdata f' i = fdata sample_stream i) \<and>
    entity_in (sect_alloc h' - sect_alloc sample_head) f' h' (unat (lst_itm_ptr sample_head)) e [107] (enc64 5) \<and>
    (\<forall>j. decode_json e [107] (enc64 5) = Some j \<longrightarrow>
       sect_ext_read (lst_itm_ptr sample_head) (h', f') = Some (Some (e, j), (h', f')))"
proof -
  have "fits sample_head [107] (enc64 5)" by (simp add: fits_def)
  moreover have "key_size sample_entity = cnt [107]" "val_size sample_entity = cnt (enc64 5)"
    by (simp_all add: sample_entity_def cnt_def)
  ultimately show ?thesis
    using ext_write_effect [OF sample_sect_wf, of sample_entity "[107]" "enc64 5"]
    by (simp only: if_True size_simps list.size)
qed

end
