(* ===== verification/Sect_Types.thy ===== *)
theory Sect_Types
  imports Extents_Spec
begin

text \<open>
  \<^verbatim>\<open>dbms/src/section/types.c\<close>: sections of document types. A type occupies one \<open>Type_entity\<close> and one
  \<open>Attr_entity\<close> per attribute in the item area, and its name followed (downwards) by the attribute
  names in the record area. Both entities have the same size, which is why one compression step can
  run over either.
\<close>

subsection \<open>Operations\<close>

definition sect_types_ctor :: "Fileoff \<Rightarrow> (sect, unit) prog" where
  "sect_types_ctor fileoff = sect_head_ctor fileoff"

definition sect_types_dtor :: "(sect, unit) prog" where
  "sect_types_dtor = sect_head_dtor"

definition sect_types_rd_type :: "Sectoff \<Rightarrow> (sect, Type_entity) prog" where
  "sect_types_rd_type soff = DO_OR_FAIL (sect_head_read soff sizeof_Type_entity) (\<lambda>bs. ret (t_ent_of bs))"

definition sect_types_rd_atr :: "Sectoff \<Rightarrow> (sect, Attr_entity) prog" where
  "sect_types_rd_atr soff = DO_OR_FAIL (sect_head_read soff sizeof_Attr_entity) (\<lambda>bs. ret (a_ent_of bs))"

definition sect_types_wrt_type :: "Sectoff \<Rightarrow> Type_entity \<Rightarrow> (sect, unit) prog" where
  "sect_types_wrt_type soff e = sect_head_write soff (t_ent_bytes e)"

definition sect_types_wrt_atr :: "Sectoff \<Rightarrow> Attr_entity \<Rightarrow> (sect, unit) prog" where
  "sect_types_wrt_atr soff e = sect_head_write soff (a_ent_bytes e)"

text \<open>The step types and attributes share: a name goes to the record area, its place is returned.\<close>

definition write_name :: "String \<Rightarrow> (sect, Sectoff) prog" where
  "write_name name =
     DO_OR_FAIL (sect_head_shift_frp (- 1 * cnt name)) (\<lambda>_.
     DO_OR_FAIL get_head (\<lambda>h.
     DO_OR_FAIL (sect_head_write (fst_rec_ptr h) name) (\<lambda>_.
     ret (fst_rec_ptr h))))"

fun write_attrs :: "Attr list \<Rightarrow> (sect, unit) prog" where
  "write_attrs [] = ret ()"
| "write_attrs (a # as) =
     DO_OR_FAIL (write_name (attr_name a)) (\<lambda>p.
     DO_OR_FAIL get_head (\<lambda>h.
     DO_OR_FAIL (sect_types_wrt_atr (lst_itm_ptr h)
       \<lparr>a_name_size = cnt (attr_name a), a_name_ptr = p, a_attr_type = type_code (attr_type a)\<rparr>) (\<lambda>_.
     DO_OR_FAIL (sect_head_shift_lip sizeof_Attr_entity) (\<lambda>_.
     write_attrs as))))"

definition sect_types_write :: "Type \<Rightarrow> (sect, Sectoff) prog" where
  "sect_types_write t =
     DO_OR_FAIL get_head (\<lambda>h.
     if free_space h < type_ph_sz t then fail
     else
       DO_OR_FAIL (write_name (type_name t)) (\<lambda>p.
       DO_OR_FAIL get_head (\<lambda>h1.
       DO_OR_FAIL (sect_types_wrt_type (lst_itm_ptr h1)
         \<lparr>t_name_size = cnt (type_name t), t_name_ptr = p,
          attr_cnt = word_of_nat (length (attr_list t))\<rparr>) (\<lambda>_.
       DO_OR_FAIL (sect_head_shift_lip sizeof_Type_entity) (\<lambda>_.
       DO_OR_FAIL (write_attrs (attr_list t)) (\<lambda>_.
       ret (lst_itm_ptr h1)))))))"

text \<open>
  The last attribute's item is found from the count; with no attribute the computed offset wraps
  back to the type's own item, whose layout agrees in the fields used.
\<close>

definition sect_types_delete :: "Sectoff \<Rightarrow> (sect, unit) prog" where
  "sect_types_delete del_soff =
     DO_OR_FAIL (sect_types_rd_type del_soff) (\<lambda>t_ent.
     DO_OR_FAIL (sect_types_rd_atr (del_soff + sizeof_Type_entity + (attr_cnt t_ent - 1) * sizeof_Attr_entity))
       (\<lambda>lst_atr_ent.
     let itm_sz = sizeof_Type_entity + attr_cnt t_ent * sizeof_Attr_entity;
         rec_sz = (t_name_ptr t_ent + t_name_size t_ent) - a_name_ptr lst_atr_ent
     in
     DO_OR_FAIL (sect_head_write del_soff (replicate (unat itm_sz) 0)) (\<lambda>_.
     DO_OR_FAIL (sect_head_write (a_name_ptr lst_atr_ent) (replicate (unat rec_sz) 0)) (\<lambda>_.
     DO_OR_FAIL (sect_head_cmprs_lip sizeof_Attr_entity) (\<lambda>_.
     sect_head_cmprs_frp)))))"

text \<open>
  \<^verbatim>\<open>sect_types_read\<close>: first the entity and the name, then the attributes. Returned are the type, its
  entity and its size in the item area.
\<close>

definition read_type_name :: "Sectoff \<Rightarrow> (sect, Type_entity \<times> String) prog" where
  "read_type_name soff =
     DO_OR_FAIL (sect_types_rd_type soff) (\<lambda>ent.
     DO_OR_FAIL (sect_head_read (t_name_ptr ent) (t_name_size ent)) (\<lambda>name.
     ret (ent, string_ctor name)))"

definition read_attr :: "Sectoff \<Rightarrow> (sect, Attr) prog" where
  "read_attr soff =
     DO_OR_FAIL (sect_types_rd_atr soff) (\<lambda>a_ent.
     DO_OR_FAIL (sect_head_read (a_name_ptr a_ent) (a_name_size a_ent)) (\<lambda>name.
     DO_OR_FAIL (defined (type_of_code (a_attr_type a_ent))) (\<lambda>ty.
     ret (attr_ctor (string_ctor name) ty))))"

fun read_attrs :: "nat \<Rightarrow> Sectoff \<Rightarrow> Type \<Rightarrow> (sect, Type) prog" where
  "read_attrs 0 soff t = ret t"
| "read_attrs (Suc n) soff t =
     DO_OR_FAIL (read_attr soff) (\<lambda>a. read_attrs n (soff + sizeof_Attr_entity) (type_add_atr t a))"

definition sect_types_read :: "Sectoff \<Rightarrow> (sect, Type \<times> Type_entity \<times> size_t) prog" where
  "sect_types_read soff =
     DO_OR_FAIL (read_type_name soff) (\<lambda>(ent, name).
     DO_OR_FAIL (read_attrs (unat (attr_cnt ent)) (soff + sizeof_Type_entity) (type_ctor name [])) (\<lambda>t.
     ret (t, ent, sizeof_Type_entity + attr_cnt ent * sizeof_Attr_entity)))"

text \<open>\<^verbatim>\<open>sect_types_load\<close>: all types of the section with their offsets, in item order.\<close>

partial_function (option) types_load_loop ::
    "Sectoff \<Rightarrow> (Sectoff \<times> Type) list \<Rightarrow> sect \<Rightarrow> ((Sectoff \<times> Type) list option \<times> sect) option" where
  "types_load_loop soff col s =
     (if soff < lst_itm_ptr (fst s) then
        DO_OR_FAIL (sect_types_read soff) (\<lambda>r.
          types_load_loop (soff + snd (snd r)) (col @ [(soff, fst r)])) s
      else ret col s)"

definition sect_types_load :: "(sect, (Sectoff \<times> Type) list) prog" where
  "sect_types_load = types_load_loop sizeof_Sect_head_entity []"

text \<open>\<^verbatim>\<open>sect_types_find\<close>: the first type of that name; a copy of it and its offset.\<close>

fun find_named :: "String \<Rightarrow> (Sectoff \<times> Type) list \<Rightarrow> (Sectoff \<times> Type) option" where
  "find_named name [] = None"
| "find_named name ((soff, t) # ts) =
     (if string_cmp (type_name t) name = 0 then Some (soff, fst (type_cpy t)) else find_named name ts)"

definition sect_types_find :: "String \<Rightarrow> (sect, Sectoff \<times> Type) prog" where
  "sect_types_find name =
     DO_OR_FAIL sect_types_load (\<lambda>ts.
     case find_named name ts of None \<Rightarrow> fail | Some r \<Rightarrow> ret r)"

end
