(* ===== verification/Query_Check.thy ===== *)
theory Query_Check
  imports Json_Tree
begin

text \<open>
  \<^verbatim>\<open>dbms/src/query/\<close>: conditions on documents. A path is a list of keys (\<^verbatim>\<open>List_Path\<close>), a query a
  list of conditions linked by their \<^verbatim>\<open>next\<close> pointers. \<open>None\<close> as the result of a check means that the
  C code reads past a buffer or through a value that is not a pointer.
\<close>

subsection \<open>Conditions\<close>

datatype Cmp = GT | GE | LT | LE | IN | EQ

record Query_item =
  q_key :: "String list"
  query_val :: jvalue
  q_type :: Json_type
  cmp_op :: Cmp

record Query =
  q_type_name :: "String option"
  f_query_itm :: "Query_item list"

definition query_item_ctor :: "Json_type \<Rightarrow> String list \<Rightarrow> Cmp \<Rightarrow> Query_item" where
  "query_item_ctor t key op = \<lparr>q_key = key, query_val = VRaw 0, q_type = t, cmp_op = op\<rparr>"

definition path_cmp :: "String \<Rightarrow> String \<Rightarrow> int" where
  "path_cmp this other = string_cmp this other"

text \<open>\<^verbatim>\<open>query_item_check\<close>: first drill down to the field, \<^verbatim>\<open>None\<close> when a key is missing.\<close>

fun drill_down :: "Json \<Rightarrow> String list \<Rightarrow> Json option" where
  "drill_down j [] = Some j"
| "drill_down j (k # ks) =
     (case json_son_by_key j k of None \<Rightarrow> None | Some j' \<Rightarrow> drill_down j' ks)"

text \<open>
  The nested \<^verbatim>\<open>switch\<close>. An operator a type does not have reaches \<^verbatim>\<open>assert("Operation doesn't exist!")\<close>,
  whose argument is a string constant and so always true; control then falls through to the next
  type's case. The four definitions are the four entry points.
\<close>

definition check_bool :: "Cmp \<Rightarrow> jvalue \<Rightarrow> jvalue \<Rightarrow> bool option" where
  "check_bool op v q =
     (case op of
        EQ \<Rightarrow> (case (bool_val v, bool_val q) of (Some a, Some b) \<Rightarrow> Some (a = b) | _ \<Rightarrow> None)
      | _ \<Rightarrow> Some False)"

definition on_floats :: "(u32 \<Rightarrow> u32 \<Rightarrow> bool) \<Rightarrow> jvalue \<Rightarrow> jvalue \<Rightarrow> bool option" where
  "on_floats r v q = (case (float_val v, float_val q) of (Some a, Some b) \<Rightarrow> Some (r a b) | _ \<Rightarrow> None)"

definition check_float :: "Cmp \<Rightarrow> jvalue \<Rightarrow> jvalue \<Rightarrow> bool option" where
  "check_float op v q =
     (case op of
        EQ \<Rightarrow> on_floats f32_eq v q
      | GT \<Rightarrow> on_floats (\<lambda>a b. f32_lt b a) v q
      | GE \<Rightarrow> on_floats (\<lambda>a b. f32_le b a) v q
      | LT \<Rightarrow> on_floats f32_lt v q
      | LE \<Rightarrow> on_floats f32_le v q
      | IN \<Rightarrow> check_bool op v q)"

definition on_ints :: "(int \<Rightarrow> int \<Rightarrow> bool) \<Rightarrow> jvalue \<Rightarrow> jvalue \<Rightarrow> bool option" where
  "on_ints r v q = (case (int32_val v, int32_val q) of (Some a, Some b) \<Rightarrow> Some (r a b) | _ \<Rightarrow> None)"

definition check_int32 :: "Cmp \<Rightarrow> jvalue \<Rightarrow> jvalue \<Rightarrow> bool option" where
  "check_int32 op v q =
     (case op of
        EQ \<Rightarrow> on_ints (=) v q
      | GT \<Rightarrow> on_ints (>) v q
      | GE \<Rightarrow> on_ints (\<ge>) v q
      | LT \<Rightarrow> on_ints (<) v q
      | LE \<Rightarrow> on_ints (\<le>) v q
      | IN \<Rightarrow> check_float op v q)"

definition check_string :: "Cmp \<Rightarrow> jvalue \<Rightarrow> jvalue \<Rightarrow> bool option" where
  "check_string op v q =
     (case op of
        IN \<Rightarrow> (case (string_val v, string_val q) of (Some a, Some b) \<Rightarrow> strstr a b | _ \<Rightarrow> None)
      | EQ \<Rightarrow> (case (string_val v, string_val q) of
                 (Some a, Some b) \<Rightarrow> map_option (\<lambda>c. c = 0) (strcmp a b) | _ \<Rightarrow> None)
      | _ \<Rightarrow> check_int32 op v q)"

definition query_item_check :: "Query_item \<Rightarrow> Json \<Rightarrow> bool option" where
  "query_item_check q j =
     (case drill_down j (q_key q) of
        None \<Rightarrow> Some False
      | Some cur \<Rightarrow>
         (case q_type q of
            TYPE_STRING \<Rightarrow> check_string (cmp_op q) (jval cur) (query_val q)
          | TYPE_INT32 \<Rightarrow> check_int32 (cmp_op q) (jval cur) (query_val q)
          | TYPE_FLOAT \<Rightarrow> check_float (cmp_op q) (jval cur) (query_val q)
          | TYPE_BOOL \<Rightarrow> check_bool (cmp_op q) (jval cur) (query_val q)
          | TYPE_OBJECT \<Rightarrow> Some False))"

subsection \<open>Queries\<close>

definition query_new :: Query where
  "query_new = \<lparr>q_type_name = None, f_query_itm = []\<rparr>"

definition query_ctor :: "String option \<Rightarrow> Query \<Rightarrow> Query" where
  "query_ctor name q = q\<lparr>q_type_name := name\<rparr>"

text \<open>A new condition goes right behind the first one.\<close>

definition query_item_add :: "Query \<Rightarrow> Query_item \<Rightarrow> Query" where
  "query_item_add q itm =
     q\<lparr>f_query_itm := (case f_query_itm q of [] \<Rightarrow> [itm] | x # xs \<Rightarrow> x # itm # xs)\<rparr>"

fun check_items :: "Query_item list \<Rightarrow> Json \<Rightarrow> bool option" where
  "check_items [] j = Some True"
| "check_items (q # qs) j =
     (case query_item_check q j of
        None \<Rightarrow> None
      | Some False \<Rightarrow> Some False
      | Some True \<Rightarrow> check_items qs j)"

text \<open>The second argument is the \<^verbatim>\<open>name\<close> of the document's type, \<open>None\<close> for a null pointer.\<close>

definition query_check_type :: "Query \<Rightarrow> String option \<Rightarrow> bool" where
  "query_check_type q name =
     (case q_type_name q of
        None \<Rightarrow> True
      | Some qn \<Rightarrow> (case name of None \<Rightarrow> False | Some n \<Rightarrow> string_cmp qn n = 0))"

definition query_check :: "Query \<Rightarrow> Json \<Rightarrow> String option \<Rightarrow> bool option" where
  "query_check q j name =
     (case check_items (f_query_itm q) j of
        None \<Rightarrow> None
      | Some False \<Rightarrow> Some False
      | Some True \<Rightarrow> Some (query_check_type q name))"

subsection \<open>Meaning of a query\<close>

text \<open>A query that has an answer answers the conjunction of its conditions and the type test.\<close>

lemma check_items_True: "check_items qs j = Some True \<longleftrightarrow> (\<forall>q \<in> set qs. query_item_check q j = Some True)"
  by (induction qs) (auto split: option.splits bool.splits)

lemma check_items_False: "check_items qs j = Some False \<Longrightarrow> \<exists>q \<in> set qs. query_item_check q j = Some False"
  by (induction qs) (auto split: option.splits bool.splits)

lemma check_items_defined:
  "\<forall>q \<in> set qs. query_item_check q j \<noteq> None \<Longrightarrow> check_items qs j \<noteq> None"
  by (induction qs) (auto split: option.splits bool.splits)

lemma query_check_True:
  "query_check q j name = Some True \<longleftrightarrow>
     (\<forall>itm \<in> set (f_query_itm q). query_item_check itm j = Some True) \<and> query_check_type q name"
  by (auto simp: query_check_def check_items_True [symmetric] split: option.splits bool.splits)

text \<open>The order of the conditions does not matter for acceptance.\<close>

lemma set_query_item_add: "set (f_query_itm (query_item_add q itm)) = insert itm (set (f_query_itm q))"
  by (auto simp: query_item_add_def split: list.splits)

lemma query_item_add_type [simp]: "q_type_name (query_item_add q itm) = q_type_name q"
  by (simp add: query_item_add_def)

lemma query_item_add_True:
  "query_check (query_item_add q itm) j name = Some True \<longleftrightarrow>
     query_item_check itm j = Some True \<and> query_check q j name = Some True"
  by (auto simp: query_check_True set_query_item_add query_check_type_def)

text \<open>An operator a type lacks is never reported: it is answered by another type's comparison.\<close>

lemma check_bool_other: "op \<noteq> EQ \<Longrightarrow> check_bool op v q = Some False"
  by (cases op) (simp_all add: check_bool_def)

lemma check_IN_numbers: "check_int32 IN v q = Some False" "check_float IN v q = Some False"
  by (simp_all add: check_int32_def check_float_def check_bool_def)

subsection \<open>Properties\<close>

text \<open>C25: a query accepts a document exactly when the document's type is the wanted one and every
  condition accepts it; adding a condition, wherever the code puts it in the list, restricts the query
  by that condition.\<close>

theorem query_check_conjunction:
  "(query_check q j name = Some True \<longleftrightarrow>
      (\<forall>itm \<in> set (f_query_itm q). query_item_check itm j = Some True) \<and>
      (case q_type_name q of None \<Rightarrow> True
       | Some qn \<Rightarrow> (case name of None \<Rightarrow> False | Some n \<Rightarrow> string_cmp qn n = 0))) \<and>
   (query_check (query_item_add q itm) j name = Some True \<longleftrightarrow>
      query_item_check itm j = Some True \<and> query_check q j name = Some True)"
  using query_check_True [of q j name] query_item_add_True [of q itm j name]
  by (simp add: query_check_type_def)

theorem query_check_conjunction_witness:
  "query_check (query_item_add (query_new) (query_item_ctor TYPE_INT32 [] EQ))
     (json_ctor TYPE_INT32 [107]) None = Some True"
  using query_check_conjunction [of query_new "json_ctor TYPE_INT32 [107]" None "query_item_ctor TYPE_INT32 [] EQ"]
  by (simp add: query_new_def query_item_ctor_def query_item_check_def json_ctor_def check_int32_def on_ints_def)

text \<open>C27: a condition on a text field is decided only by a difference. Fields are kept without a terminating NUL.
  \<open>EQ\<close> answers no if the field and the wanted text differ at a common position; otherwise one begins with
  the other, equal texts among them, \<^verbatim>\<open>strcmp\<close> reads past the end of a buffer, and there is no defined
  answer. \<open>IN\<close> has none at all: \<^verbatim>\<open>strstr\<close> looks for the NUL of the field. So no text field is ever accepted.\<close>

theorem text_conditions_undefined:
  assumes "drill_down j (q_key q) = Some cur" "q_type q = TYPE_STRING"
    and "jval cur = VStr s" "query_val q = VStr t" "0 \<notin> set s"
  shows "(cmp_op q = EQ \<longrightarrow> query_item_check q j =
            (if \<exists>i < min (length s) (length t). s ! i \<noteq> t ! i then Some False else None)) \<and>
    (cmp_op q = IN \<longrightarrow> query_item_check q j = None)"
proof
  show "cmp_op q = EQ \<longrightarrow> query_item_check q j =
      (if \<exists>i < min (length s) (length t). s ! i \<noteq> t ! i then Some False else None)"
    using assms strcmp_ends [OF assms(5), of t] strcmp_no_NUL [OF assms(5), of t]
    by (auto simp: query_item_check_def check_string_def)
  have "c_str s = None" using assms(5) by (simp add: c_str_no_NUL)
  then show "cmp_op q = IN \<longrightarrow> query_item_check q j = None"
    using assms by (simp add: query_item_check_def check_string_def strstr_def)
qed

theorem text_conditions_undefined_witness:
  "query_item_check \<lparr>q_key = [], query_val = VStr [97], q_type = TYPE_STRING, cmp_op = EQ\<rparr>
     (Json [107] (VStr [97]) TYPE_STRING None None None 0) = None \<and>
   query_item_check \<lparr>q_key = [], query_val = VStr [98], q_type = TYPE_STRING, cmp_op = EQ\<rparr>
     (Json [107] (VStr [97]) TYPE_STRING None None None 0) = Some False"
  using text_conditions_undefined [of "Json [107] (VStr [97]) TYPE_STRING None None None 0"
      "\<lparr>q_key = [], query_val = VStr [97], q_type = TYPE_STRING, cmp_op = EQ\<rparr>"
      "Json [107] (VStr [97]) TYPE_STRING None None None 0" "[97]" "[97]"]
    text_conditions_undefined [of "Json [107] (VStr [97]) TYPE_STRING None None None 0"
      "\<lparr>q_key = [], query_val = VStr [98], q_type = TYPE_STRING, cmp_op = EQ\<rparr>"
      "Json [107] (VStr [97]) TYPE_STRING None None None 0" "[97]" "[98]"]
  by simp

end
