(* ===== verification/File_Store.thy ===== *)
theory File_Store
  imports Sect_Types Query_Check
begin

text \<open>
  \<^verbatim>\<open>dbms/src/file/header.c\<close> and \<^verbatim>\<open>dbms/src/file/file.c\<close>. The database file starts with an 8-byte
  header, the offset behind the last section; sections of documents and of types follow, in the
  order in which they were added. \<^verbatim>\<open>File\<close> begins with its \<^verbatim>\<open>File_head\<close>, which the code casts to, so
  the record is extended. The two linked lists of sections hold their headers; a \<^verbatim>\<open>Sect_ext *\<close> is an
  index into the list, which only ever grows at its end.
\<close>

subsection \<open>State and header operations: file/header.c\<close>

record File_head =
  lst_sect_ptr :: Fileoff
  filp :: FILE

record File = File_head +
  f_extent :: "Sect_head list"
  f_types :: "Sect_head list"

abbreviation sizeof_File_head_entity :: size_t where "sizeof_File_head_entity \<equiv> 8"

definition on_filp :: "(FILE, 'a) prog \<Rightarrow> (File, 'a) prog" where
  "on_filp m = (\<lambda>F. map_option (\<lambda>(r, f'). (r, F\<lparr>filp := f'\<rparr>)) (m (filp F)))"

definition file_head_sync :: "(File, unit) prog" where
  "file_head_sync = (\<lambda>F. on_filp (SAVE_FILP (RA_FWRITE_OR_FAIL (enc64 (lst_sect_ptr F)) 0)) F)"

definition file_head_ctor :: "FILE \<Rightarrow> (File, unit) prog" where
  "file_head_ctor f = (\<lambda>F. file_head_sync (F\<lparr>filp := f, lst_sect_ptr := sizeof_File_head_entity\<rparr>))"

definition file_head_dtor :: "(File, unit) prog" where
  "file_head_dtor = (\<lambda>F. file_head_sync (F\<lparr>lst_sect_ptr := 0\<rparr>))"

definition file_head_read :: "Fileoff \<Rightarrow> size_t \<Rightarrow> (File, u8 list) prog" where
  "file_head_read foff sz =
     DO_OR_FAIL (on_filp (saved_read foff (unat sz))) (\<lambda>(st, bs). if st = OK then ret bs else fail)"

definition file_head_write :: "Fileoff \<Rightarrow> u8 list \<Rightarrow> (File, unit) prog" where
  "file_head_write foff bs =
     (if bs \<noteq> [] then on_filp (SAVE_FILP (RA_FWRITE_OR_FAIL bs foff)) else ret ())"

definition file_head_shift_lsp :: "size_t \<Rightarrow> (File, unit) prog" where
  "file_head_shift_lsp shift = (\<lambda>F. file_head_sync (F\<lparr>lst_sect_ptr := lst_sect_ptr F + shift\<rparr>))"

subsection \<open>Sections of the file\<close>

text \<open>Run a section operation on the \<open>i\<close>-th section of documents, or of types.\<close>

definition on_ext :: "nat \<Rightarrow> (sect, 'a) prog \<Rightarrow> (File, 'a) prog" where
  "on_ext i m = (\<lambda>F. map_option (\<lambda>(r, (h', f')). (r, F\<lparr>filp := f', f_extent := (f_extent F)[i := h']\<rparr>))
     (m (f_extent F ! i, filp F)))"

definition on_types :: "nat \<Rightarrow> (sect, 'a) prog \<Rightarrow> (File, 'a) prog" where
  "on_types i m = (\<lambda>F. map_option (\<lambda>(r, (h', f')). (r, F\<lparr>filp := f', f_types := (f_types F)[i := h']\<rparr>))
     (m (f_types F ! i, filp F)))"

fun find_sect :: "nat \<Rightarrow> Sect_head list \<Rightarrow> Fileoff \<Rightarrow> nat option" where
  "find_sect i [] foff = None"
| "find_sect i (h # hs) foff =
     (if file_offset h \<le> foff \<and> file_offset h + SECTION_SIZE > foff then Some i
      else find_sect (Suc i) hs foff)"

definition get_sect_ext :: "File \<Rightarrow> Fileoff \<Rightarrow> nat option" where
  "get_sect_ext F foff = find_sect 0 (f_extent F) foff"

definition get_sect_types :: "File \<Rightarrow> Fileoff \<Rightarrow> nat option" where
  "get_sect_types F foff = find_sect 0 (f_types F) foff"

text \<open>A new section at the end of the file. The status of its constructor is ignored.\<close>

definition file_add_sect_ext :: "(File, nat) prog" where
  "file_add_sect_ext = (\<lambda>F. case sect_ext_ctor (lst_sect_ptr F) (sect_head_new, filp F) of
       None \<Rightarrow> None
     | Some (_, (h, f')) \<Rightarrow>
        DO_OR_FAIL (file_head_shift_lsp SECTION_SIZE) (\<lambda>_. ret (length (f_extent F)))
          (F\<lparr>filp := f', f_extent := f_extent F @ [h]\<rparr>))"

definition file_add_sect_types :: "(File, nat) prog" where
  "file_add_sect_types = (\<lambda>F. case sect_types_ctor (lst_sect_ptr F) (sect_head_new, filp F) of
       None \<Rightarrow> None
     | Some (_, (h, f')) \<Rightarrow>
        DO_OR_FAIL (file_head_shift_lsp SECTION_SIZE) (\<lambda>_. ret (length (f_types F)))
          (F\<lparr>filp := f', f_types := f_types F @ [h]\<rparr>))"

definition file_new :: File where
  "file_new = \<lparr>lst_sect_ptr = 0, filp = fopen_w 0, f_extent = [], f_types = []\<rparr>"

definition file_ctor :: "FILE \<Rightarrow> (File, unit) prog" where
  "file_ctor f = (\<lambda>F. file_head_ctor f (F\<lparr>f_extent := [], f_types := []\<rparr>))"

text \<open>The destructor of a list runs the destructor of each section and ignores its status.\<close>

fun dtor_sects :: "Sect_head list \<Rightarrow> (FILE, unit) prog" where
  "dtor_sects [] = ret ()"
| "dtor_sects (h # hs) = (\<lambda>f. case sect_head_dtor (h, f) of
       None \<Rightarrow> None
     | Some (_, (_, f')) \<Rightarrow> dtor_sects hs f')"

definition file_dtor :: "(File, unit) prog" where
  "file_dtor = (\<lambda>F.
     DO_OR_FAIL (on_filp (dtor_sects (f_extent F))) (\<lambda>_.
     DO_OR_FAIL (on_filp (dtor_sects (f_types F))) (\<lambda>_.
     file_head_dtor)) F)"

subsection \<open>Types\<close>

fun add_type_in :: "nat list \<Rightarrow> Type \<Rightarrow> (File, (nat \<times> Sectoff) option) prog" where
  "add_type_in [] t = ret None"
| "add_type_in (i # is) t =
     DO_OR_FAIL (attempt (on_types i (sect_types_write t))) (\<lambda>r. case r of
       Some soff \<Rightarrow> ret (Some (i, soff))
     | None \<Rightarrow> add_type_in is t)"

definition file_add_type :: "Type \<Rightarrow> (File, Fileoff) prog" where
  "file_add_type t = (\<lambda>F.
     DO_OR_FAIL (add_type_in [0..<length (f_types F)] t) (\<lambda>r.
     DO_OR_FAIL (case r of
         Some x \<Rightarrow> ret x
       | None \<Rightarrow>
          DO_OR_FAIL file_add_sect_types (\<lambda>i.
          DO_OR_FAIL (on_types i (sect_types_write t)) (\<lambda>soff. ret (i, soff)))) (\<lambda>(i, soff) F.
     DO_OR_FAIL file_head_sync (\<lambda>_. ret (sect_head_get_fileoff (f_types F ! i) soff)) F)) F)"

fun find_type_in :: "nat list \<Rightarrow> String \<Rightarrow> (File, nat \<times> Sectoff \<times> Type) prog" where
  "find_type_in [] name = fail"
| "find_type_in (i # is) name =
     DO_OR_FAIL (attempt (on_types i (sect_types_find name))) (\<lambda>r. case r of
       Some (soff, t) \<Rightarrow> ret (i, soff, t)
     | None \<Rightarrow> find_type_in is name)"

definition file_find_type :: "String \<Rightarrow> (File, nat \<times> Sectoff \<times> Type) prog" where
  "file_find_type name = (\<lambda>F. find_type_in [0..<length (f_types F)] name F)"

definition file_delete_type :: "String \<Rightarrow> (File, unit) prog" where
  "file_delete_type name =
     DO_OR_FAIL (attempt (file_find_type name)) (\<lambda>r. case r of
       Some (i, soff, _) \<Rightarrow> DO_OR_FAIL (on_types i (sect_types_delete soff)) (\<lambda>_. file_head_sync)
     | None \<Rightarrow> fail)"

definition file_read_type :: "Fileoff \<Rightarrow> (File, Type) prog" where
  "file_read_type foff = (\<lambda>F. case get_sect_types F foff of
       None \<Rightarrow> fail F
     | Some i \<Rightarrow>
        on_types i (\<lambda>(h, f). DO_OR_FAIL (sect_types_read (sect_head_get_sectoff h foff))
          (\<lambda>(t, _). ret t) (h, f)) F)"

text \<open>
  \<^verbatim>\<open>file_read_type\<close> as \<^verbatim>\<open>file_find\<close> calls it, on a fresh type and without looking at the status.
  Afterwards the name is set as soon as the entity and the name could be read, even when an
  attribute could not.
\<close>

definition type_name_at :: "Fileoff \<Rightarrow> (File, String option) prog" where
  "type_name_at foff = (\<lambda>F. case get_sect_types F foff of
       None \<Rightarrow> ret None F
     | Some i \<Rightarrow>
        on_types i (\<lambda>(h, f).
          (let soff = sect_head_get_sectoff h foff in
           DO_OR_FAIL (attempt (read_type_name soff)) (\<lambda>r. case r of
             None \<Rightarrow> ret None
           | Some (ent, name) \<Rightarrow>
              DO_OR_FAIL (attempt (read_attrs (unat (attr_cnt ent)) (soff + sizeof_Type_entity)
                (type_ctor name []))) (\<lambda>_. ret (Some name)))) (h, f)) F)"

subsection \<open>Documents\<close>

text \<open>The loop that tries the sections of documents in order: the section, the entity and its offset.\<close>

fun write_in :: "nat list \<Rightarrow> String \<Rightarrow> u8 list \<Rightarrow> Entity \<Rightarrow> (File, (nat \<times> Entity \<times> Sectoff) option) prog" where
  "write_in [] key val ent = ret None"
| "write_in (i # is) key val ent =
     DO_OR_FAIL (attempt (on_ext i (sect_ext_write key val ent))) (\<lambda>r. case r of
       Some (e, soff) \<Rightarrow> ret (Some (i, e, soff))
     | None \<Rightarrow> write_in is key val ent)"

definition place_entity :: "String \<Rightarrow> u8 list \<Rightarrow> Entity \<Rightarrow> (File, nat \<times> Entity \<times> Sectoff) prog" where
  "place_entity key val ent = (\<lambda>F.
     DO_OR_FAIL (write_in [0..<length (f_extent F)] key val ent) (\<lambda>r. case r of
       Some x \<Rightarrow> ret x
     | None \<Rightarrow>
        DO_OR_FAIL file_add_sect_ext (\<lambda>i.
        DO_OR_FAIL (on_ext i (sect_ext_write key val ent)) (\<lambda>(e, soff). ret (i, e, soff)))) F)"

definition ext_fileoff :: "nat \<Rightarrow> Sectoff \<Rightarrow> (File, Fileoff) prog" where
  "ext_fileoff i soff = (\<lambda>F. ret (sect_head_get_fileoff (f_extent F ! i) soff) F)"

definition with_bro_son :: "Entity \<Rightarrow> Fileoff \<Rightarrow> Fileoff \<Rightarrow> Entity" where
  "with_bro_son e bro son = e\<lparr>fam_addr := (fam_addr e)\<lparr>bro_ptr := bro, son_ptr := son\<rparr>\<rparr>"

text \<open>
  \<^verbatim>\<open>file_write\<close>: place the entity, write the brothers and sons (their types are 0), then rewrite
  the item with their addresses. The status of the last write is ignored.
\<close>

fun file_write :: "Json \<Rightarrow> Fileoff \<Rightarrow> Fileoff \<Rightarrow> (File, Fileoff) prog" where
  "file_write (Json k v t b s n a) dad type_foff =
     DO_OR_FAIL (defined (ENTITY_INIT (Json k v t b s n a) dad 0 0 type_foff)) (\<lambda>entity.
     DO_OR_FAIL (defined (json_val_ptr (Json k v t b s n a))) (\<lambda>val.
     DO_OR_FAIL (place_entity k val entity) (\<lambda>(i, entity, wrt_soff).
     DO_OR_FAIL (ext_fileoff i wrt_soff) (\<lambda>wrt_foff.
     DO_OR_FAIL (case b of None \<Rightarrow> ret 0 | Some bj \<Rightarrow> file_write bj dad 0) (\<lambda>bro.
     DO_OR_FAIL (case s of None \<Rightarrow> ret 0 | Some sj \<Rightarrow> file_write sj wrt_foff 0) (\<lambda>son.
     DO_OR_FAIL (attempt (on_ext i (sect_ext_wrt_itm wrt_soff (with_bro_son entity bro son)))) (\<lambda>_.
     DO_OR_FAIL file_head_sync (\<lambda>_.
     ret wrt_foff))))))))"

definition ext_at :: "Fileoff \<Rightarrow> (Sectoff \<Rightarrow> (sect, 'a) prog) \<Rightarrow> (File, 'a) prog" where
  "ext_at foff m = (\<lambda>F. case get_sect_ext F foff of
       None \<Rightarrow> fail F
     | Some i \<Rightarrow> on_ext i (\<lambda>(h, f). m (sect_head_get_sectoff h foff) (h, f)) F)"

text \<open>\<^verbatim>\<open>file_read\<close> follows the brother and son addresses found on disk.\<close>

partial_function (option) file_read ::
    "Fileoff \<Rightarrow> File \<Rightarrow> ((Json \<times> Entity) option \<times> File) option" where
  "file_read foff F =
     DO_OR_FAIL (ext_at foff sect_ext_read) (\<lambda>r.
     let e = fst r; j = json_set_foff foff (snd r) in
     DO_OR_FAIL
       (if bro_ptr (fam_addr e) \<noteq> 0
        then DO_OR_FAIL (file_read (bro_ptr (fam_addr e))) (\<lambda>b. ret (json_add_bro j (Some (fst b))))
        else ret j) (\<lambda>j1.
     DO_OR_FAIL
       (if son_ptr (fam_addr e) \<noteq> 0
        then DO_OR_FAIL (file_read (son_ptr (fam_addr e))) (\<lambda>s. ret (json_add_son j1 (Some (fst s))))
        else ret j1) (\<lambda>j2.
     ret (j2, e)))) F"

text \<open>
  \<^verbatim>\<open>file_delete\<close>: the entity, its brothers unless it is the root of the deletion, its sons; then the
  son pointer of its parent. The status of that last write is ignored.
\<close>

definition son_field :: "Fileoff \<Rightarrow> Fileoff" where
  "son_field foff = foff + offsetof_fam_addr + offsetof_son_ptr"

definition bro_field :: "Fileoff \<Rightarrow> Fileoff" where
  "bro_field foff = foff + offsetof_fam_addr + offsetof_bro_ptr"

partial_function (option) file_delete ::
    "Fileoff \<Rightarrow> bool \<Rightarrow> File \<Rightarrow> (unit option \<times> File) option" where
  "file_delete foff is_root F =
     DO_OR_FAIL (ext_at foff sect_ext_delete) (\<lambda>del.
     DO_OR_FAIL
       (if \<not> is_root \<and> bro_ptr (fam_addr del) \<noteq> 0
        then file_delete (bro_ptr (fam_addr del)) False else ret ()) (\<lambda>_.
     DO_OR_FAIL
       (if son_ptr (fam_addr del) \<noteq> 0
        then file_delete (son_ptr (fam_addr del)) False else ret ()) (\<lambda>_.
     DO_OR_FAIL
       (if is_root \<and> dad_ptr (fam_addr del) \<noteq> 0
        then DO_OR_FAIL (attempt (file_head_write (son_field (dad_ptr (fam_addr del)))
               (enc64 (bro_ptr (fam_addr del))))) (\<lambda>_. ret ())
        else ret ()) (\<lambda>_.
     file_head_sync)))) F"

text \<open>
  \<^verbatim>\<open>file_update\<close>. When the section cannot take the new entity and no other section can, a new
  section is added, but the entity is written to the old one again, as the source does.
\<close>

definition relocate :: "Fileoff \<Rightarrow> String \<Rightarrow> u8 list \<Rightarrow> Entity \<Rightarrow> (File, Fileoff) prog" where
  "relocate foff key val ent = (\<lambda>F.
     DO_OR_FAIL (ext_at foff sect_ext_delete) (\<lambda>_.
     DO_OR_FAIL (write_in [0..<length (f_extent F)] key val ent) (\<lambda>r. case r of
       Some (i, _, soff) \<Rightarrow> ext_fileoff i soff
     | None \<Rightarrow>
        DO_OR_FAIL file_add_sect_ext (\<lambda>i.
        DO_OR_FAIL (ext_at foff (\<lambda>_. sect_ext_write key val ent)) (\<lambda>(_, soff).
        ext_fileoff i soff)))) F)"

definition update_entity :: "Fileoff \<Rightarrow> Json \<Rightarrow> Fileoff \<Rightarrow> Fileoff \<Rightarrow> (File, Fileoff) prog" where
  "update_entity foff new dad tptr =
     DO_OR_FAIL (defined (ENTITY_INIT new dad 0 0 tptr)) (\<lambda>ent.
     DO_OR_FAIL (defined (json_val_ptr new)) (\<lambda>val.
     DO_OR_FAIL (ext_at foff (\<lambda>soff. sect_ext_update soff (jkey new) val ent)) (\<lambda>(st, ent').
     if st = FAILED then relocate foff (jkey new) val ent' else ret foff)))"

text \<open>
  The address of the updated node, \<^verbatim>\<open>*cur_fileoff\<close>, is assigned only when the node itself differs;
  the caller's variable is passed in and keeps its value otherwise.
\<close>

partial_function (option) file_update ::
    "Fileoff \<Rightarrow> Json \<Rightarrow> Fileoff \<Rightarrow> Fileoff \<Rightarrow> bool \<Rightarrow> Fileoff \<Rightarrow> File \<Rightarrow> (Fileoff option \<times> File) option" where
  "file_update foff new dad tptr is_root cur F =
     DO_OR_FAIL (ext_at foff sect_ext_read) (\<lambda>r.
     let old_e = fst r in
     DO_OR_FAIL (defined (json_cmp (snd r) new)) (\<lambda>c.
     DO_OR_FAIL (if c \<noteq> 0 then update_entity foff new dad tptr else ret cur) (\<lambda>cur'.
     DO_OR_FAIL
       (case jbro new of
          None \<Rightarrow> ret 0
        | Some bj \<Rightarrow>
           if is_root then ret 0
           else if bro_ptr (fam_addr old_e) \<noteq> 0
           then file_update (bro_ptr (fam_addr old_e)) bj cur' 0 False 0
           else file_write bj cur' 0) (\<lambda>bro.
     DO_OR_FAIL
       (case json_son new of
          None \<Rightarrow> ret 0
        | Some sj \<Rightarrow>
           if son_ptr (fam_addr old_e) \<noteq> 0
           then file_update (son_ptr (fam_addr old_e)) sj cur' 0 False 0
           else file_write sj cur' 0) (\<lambda>son.
     DO_OR_FAIL (if bro \<noteq> 0 then attempt (file_head_write (bro_field cur') (enc64 bro)) else ret None) (\<lambda>_.
     DO_OR_FAIL (if son \<noteq> 0 then attempt (file_head_write (son_field cur') (enc64 son)) else ret None) (\<lambda>_.
     DO_OR_FAIL file_head_sync (\<lambda>_.
     ret cur')))))))) F"

text \<open>
  \<^verbatim>\<open>file_find\<close>: the documents of one section that satisfy the query are added to the caller's
  collection. The caller ignores the status, so what was collected before a failure is a result too.
\<close>

fun find_matching ::
    "Fileoff list \<Rightarrow> Query \<Rightarrow> (Json \<times> Entity) list \<Rightarrow> (File, Status \<times> (Json \<times> Entity) list) prog" where
  "find_matching [] q col = ret (OK, col)"
| "find_matching (foff # foffs) q col =
     DO_OR_FAIL (attempt (file_read foff)) (\<lambda>r. case r of
       None \<Rightarrow> ret (FAILED, col)
     | Some (j, e) \<Rightarrow>
        DO_OR_FAIL (type_name_at (type_ptr e)) (\<lambda>name.
        DO_OR_FAIL (defined (query_check q j name)) (\<lambda>hit.
        find_matching foffs q (if hit then col @ [(j, e)] else col))))"

definition file_find ::
    "nat \<Rightarrow> Query \<Rightarrow> (Json \<times> Entity) list \<Rightarrow> (File, Status \<times> (Json \<times> Entity) list) prog" where
  "file_find i q col =
     DO_OR_FAIL (attempt (on_ext i sect_ext_load)) (\<lambda>r. case r of
       None \<Rightarrow> ret (FAILED, col)
     | Some foffs \<Rightarrow> find_matching foffs q col)"

end
