(* ===== verification/Iter.thy ===== *)
theory Iter
  imports File_Store
begin

text \<open>
  \<^verbatim>\<open>dbms/src/json/iter.c\<close>: the result of a query, read section by section. The iterator keeps the
  hits of one section; when they are used up it goes on with the following sections. \<^verbatim>\<open>iter->file\<close> is
  the \<open>File\<close> every operation is run on; \<^verbatim>\<open>iter->cur_sect\<close> is an index into its list of sections,
  \<open>None\<close> for a null pointer.
\<close>

record Iter =
  it_query :: Query
  cur_col :: "(Json \<times> Entity) list"
  cur_sect :: "nat option"

text \<open>
  \<^verbatim>\<open>iter_ctor\<close>: the first section with a hit. The list argument holds the sections still ahead,
  the loop's \<^verbatim>\<open>cur_sect = cur_sect->next\<close> takes its tail.
\<close>

fun first_hits :: "nat list \<Rightarrow> Query \<Rightarrow> (File, nat option \<times> (Json \<times> Entity) list) prog" where
  "first_hits [] q = ret (None, [])"
| "first_hits (i # is) q =
     DO_OR_FAIL (file_find i q []) (\<lambda>(st, col).
     if col \<noteq> [] then ret (Some i, col) else first_hits is q)"

definition iter_ctor :: "Query \<Rightarrow> (File, Iter) prog" where
  "iter_ctor q = (\<lambda>F.
     DO_OR_FAIL (first_hits [0..<length (f_extent F)] q) (\<lambda>(i, col).
     ret \<lparr>it_query = q, cur_col = col, cur_sect = i\<rparr>) F)"

text \<open>
  \<^verbatim>\<open>iter_next\<close>: drop the current hit; with none left, look through the sections behind \<^verbatim>\<open>cur_sect\<close>,
  and stay on the last one when they have none either.
\<close>

fun next_hits :: "nat list \<Rightarrow> nat \<Rightarrow> Query \<Rightarrow> (File, nat \<times> (Json \<times> Entity) list) prog" where
  "next_hits [] cur q = ret (cur, [])"
| "next_hits (i # is) cur q =
     DO_OR_FAIL (file_find i q []) (\<lambda>(st, col).
     if col \<noteq> [] then ret (i, col) else next_hits is i q)"

definition iter_next :: "Iter \<Rightarrow> (File, Iter) prog" where
  "iter_next it = (\<lambda>F.
     let it1 = it\<lparr>cur_col := tl (cur_col it)\<rparr> in
     if cur_col it1 = [] then
       (case cur_sect it1 of
          None \<Rightarrow> ret it1 F
        | Some i \<Rightarrow>
           DO_OR_FAIL (next_hits [Suc i..<length (f_extent F)] i (it_query it1)) (\<lambda>(i', col).
           ret (it1\<lparr>cur_col := col, cur_sect := Some i'\<rparr>)) F)
     else ret it1 F)"

definition iter_is_avail :: "Iter \<Rightarrow> bool" where
  "iter_is_avail it \<longleftrightarrow> length (cur_col it) > 0"

definition iter_get_json :: "Iter \<Rightarrow> Json" where
  "iter_get_json it = fst (hd (cur_col it))"

definition iter_get_entity :: "Iter \<Rightarrow> Entity" where
  "iter_get_entity it = snd (hd (cur_col it))"

end
