(* ===== verification/User.thy ===== *)
theory User
  imports Iter
begin

text \<open>
  \<^verbatim>\<open>dbms/include/user/command.h\<close> and \<^verbatim>\<open>dbms/src/user/user.c\<close>: the database's interface. The numbers of
  affected documents that \<^verbatim>\<open>user_delete\<close> and \<^verbatim>\<open>user_update\<close> print are left out.
\<close>

datatype CommandType = INSERT | READ | UPDATE | DELETE

text \<open>The members are pointers; those a command does not use are never followed.\<close>

record Command =
  cmd_type :: CommandType
  cmd_type_name :: String
  cmd_query :: Query
  cmd_json :: Json

text \<open>
  \<^verbatim>\<open>user_open_file\<close> truncates the file; the status of the constructor is ignored. The argument is
  the room on the device.
\<close>

definition user_open_file :: "nat \<Rightarrow> File option" where
  "user_open_file cap = map_option snd (file_ctor (fopen_w cap) file_new)"

definition user_close_file :: "(File, unit) prog" where
  "user_close_file = file_dtor"

definition user_add_type :: "Type \<Rightarrow> (File, unit) prog" where
  "user_add_type t = DO_OR_FAIL (file_add_type t) (\<lambda>_. ret ())"

definition user_delete_type :: "String \<Rightarrow> (File, unit) prog" where
  "user_delete_type name = file_delete_type name"

definition user_read_type :: "String \<Rightarrow> (File, Type) prog" where
  "user_read_type name = DO_OR_FAIL (file_find_type name) (\<lambda>(i, soff, t). ret t)"

definition user_write :: "Json \<Rightarrow> String \<Rightarrow> (File, unit) prog" where
  "user_write json tname =
     DO_OR_FAIL (file_find_type tname) (\<lambda>(i, soff, t) F.
     if json_is_apply_type json t = OK
     then DO_OR_FAIL (file_write json 0 (sect_head_get_fileoff (f_types F ! i) soff)) (\<lambda>_. ret ()) F
     else fail F)"

definition user_read :: "Query \<Rightarrow> (File, Iter) prog" where
  "user_read q = iter_ctor q"

text \<open>
  The loops of \<^verbatim>\<open>user_delete\<close> and \<^verbatim>\<open>user_update\<close>. An update inserts documents while the iterator
  moves on through the sections, so that it returns is not plain from its form.
\<close>

partial_function (option) delete_loop :: "Iter \<Rightarrow> File \<Rightarrow> (unit option \<times> File) option" where
  "delete_loop it F =
     (if iter_is_avail it
      then DO_OR_FAIL (file_delete (jfoff (iter_get_json it)) True) (\<lambda>_.
           DO_OR_FAIL (iter_next it) delete_loop)
      else ret ()) F"

definition user_delete :: "Query \<Rightarrow> (File, unit) prog" where
  "user_delete q = DO_OR_FAIL (iter_ctor q) delete_loop"

partial_function (option) update_loop :: "Json \<Rightarrow> Iter \<Rightarrow> File \<Rightarrow> (unit option \<times> File) option" where
  "update_loop new it F =
     (if iter_is_avail it
      then DO_OR_FAIL (file_delete (jfoff (iter_get_json it)) True) (\<lambda>_.
           DO_OR_FAIL (file_write new (dad_ptr (fam_addr (iter_get_entity it))) (type_ptr (iter_get_entity it))) (\<lambda>_.
           DO_OR_FAIL (iter_next it) (update_loop new)))
      else ret ()) F"

definition user_update :: "Query \<Rightarrow> Json \<Rightarrow> (File, unit) prog" where
  "user_update q new = DO_OR_FAIL (iter_ctor q) (update_loop new)"

text \<open>\<^verbatim>\<open>user_apply\<close>; only \<^verbatim>\<open>READ\<close> hands out an iterator.\<close>

definition user_apply :: "Command \<Rightarrow> (File, Iter option) prog" where
  "user_apply c =
     (case cmd_type c of
        INSERT \<Rightarrow> DO_OR_FAIL (user_write (cmd_json c) (cmd_type_name c)) (\<lambda>_. ret None)
      | READ \<Rightarrow> DO_OR_FAIL (user_read (cmd_query c)) (\<lambda>it. ret (Some it))
      | UPDATE \<Rightarrow> DO_OR_FAIL (user_update (cmd_query c) (cmd_json c)) (\<lambda>_. ret None)
      | DELETE \<Rightarrow> DO_OR_FAIL (user_delete (cmd_query c)) (\<lambda>_. ret None))"

end
