(* ===== verification/Wire.thy ===== *)
theory Wire
  imports User
begin

text \<open>
  The messages of \<^verbatim>\<open>protos/dbms.proto\<close> and the structures \<^verbatim>\<open>Network::Json\<close>, \<^verbatim>\<open>Network::ConditionalItem\<close>
  and \<^verbatim>\<open>Network::Request\<close> that client and server convert to and from them. A message is the record of
  its fields; an embedded message may be absent, and its accessor then gives the default message, in
  which every field is zero or empty. Enumerations of a message are open: any 32-bit number may arrive.
  How a message travels (serialization, gRPC) is not part of the repository.
\<close>

subsection \<open>Messages\<close>

datatype PJson = PJson (p_type: u32) (p_key: "u8 list") (p_int32: u32) (p_float: u32)
  (p_string: "u8 list") (p_bool: bool) (p_dad: "PJson option") (p_bro: "PJson option") (p_son: "PJson option")

record PConditionalItem =
  pc_type :: u32
  pc_key :: "u8 list list"
  pc_cmp :: u32
  pc_int32 :: u32
  pc_float :: u32
  pc_string :: "u8 list"
  pc_bool :: bool

record PConditional =
  pc_conditionals :: "PConditionalItem list"

record POperationRequest =
  po_operationType :: u32
  po_typeName :: "u8 list"
  po_query :: "PConditional option"
  po_json :: "PJson option"

record POperationResponse =
  pr_status :: u32
  pr_collection :: "PJson list"

definition default_PJson :: PJson where
  "default_PJson = PJson 0 [] 0 0 [] False None None None"

definition default_PConditional :: PConditional where
  "default_PConditional = \<lparr>pc_conditionals = []\<rparr>"

subsection \<open>Enumerations\<close>

text \<open>
  A \<^verbatim>\<open>static_cast\<close> from a number to an enumeration is defined for the enumeration's numbers. The
  contract below is what the conversions rely on.
\<close>

fun cmp_num :: "Cmp \<Rightarrow> u32" where
  "cmp_num GT = 0" | "cmp_num GE = 1" | "cmp_num LT = 2" | "cmp_num LE = 3" | "cmp_num IN = 4" | "cmp_num EQ = 5"

definition cmp_cast :: "u32 \<Rightarrow> Cmp option" where
  "cmp_cast w = (if w = 0 then Some GT else if w = 1 then Some GE else if w = 2 then Some LT
     else if w = 3 then Some LE else if w = 4 then Some IN else if w = 5 then Some EQ else None)"

fun command_num :: "CommandType \<Rightarrow> u32" where
  "command_num INSERT = 0" | "command_num READ = 1" | "command_num UPDATE = 2" | "command_num DELETE = 3"

definition command_cast :: "u32 \<Rightarrow> CommandType option" where
  "command_cast w = (if w = 0 then Some INSERT else if w = 1 then Some READ
     else if w = 2 then Some UPDATE else if w = 3 then Some DELETE else None)"

definition type_num :: "Json_type \<Rightarrow> u32" where
  "type_num t = ucast (type_code t)"

definition type_cast :: "u32 \<Rightarrow> Json_type option" where
  "type_cast w = type_of_code (ucast w)"

fun status_num :: "Status \<Rightarrow> u32" where
  "status_num OK = 0" | "status_num FAILED = 1"

definition status_cast :: "u32 \<Rightarrow> Status option" where
  "status_cast w = (if w = 0 then Some OK else if w = 1 then Some FAILED else None)"

locale enum_codec =
  fixes num :: "'t \<Rightarrow> u32" and cast :: "u32 \<Rightarrow> 't option"
  assumes cast_num [simp]: "cast (num t) = Some t"
begin

lemma num_inject: "num s = num t \<longleftrightarrow> s = t"
  by (metis cast_num option.inject)

end

interpretation cmp_enum: enum_codec cmp_num cmp_cast
proof
  show "cmp_cast (cmp_num t) = Some t" for t by (cases t) (simp_all add: cmp_cast_def)
qed

interpretation command_enum: enum_codec command_num command_cast
proof
  show "command_cast (command_num t) = Some t" for t by (cases t) (simp_all add: command_cast_def)
qed

interpretation type_enum: enum_codec type_num type_cast
proof
  show "type_cast (type_num t) = Some t" for t
    by (cases t) (simp_all add: type_cast_def type_num_def type_of_code_def)
qed

interpretation status_enum: enum_codec status_num status_cast
proof
  show "status_cast (status_num t) = Some t" for t by (cases t) (simp_all add: status_cast_def)
qed

text \<open>The client keeps the message's open enumerations as they are.\<close>

interpretation open_enum: enum_codec id Some
  by unfold_locales simp

subsection \<open>Network::Json\<close>

text \<open>
  The struct of client and server; they differ in the type of the member \<^verbatim>\<open>type_\<close>, a parameter here.
\<close>

datatype 't NJson = NJson (n_type: 't) (n_key: "u8 list") (n_int32: u32) (n_float: u32)
  (n_string: "u8 list") (n_bool: bool) (n_dad: "'t NJson option") (n_bro: "'t NJson option") (n_son: "'t NJson option")

text \<open>\<^verbatim>\<open>operator dbms::Json *\<close>.\<close>

fun wire_json :: "('t \<Rightarrow> u32) \<Rightarrow> 't NJson \<Rightarrow> PJson" where
  "wire_json num (NJson t k i f s b dad bro son) =
     PJson (num t) k i f s b
       (case dad of None \<Rightarrow> None | Some j \<Rightarrow> Some (wire_json num j))
       (case bro of None \<Rightarrow> None | Some j \<Rightarrow> Some (wire_json num j))
       (case son of None \<Rightarrow> None | Some j \<Rightarrow> Some (wire_json num j))"

text \<open>\<^verbatim>\<open>Json(const dbms::Json &)\<close>; \<open>None\<close> when a type is no enumerator.\<close>

definition opt_all :: "'a option option \<Rightarrow> 'a option option" where
  "opt_all x = (case x of None \<Rightarrow> Some None | Some None \<Rightarrow> None | Some (Some y) \<Rightarrow> Some (Some y))"

fun unwire_json :: "(u32 \<Rightarrow> 't option) \<Rightarrow> PJson \<Rightarrow> 't NJson option" where
  "unwire_json cast (PJson t k i f s b dad bro son) =
     Option.bind (cast t) (\<lambda>t'.
     Option.bind (opt_all (case dad of None \<Rightarrow> None | Some j \<Rightarrow> Some (unwire_json cast j))) (\<lambda>dad'.
     Option.bind (opt_all (case bro of None \<Rightarrow> None | Some j \<Rightarrow> Some (unwire_json cast j))) (\<lambda>bro'.
     Option.bind (opt_all (case son of None \<Rightarrow> None | Some j \<Rightarrow> Some (unwire_json cast j))) (\<lambda>son'.
     Some (NJson t' k i f s b dad' bro' son')))))"

lemma opt_all_simps [simp]: "opt_all None = Some None" "opt_all (Some None) = None" "opt_all (Some (Some y)) = Some (Some y)"
  by (simp_all add: opt_all_def)

text \<open>Client and server number a type the same way when every number the one sends the other takes back.\<close>

lemma unwire_wire_json:
  "(\<And>t. cast (num t) = Some (g t)) \<Longrightarrow> unwire_json cast (wire_json num j) = Some (map_NJson g j)"
  by (induction j) (auto split: option.splits)

context enum_codec
begin

lemma unwire_wire: "unwire_json cast (wire_json num j) = Some j"
  using unwire_wire_json [of cast num id j] by (simp add: NJson.map_id0 [unfolded id_def] NJson.map_id)

end

subsection \<open>Network::ConditionalItem, Conditional and Request\<close>

record ('t, 'c) ConditionalItem =
  ci_type :: 't
  ci_key :: "u8 list list"
  ci_cmp :: 'c
  ci_int32 :: u32
  ci_float :: u32
  ci_string :: "u8 list"
  ci_bool :: bool

record ('t, 'c) Conditional =
  conditionals :: "('t, 'c) ConditionalItem list"

record ('o, 't, 'c) Request =
  r_type :: 'o
  r_type_name :: "u8 list"
  r_query :: "('t, 'c) Conditional option"
  r_json :: "'t NJson option"

end
