(* ===== verification/Client.thy ===== *)
theory Client
  imports Wire
begin

text \<open>
  \<^verbatim>\<open>GQLclient/\<close>: the tree a parsed statement is (\<^verbatim>\<open>Node.hpp\<close>), the request it becomes
  (\<^verbatim>\<open>network/request.hpp\<close>), the answer (\<^verbatim>\<open>network/response.hpp\<close>) and the semantic values of tokens
  (\<^verbatim>\<open>driver.hpp\<close>). Members without an initialiser hold whatever the memory held; the record \<open>mem\<close> is
  that content, a parameter of every constructor that leaves such a member. Lexer, parser,
  printing and the remote calls have theories of their own.
\<close>

definition bytes :: "string \<Rightarrow> u8 list" where
  "bytes s = map of_char s"

record mem =
  g_type :: u32
  g_int :: u32
  g_float :: u32
  g_bool :: bool

subsection \<open>Building documents: network/request.hpp\<close>

text \<open>\<^verbatim>\<open>new Json\<close>: only \<^verbatim>\<open>int32_val_\<close> and the pointers are initialised, the strings are empty.\<close>

definition new_json :: "mem \<Rightarrow> u32 NJson" where
  "new_json g = NJson (g_type g) [] 0 (g_float g) [] (g_bool g) None None None"

fun addBro :: "'t NJson \<Rightarrow> 't NJson option \<Rightarrow> 't NJson" where
  "addBro (NJson t k i f s b dad None son) rhs = NJson t k i f s b dad rhs son"
| "addBro (NJson t k i f s b dad (Some bro) son) rhs = NJson t k i f s b dad (Some (addBro bro rhs)) son"

fun addSon :: "'t NJson \<Rightarrow> 't NJson option \<Rightarrow> 't NJson" where
  "addSon (NJson t k i f s b dad bro None) rhs = NJson t k i f s b dad bro rhs"
| "addSon (NJson t k i f s b dad bro (Some son)) rhs = NJson t k i f s b dad bro (Some (addBro son rhs))"

definition wire_item :: "('t \<Rightarrow> u32) \<Rightarrow> ('t, Cmp) ConditionalItem \<Rightarrow> PConditionalItem" where
  "wire_item num ci =
     \<lparr>pc_type = num (ci_type ci), pc_key = ci_key ci, pc_cmp = cmp_num (ci_cmp ci), pc_int32 = ci_int32 ci,
      pc_float = ci_float ci, pc_string = ci_string ci, pc_bool = ci_bool ci\<rparr>"

definition wire_conditional :: "('t \<Rightarrow> u32) \<Rightarrow> ('t, Cmp) Conditional \<Rightarrow> PConditional" where
  "wire_conditional num c = \<lparr>pc_conditionals = map (wire_item num) (conditionals c)\<rparr>"

definition wire_request :: "('t \<Rightarrow> u32) \<Rightarrow> (CommandType, 't, Cmp) Request \<Rightarrow> POperationRequest" where
  "wire_request num r =
     \<lparr>po_operationType = command_num (r_type r), po_typeName = r_type_name r,
      po_query = map_option (wire_conditional num) (r_query r), po_json = map_option (wire_json num) (r_json r)\<rparr>"

subsection \<open>Fields and conditions: Node.hpp\<close>

record FieldNode =
  f_type :: u32
  f_name :: "u8 list"
  f_str_value :: "u8 list"
  f_int_value :: u32
  f_float_value :: u32
  f_bool_value :: bool

text \<open>One constructor per type of the value.\<close>

definition FieldNode_mem :: "mem \<Rightarrow> u8 list \<Rightarrow> FieldNode" where
  "FieldNode_mem g name = \<lparr>f_type = g_type g, f_name = name, f_str_value = [], f_int_value = g_int g,
     f_float_value = g_float g, f_bool_value = g_bool g\<rparr>"

datatype field_value = FString "u8 list" | FInt u32 | FFloat u32 | FBool bool

fun FieldNode_ctor :: "mem \<Rightarrow> u8 list \<Rightarrow> field_value \<Rightarrow> FieldNode" where
  "FieldNode_ctor g name (FString v) = (FieldNode_mem g name)\<lparr>f_str_value := v, f_type := type_num TYPE_STRING\<rparr>"
| "FieldNode_ctor g name (FInt v) = (FieldNode_mem g name)\<lparr>f_int_value := v, f_type := type_num TYPE_INT32\<rparr>"
| "FieldNode_ctor g name (FFloat v) = (FieldNode_mem g name)\<lparr>f_float_value := v, f_type := type_num TYPE_FLOAT\<rparr>"
| "FieldNode_ctor g name (FBool v) = (FieldNode_mem g name)\<lparr>f_bool_value := v, f_type := type_num TYPE_BOOL\<rparr>"

definition field_toJson :: "FieldNode \<Rightarrow> u32 NJson" where
  "field_toJson x =
     NJson (f_type x) (f_name x) (f_int_value x) (f_float_value x) (f_str_value x) (f_bool_value x) None None None"

text \<open>\<^verbatim>\<open>FieldListNode::toJson\<close>: the first field, the others added as its brothers.\<close>

fun link_fields :: "u32 NJson option \<Rightarrow> FieldNode list \<Rightarrow> u32 NJson option" where
  "link_fields f_son [] = f_son"
| "link_fields None (x # xs) = link_fields (Some (field_toJson x)) xs"
| "link_fields (Some j) (x # xs) = link_fields (Some (addBro j (Some (field_toJson x)))) xs"

definition fields_toJson :: "FieldNode list \<Rightarrow> u32 NJson option" where
  "fields_toJson xs = link_fields None xs"

record PropertyNode = FieldNode +
  f_cmp :: Cmp

definition PropertyNode_ctor :: "mem \<Rightarrow> u8 list \<Rightarrow> Cmp \<Rightarrow> field_value \<Rightarrow> PropertyNode" where
  "PropertyNode_ctor g name cmp v = FieldNode.extend (FieldNode_ctor g name v) (PropertyNode.fields cmp)"

definition toConditionalItem :: "PropertyNode \<Rightarrow> (u32, Cmp) ConditionalItem" where
  "toConditionalItem x = \<lparr>ci_type = f_type x, ci_key = [f_name x], ci_cmp = f_cmp x, ci_int32 = f_int_value x,
     ci_float = f_float_value x, ci_string = f_str_value x, ci_bool = f_bool_value x\<rparr>"

definition toConditional :: "PropertyNode list \<Rightarrow> (u32, Cmp) Conditional" where
  "toConditional xs = \<lparr>conditionals = map toConditionalItem xs\<rparr>"

subsection \<open>Entities\<close>

record EntityNode =
  is_root :: bool
  nodeName :: "u8 list"
  fieldListNode :: "FieldNode list"

text \<open>The two constructors: a nameless group of fields is the root, a named one is a part of it.\<close>

definition EntityNode_root :: "FieldNode list \<Rightarrow> EntityNode" where
  "EntityNode_root fs = \<lparr>is_root = True, nodeName = [], fieldListNode = fs\<rparr>"

definition EntityNode_named :: "u8 list \<Rightarrow> FieldNode list \<Rightarrow> EntityNode" where
  "EntityNode_named name fs = \<lparr>is_root = False, nodeName = name, fieldListNode = fs\<rparr>"

definition entity_toJson :: "mem \<Rightarrow> EntityNode \<Rightarrow> bool \<times> u32 NJson" where
  "entity_toJson g e =
     (is_root e, addSon (NJson (type_num TYPE_OBJECT) (nodeName e) 0 (g_float g) [] (g_bool g) None None None)
        (fields_toJson (fieldListNode e)))"

text \<open>\<^verbatim>\<open>EntityListNode::toJson\<close>: a first loop looks for the root, a second one adds the others to it.\<close>

definition pick_root :: "mem \<Rightarrow> EntityNode list \<Rightarrow> u32 NJson" where
  "pick_root g es =
     fold (\<lambda>e root. let (first, j) = entity_toJson g e in if first then j else root) es (new_json g)"

definition entities_toJson :: "mem \<Rightarrow> EntityNode list \<Rightarrow> u32 NJson" where
  "entities_toJson g es =
     fold (\<lambda>e root. let (first, j) = entity_toJson g e in if \<not> first then addSon root (Some j) else root)
       es (pick_root g es)"

subsection \<open>Statements\<close>

record ConditionBodyNode =
  cb_typeName :: "u8 list"
  cb_condition :: "PropertyNode list"

record EntityBodyNode =
  eb_typeName :: "u8 list"
  eb_entityList :: "EntityNode list"

text \<open>Every statement keeps the command of its token; \<^verbatim>\<open>toRequest\<close> does not look at it.\<close>

datatype QueryNode =
    InsertQueryNode CommandType EntityBodyNode
  | SelectQueryNode CommandType ConditionBodyNode
  | DeleteQueryNode CommandType ConditionBodyNode
  | UpdateQueryNode CommandType ConditionBodyNode EntityBodyNode

fun toRequest :: "mem \<Rightarrow> QueryNode \<Rightarrow> (CommandType, u32, Cmp) Request" where
  "toRequest g (InsertQueryNode cmd e) =
     \<lparr>r_type = INSERT, r_type_name = eb_typeName e, r_query = None, r_json = Some (entities_toJson g (eb_entityList e))\<rparr>"
| "toRequest g (SelectQueryNode cmd c) =
     \<lparr>r_type = READ, r_type_name = cb_typeName c, r_query = Some (toConditional (cb_condition c)), r_json = None\<rparr>"
| "toRequest g (DeleteQueryNode cmd c) =
     \<lparr>r_type = DELETE, r_type_name = cb_typeName c, r_query = Some (toConditional (cb_condition c)), r_json = None\<rparr>"
| "toRequest g (UpdateQueryNode cmd c e) =
     \<lparr>r_type = UPDATE, r_type_name = cb_typeName c, r_query = Some (toConditional (cb_condition c)),
      r_json = Some (entities_toJson g (eb_entityList e))\<rparr>"

text \<open>\<^verbatim>\<open>Driver::insert\<close> up to the remote call.\<close>

definition statement_message :: "mem \<Rightarrow> QueryNode \<Rightarrow> POperationRequest" where
  "statement_message g q = wire_request id (toRequest g q)"

subsection \<open>Answers: network/response.hpp\<close>

record Client_Response =
  cr_status :: Status
  cr_collection :: "u32 NJson list"

text \<open>\<^verbatim>\<open>Response(const OperationResponse \&)\<close>; the client keeps open enumerations, so nothing can be undefined.\<close>

fun client_json :: "PJson \<Rightarrow> u32 NJson" where
  "client_json (PJson t k i f s b dad bro son) = NJson t k i f s b
     (case dad of None \<Rightarrow> None | Some j \<Rightarrow> Some (client_json j))
     (case bro of None \<Rightarrow> None | Some j \<Rightarrow> Some (client_json j))
     (case son of None \<Rightarrow> None | Some j \<Rightarrow> Some (client_json j))"

definition Client_Response_ctor :: "POperationResponse \<Rightarrow> Client_Response option" where
  "Client_Response_ctor p = Option.bind (status_cast (pr_status p)) (\<lambda>st.
     Some \<lparr>cr_status = st, cr_collection = map client_json (pr_collection p)\<rparr>)"

subsection \<open>Semantic values of tokens: driver.hpp\<close>

datatype token = T_COLON | T_ERR | T_LB | T_RB | T_LP | T_RP
  | T_INT | T_STRING | T_FLOAT | T_BOOL | T_WORD
  | T_INSERT | T_DELETE | T_SELECT | T_UPDATE | T_CMP | T_EQ | T_IN

datatype semantic = S_string string | S_int int | S_float u32 | S_bool bool | S_cmp Cmp | S_op CommandType | S_none

definition cmpTable :: "string \<Rightarrow> Cmp option" where
  "cmpTable = map_of [(''GT'', GT), (''gt'', GT), (''GE'', GE), (''ge'', GE), (''LT'', LT), (''lt'', LT),
     (''LE'', LE), (''le'', LE), (''EQ'', EQ), (''eq'', EQ), (''IN'', IN), (''in'', IN)]"

definition commandTable :: "string \<Rightarrow> CommandType option" where
  "commandTable = map_of [(''insert'', INSERT), (''INSERT'', INSERT), (''delete'', DELETE), (''DELETE'', DELETE),
     (''update'', UPDATE), (''UPDATE'', UPDATE), (''select'', READ), (''SELECT'', READ)]"

text \<open>
  \<^verbatim>\<open>std::stoi\<close> on the texts the lexer accepts as \<^verbatim>\<open>INT\<close>, an optional minus and decimal digits; outside the
  range of \<^verbatim>\<open>int\<close> it throws. \<^verbatim>\<open>std::stof\<close>, which throws too, is a parameter.
\<close>

definition digits_val :: "string \<Rightarrow> int" where
  "digits_val ds = foldl (\<lambda>n c. 10 * n + (of_char c - 48)) 0 ds"

definition stoi :: "string \<Rightarrow> int option" where
  "stoi s =
     (let n = (case s of [] \<Rightarrow> 0 | c # ds \<Rightarrow> if c = CHR ''-'' then - digits_val ds else digits_val (c # ds))
      in if - 2147483648 \<le> n \<and> n < 2147483648 then Some n else None)"

text \<open>
  A failed lookup is dereferenced all the same, and nobody catches the exception: both are \<open>None\<close>. The tables hold
  only the lower and upper case spellings, while the rules ignore the case. The value is assigned through
  \<^verbatim>\<open>as<T>()\<close> to a variant that holds none yet; it is taken to be constructed by that.
\<close>

definition yylex :: "(string \<Rightarrow> u32 option) \<Rightarrow> token \<Rightarrow> string \<Rightarrow> semantic option" where
  "yylex stof tt text =
     (case tt of
        T_WORD \<Rightarrow> Some (S_string text)
      | T_STRING \<Rightarrow> Some (S_string (filter (\<lambda>c. c \<noteq> CHR 0x22) text))
      | T_INT \<Rightarrow> map_option S_int (stoi text)
      | T_FLOAT \<Rightarrow> map_option S_float (stof text)
      | T_BOOL \<Rightarrow> Some (S_bool (text = ''true'' \<or> text = ''TRUE''))
      | T_CMP \<Rightarrow> map_option S_cmp (cmpTable text)
      | T_EQ \<Rightarrow> map_option S_cmp (cmpTable text)
      | T_IN \<Rightarrow> map_option S_cmp (cmpTable text)
      | T_INSERT \<Rightarrow> map_option S_op (commandTable text)
      | T_DELETE \<Rightarrow> map_option S_op (commandTable text)
      | T_SELECT \<Rightarrow> map_option S_op (commandTable text)
      | T_UPDATE \<Rightarrow> map_option S_op (commandTable text)
      | _ \<Rightarrow> Some S_none)"

subsection \<open>The chain of brothers\<close>

text \<open>A node's own content and its sons, and the list of a node and its brothers.\<close>

fun node_view :: "'t NJson \<Rightarrow> 't \<times> u8 list \<times> u32 \<times> u32 \<times> u8 list \<times> bool \<times> 't NJson option" where
  "node_view (NJson t k i f s b dad bro son) = (t, k, i, f, s, b, son)"

fun bros :: "'t NJson option \<Rightarrow> ('t \<times> u8 list \<times> u32 \<times> u32 \<times> u8 list \<times> bool \<times> 't NJson option) list" where
  "bros None = []"
| "bros (Some (NJson t k i f s b dad bro son)) = (t, k, i, f, s, b, son) # bros bro"

lemma bros_addBro: "bros (Some (addBro j rhs)) = bros (Some j) @ bros rhs"
  by (induction j rhs rule: addBro.induct) simp_all

lemma addBro_members [simp]: "n_type (addBro j rhs) = n_type j" "n_key (addBro j rhs) = n_key j" "n_son (addBro j rhs) = n_son j"
  by (cases "(j, rhs)" rule: addBro.cases; simp)+

lemma addSon_members [simp]: "n_type (addSon j rhs) = n_type j" "n_key (addSon j rhs) = n_key j" "n_bro (addSon j rhs) = n_bro j"
  by (cases "(j, rhs)" rule: addSon.cases; simp)+

lemma bros_addSon: "bros (n_son (addSon j rhs)) = bros (n_son j) @ bros rhs"
  by (cases "(j, rhs)" rule: addSon.cases) (simp_all add: bros_addBro)

lemma bros_link_fields: "bros (link_fields f xs) = bros f @ map (node_view \<circ> field_toJson) xs"
proof (induction f xs rule: link_fields.induct)
  case (3 j x xs)
  have "bros (link_fields (Some j) (x # xs)) =
      bros (Some (addBro j (Some (field_toJson x)))) @ map (node_view \<circ> field_toJson) xs"
    using 3 by simp
  also have "\<dots> = bros (Some j) @ bros (Some (field_toJson x)) @ map (node_view \<circ> field_toJson) xs"
    unfolding bros_addBro append_assoc ..
  finally show ?case by (simp add: field_toJson_def)
qed (simp_all add: field_toJson_def)

lemma bros_fields: "bros (fields_toJson xs) = map (node_view \<circ> field_toJson) xs"
  by (simp add: fields_toJson_def bros_link_fields)

lemma entity_toJson_root [simp]: "fst (entity_toJson g e) = is_root e"
  by (simp add: entity_toJson_def)

lemma entity_toJson_alone: "n_bro (snd (entity_toJson g e)) = None"
  by (simp add: entity_toJson_def)

text \<open>The last of several roots is the one.\<close>

lemma pick_root_last:
  assumes "is_root e" "\<forall>x \<in> set es2. \<not> is_root x"
  shows "pick_root g (es1 @ e # es2) = snd (entity_toJson g e)"
proof -
  have "fold (\<lambda>e root. let (first, j) = entity_toJson g e in if first then j else root) es2 r = r" for r
    using assms(2) by (induction es2) (auto simp: entity_toJson_def)
  then show ?thesis using assms(1) by (simp add: pick_root_def entity_toJson_def)
qed

definition add_parts :: "mem \<Rightarrow> EntityNode list \<Rightarrow> u32 NJson \<Rightarrow> u32 NJson" where
  "add_parts g es root = fold (\<lambda>e root. let (first, j) = entity_toJson g e in if \<not> first then addSon root (Some j) else root) es root"

lemma add_parts_simps:
  "add_parts g [] root = root"
  "add_parts g (e # es) root =
    add_parts g es (if is_root e then root else addSon root (Some (snd (entity_toJson g e))))"
  by (simp_all add: add_parts_def entity_toJson_def)

lemma bros_alone: "n_bro j = None \<Longrightarrow> bros (Some j) = [node_view j]"
  by (cases j) simp

lemma add_parts_view:
  "n_type (add_parts g es root) = n_type root \<and> n_key (add_parts g es root) = n_key root \<and>
   n_bro (add_parts g es root) = n_bro root \<and>
   bros (n_son (add_parts g es root)) =
     bros (n_son root) @ map (node_view \<circ> snd \<circ> entity_toJson g) (filter (\<lambda>e. \<not> is_root e) es)"
proof (induction es arbitrary: root)
  case (Cons e es)
  have "bros (n_son (addSon root (Some (snd (entity_toJson g e))))) = bros (n_son root) @ [node_view (snd (entity_toJson g e))]"
    unfolding bros_addSon bros_alone [OF entity_toJson_alone] ..
  then show ?case using Cons by (simp add: add_parts_simps)
qed (simp add: add_parts_simps)

lemma entities_toJson_parts: "entities_toJson g es = add_parts g es (pick_root g es)"
  by (simp add: entities_toJson_def add_parts_def)

subsection \<open>Messages both ends agree on\<close>

lemma unwire_client: "unwire_json Some p = Some (client_json p)"
  by (induction p) (auto split: option.splits)

subsection \<open>Properties\<close>

text \<open>C36: the document of an insert statement. With \<open>e\<close> the last nameless group of fields, the document is
  an object of no name whose sons are the fields of \<open>e\<close> followed by the named parts of the statement, all
  in the order of the text; the fields of earlier nameless groups are dropped.\<close>

theorem statement_document:
  assumes "is_root e" "\<forall>x \<in> set es2. \<not> is_root x"
  shows "n_type (entities_toJson g (es1 @ e # es2)) = type_num TYPE_OBJECT \<and>
    n_key (entities_toJson g (es1 @ e # es2)) = nodeName e \<and>
    n_bro (entities_toJson g (es1 @ e # es2)) = None \<and>
    bros (n_son (entities_toJson g (es1 @ e # es2))) =
      map (node_view \<circ> field_toJson) (fieldListNode e) @
      map (node_view \<circ> snd \<circ> entity_toJson g) (filter (\<lambda>x. \<not> is_root x) (es1 @ es2))"
proof -
  have son: "bros (n_son (snd (entity_toJson g e))) = map (node_view \<circ> field_toJson) (fieldListNode e)"
    by (simp add: entity_toJson_def bros_fields)
  have "n_type (snd (entity_toJson g e)) = type_num TYPE_OBJECT" "n_key (snd (entity_toJson g e)) = nodeName e"
    by (simp_all add: entity_toJson_def)
  with add_parts_view [of g "es1 @ e # es2" "snd (entity_toJson g e)"] son assms(1) show ?thesis
    unfolding entities_toJson_parts pick_root_last [OF assms] by (simp add: entity_toJson_alone)
qed

definition sample_mem :: mem where
  "sample_mem = \<lparr>g_type = 7, g_int = 13, g_float = 0, g_bool = True\<rparr>"

definition sample_entities :: "EntityNode list" where
  "sample_entities =
     [EntityNode_root [FieldNode_ctor sample_mem [99] (FString [120])],
      EntityNode_named [110] [FieldNode_ctor sample_mem [108] (FString [82, 117])],
      EntityNode_root [FieldNode_ctor sample_mem [104] (FString [49])]]"

theorem statement_document_witness:
  "map (\<lambda>(t, k, _). k) (bros (n_son (entities_toJson sample_mem sample_entities))) = [[104], [110]]"
proof -
  let ?es1 = "take 2 sample_entities" and ?e = "sample_entities ! 2"
  have "is_root ?e" "sample_entities = ?es1 @ ?e # []"
    by (simp_all add: sample_entities_def EntityNode_root_def)
  with statement_document [of ?e "[]" sample_mem ?es1]
  have "bros (n_son (entities_toJson sample_mem sample_entities)) =
      map (node_view \<circ> field_toJson) (fieldListNode ?e) @
      map (node_view \<circ> snd \<circ> entity_toJson sample_mem) (filter (\<lambda>x. \<not> is_root x) (?es1 @ []))"
    by simp
  then show ?thesis
    by (simp add: sample_entities_def EntityNode_root_def EntityNode_named_def field_toJson_def FieldNode_mem_def entity_toJson_def)
qed

end
