(* ===== verification/Lexer.thy ===== *)
theory Lexer
  imports Client
begin

text \<open>
  \<^verbatim>\<open>GQLclient/lexer.l\<close>: the regular expressions of the lexer, the rules in their order, and the
  scanner these rules define. Flex generates the scanner from the rules; its documented
  behaviour is modelled: the rule with the longest match wins, among those the first, a character no rule
  matches is echoed, and with the option \<^verbatim>\<open>case-insensitive\<close> letters match in either case. The semantic
  values are given by \<^verbatim>\<open>Driver::yylex\<close>, the function \<open>yylex\<close> of \<open>Client\<close>.
\<close>

subsection \<open>Regular expressions\<close>

text \<open>A class is a list of ranges of characters.\<close>

type_synonym cls = "(char \<times> char) list"

datatype rexp = R_none | R_eps | R_set cls | R_not cls | R_seq rexp rexp | R_alt rexp rexp | R_star rexp

definition char_code :: "char \<Rightarrow> nat" where
  "char_code c = of_char c"

text \<open>The code of the other case of a letter.\<close>

definition swap_case :: "nat \<Rightarrow> nat" where
  "swap_case n = (if 65 \<le> n \<and> n \<le> 90 then n + 32 else if 97 \<le> n \<and> n \<le> 122 then n - 32 else n)"

definition in_class :: "char \<Rightarrow> cls \<Rightarrow> bool" where
  "in_class c cs \<longleftrightarrow> (\<exists>(a, b) \<in> set cs.
     (char_code a \<le> char_code c \<and> char_code c \<le> char_code b) \<or> (char_code a \<le> swap_case (char_code c) \<and> swap_case (char_code c) \<le> char_code b))"

inductive lang :: "rexp \<Rightarrow> string \<Rightarrow> bool" where
  lang_eps: "lang R_eps []"
| lang_set: "in_class c cs \<Longrightarrow> lang (R_set cs) [c]"
| lang_not: "\<not> in_class c cs \<Longrightarrow> lang (R_not cs) [c]"
| lang_seq: "lang r s \<Longrightarrow> lang q t \<Longrightarrow> lang (R_seq r q) (s @ t)"
| lang_alt1: "lang r s \<Longrightarrow> lang (R_alt r q) s"
| lang_alt2: "lang q s \<Longrightarrow> lang (R_alt r q) s"
| lang_star0: "lang (R_star r) []"
| lang_star: "lang r s \<Longrightarrow> s \<noteq> [] \<Longrightarrow> lang (R_star r) t \<Longrightarrow> lang (R_star r) (s @ t)"

inductive_simps lang_simps [simp]: "lang R_none s" "lang R_eps s" "lang (R_set cs) s" "lang (R_not cs) s" "lang (R_alt r q) s"

inductive_cases lang_seqE: "lang (R_seq r q) s"
inductive_cases lang_starE: "lang (R_star r) s"

fun nullable :: "rexp \<Rightarrow> bool" where
  "nullable R_none \<longleftrightarrow> False"
| "nullable R_eps \<longleftrightarrow> True"
| "nullable (R_set cs) \<longleftrightarrow> False"
| "nullable (R_not cs) \<longleftrightarrow> False"
| "nullable (R_seq r q) \<longleftrightarrow> nullable r \<and> nullable q"
| "nullable (R_alt r q) \<longleftrightarrow> nullable r \<or> nullable q"
| "nullable (R_star r) \<longleftrightarrow> True"

fun seq :: "rexp \<Rightarrow> rexp \<Rightarrow> rexp" where
  "seq R_none q = R_none"
| "seq R_eps q = q"
| "seq r q = R_seq r q"

fun alt :: "rexp \<Rightarrow> rexp \<Rightarrow> rexp" where
  "alt R_none q = q"
| "alt r R_none = r"
| "alt r q = R_alt r q"

fun deriv :: "char \<Rightarrow> rexp \<Rightarrow> rexp" where
  "deriv c R_none = R_none"
| "deriv c R_eps = R_none"
| "deriv c (R_set cs) = (if in_class c cs then R_eps else R_none)"
| "deriv c (R_not cs) = (if in_class c cs then R_none else R_eps)"
| "deriv c (R_seq r q) = (if nullable r then alt (seq (deriv c r) q) (deriv c q) else seq (deriv c r) q)"
| "deriv c (R_alt r q) = alt (deriv c r) (deriv c q)"
| "deriv c (R_star r) = seq (deriv c r) (R_star r)"

lemma nullable_lang: "nullable r \<longleftrightarrow> lang r []"
proof (induction r)
  case (R_seq r q)
  then show ?case by (auto elim: lang_seqE intro: lang_seq [of r "[]" q "[]", simplified])
qed (auto intro: lang.intros)

lemma lang_seq_fun: "lang (seq r q) s \<longleftrightarrow> lang (R_seq r q) s"
  by (cases r) (auto elim: lang_seqE intro: lang_seq [of R_eps "[]", simplified])

lemma lang_alt_fun [simp]: "lang (alt r q) s \<longleftrightarrow> lang r s \<or> lang q s"
  by (cases "(r, q)" rule: alt.cases) simp_all

lemma lang_seq_eq: "lang (R_seq r q) s \<longleftrightarrow> (\<exists>t u. s = t @ u \<and> lang r t \<and> lang q u)"
  by (blast elim: lang_seqE intro: lang_seq)

lemma lang_star_Cons: "lang (R_star r) (c # s) \<longleftrightarrow> (\<exists>t u. s = t @ u \<and> lang r (c # t) \<and> lang (R_star r) u)"
proof
  assume "lang (R_star r) (c # s)"
  then show "\<exists>t u. s = t @ u \<and> lang r (c # t) \<and> lang (R_star r) u"
    by (rule lang_starE) (auto simp: append_eq_Cons_conv Cons_eq_append_conv)
next
  assume "\<exists>t u. s = t @ u \<and> lang r (c # t) \<and> lang (R_star r) u"
  then obtain t u where "s = t @ u" "lang r (c # t)" "lang (R_star r) u" by blast
  then show "lang (R_star r) (c # s)" using lang_star [of r "c # t" u] by simp
qed

lemma lang_seq_Cons:
  "lang (R_seq r q) (c # s) \<longleftrightarrow>
    (lang r [] \<and> lang q (c # s)) \<or> (\<exists>t u. s = t @ u \<and> lang r (c # t) \<and> lang q u)"
  unfolding lang_seq_eq Cons_eq_append_conv by blast

lemma lang_deriv: "lang (deriv c r) s \<longleftrightarrow> lang r (c # s)"
proof (induction r arbitrary: s)
  case (R_seq r q)
  have seq: "lang (seq (deriv c r) q) s \<longleftrightarrow> (\<exists>t u. s = t @ u \<and> lang r (c # t) \<and> lang q u)" for s
    unfolding lang_seq_fun using R_seq.IH(1) by (blast elim: lang_seqE intro: lang_seq)
  then show ?case using R_seq.IH(2) by (auto simp: lang_seq_Cons nullable_lang)
next
  case (R_star r)
  have "lang (seq (deriv c r) (R_star r)) s \<longleftrightarrow> (\<exists>t u. s = t @ u \<and> lang r (c # t) \<and> lang (R_star r) u)"
    unfolding lang_seq_fun using R_star.IH by (blast elim: lang_seqE intro: lang_seq)
  then show ?case by (simp add: lang_star_Cons)
qed auto

text \<open>The length of the longest prefix a regular expression matches.\<close>

fun longest :: "rexp \<Rightarrow> string \<Rightarrow> nat option" where
  "longest R_none s = None"
| "longest r [] = (if nullable r then Some 0 else None)"
| "longest r (c # s) =
     (case longest (deriv c r) s of
        Some n \<Rightarrow> Some (Suc n)
      | None \<Rightarrow> if nullable r then Some 0 else None)"

lemma longest_Nil: "longest r [] = (if nullable r then Some 0 else None)"
  by (cases r) simp_all

lemma longest_none: "longest R_none s = None"
  by (cases s) simp_all

lemma longest_Cons:
  "longest r (c # s) =
     (case longest (deriv c r) s of Some n \<Rightarrow> Some (Suc n) | None \<Rightarrow> if nullable r then Some 0 else None)"
  by (cases r) (simp_all only: deriv.simps nullable.simps longest.simps longest_none option.case if_False)

lemma longest_matches: "longest r s = Some n \<Longrightarrow> n \<le> length s \<and> lang r (take n s)"
  by (induction s arbitrary: r n)
    (auto simp: longest_Nil longest_Cons nullable_lang lang_deriv [symmetric] split: option.splits if_splits)

lemma longest_reaches: "lang r (take m s) \<Longrightarrow> m \<le> length s \<Longrightarrow> \<exists>n \<ge> m. longest r s = Some n"
proof (induction s arbitrary: r m)
  case (Cons c s)
  show ?case
  proof (cases m)
    case 0
    then show ?thesis using Cons.prems by (simp add: longest_Cons nullable_lang split: option.split)
  next
    case (Suc k)
    then have "lang (deriv c r) (take k s)" "k \<le> length s" using Cons.prems by (simp_all add: lang_deriv)
    from Cons.IH [OF this] obtain n where "n \<ge> k" "longest (deriv c r) s = Some n" by blast
    then show ?thesis using Suc by (simp add: longest_Cons)
  qed
qed (simp add: longest_Nil nullable_lang)


subsection \<open>The rules\<close>

definition r_char :: "char \<Rightarrow> rexp" where
  "r_char c = R_set [(c, c)]"

definition r_string :: "string \<Rightarrow> rexp" where
  "r_string s = foldr (\<lambda>c r. seq (r_char c) r) s R_eps"

definition r_plus :: "rexp \<Rightarrow> rexp" where
  "r_plus r = R_seq r (R_star r)"

definition r_opt :: "rexp \<Rightarrow> rexp" where
  "r_opt r = R_alt r R_eps"

definition WS :: rexp where
  "WS = r_plus (R_set [(CHR '' '', CHR '' ''), (CHR 0x09, CHR 0x09), (CHR 0x0A, CHR 0x0A), (CHR 0x0B, CHR 0x0B)])"

definition DIGIT :: rexp where
  "DIGIT = R_set [(CHR ''0'', CHR ''9'')]"

definition DIGIT1 :: rexp where
  "DIGIT1 = R_set [(CHR ''1'', CHR ''9'')]"

definition WORD :: rexp where
  "WORD = R_seq (R_set [(CHR ''A'', CHR ''Z''), (CHR ''a'', CHR ''z'')])
     (R_star (R_set [(CHR ''A'', CHR ''Z''), (CHR ''a'', CHR ''z''), (CHR ''0'', CHR ''9''), (CHR ''_'', CHR ''_'')]))"

text \<open>A rule without a \<^verbatim>\<open>return\<close> has no token.\<close>

definition rules :: "(rexp \<times> token option) list" where
  "rules =
    [(WS, None),
     (R_alt (r_string ''GT'') (R_alt (r_string ''GE'') (R_alt (r_string ''LT'') (r_string ''LE''))), Some T_CMP),
     (r_string ''EQ'', Some T_EQ),
     (r_string ''IN'', Some T_IN),
     (R_seq (r_char CHR 0x22) (R_seq WORD (r_char CHR 0x22)), Some T_STRING),
     (R_seq (r_opt (r_char CHR ''-'')) (R_seq (R_alt (r_char CHR ''0'') (R_seq DIGIT1 (R_star DIGIT)))
        (R_seq (r_char CHR ''.'') (r_plus DIGIT))), Some T_FLOAT),
     (R_seq (r_opt (r_char CHR ''-'')) (R_seq DIGIT1 (R_star DIGIT)), Some T_INT),
     (R_alt (r_string ''true'') (r_string ''false''), Some T_BOOL),
     (r_string ''INSERT'', Some T_INSERT),
     (r_string ''UPDATE'', Some T_UPDATE),
     (r_string ''DELETE'', Some T_DELETE),
     (r_string ''SELECT'', Some T_SELECT),
     (WORD, Some T_WORD),
     (r_char CHR ''{'', Some T_LB),
     (r_char CHR ''}'', Some T_RB),
     (r_char CHR ''('', Some T_LP),
     (r_char CHR '')'', Some T_RP),
     (r_char CHR '':'', Some T_COLON),
     (R_not [(CHR 0x0A, CHR 0x0A)], Some T_ERR)]"

subsection \<open>The scanner\<close>

text \<open>The longest match wins, and of several rules with that match the first.\<close>

fun best_rule :: "(rexp \<times> 'a) list \<Rightarrow> string \<Rightarrow> (nat \<times> 'a) option" where
  "best_rule [] s = None"
| "best_rule ((r, a) # rs) s =
     (case (longest r s, best_rule rs s) of
        (None, b) \<Rightarrow> b
      | (Some n, None) \<Rightarrow> Some (n, a)
      | (Some n, Some (m, b)) \<Rightarrow> if m > n then Some (m, b) else Some (n, a))"

lemma best_rule_pos: "\<forall>(r, a) \<in> set rs. \<not> nullable r \<Longrightarrow> best_rule rs s = Some (n, a) \<Longrightarrow> 0 < n \<and> n \<le> length s"
proof (induction rs arbitrary: n a)
  case (Cons x rs)
  obtain r b where x: "x = (r, b)" by (cases x)
  have pos: "0 < k \<and> k \<le> length s" if "longest r s = Some k" for k
    using longest_matches [OF that] Cons.prems(1) x by (cases k) (auto simp: nullable_lang)
  show ?case using Cons x pos by (auto split: option.splits prod.splits if_splits)
qed simp

lemma rules_not_nullable: "\<forall>(r, a) \<in> set rules. \<not> nullable r"
  by (simp add: rules_def r_string_def r_char_def WS_def WORD_def r_plus_def DIGIT_def DIGIT1_def r_opt_def)

text \<open>
  The tokens of a text and their spellings. A character without a rule is echoed, which the properties
  below exclude.
\<close>

function lexemes :: "string \<Rightarrow> (token \<times> string) list" where
  "lexemes [] = []"
| "lexemes (c # s) =
     (case best_rule rules (c # s) of
        None \<Rightarrow> lexemes s
      | Some (n, None) \<Rightarrow> lexemes (drop n (c # s))
      | Some (n, Some t) \<Rightarrow> (t, take n (c # s)) # lexemes (drop n (c # s)))"
  by pat_completeness auto
termination
  by (relation "measure length") (auto dest!: best_rule_pos [OF rules_not_nullable])

end
