(* ===== verification/Printing.thy ===== *)
theory Printing
  imports Client
begin

text \<open>
  What the client writes for its user: numbers as text, the printed form \<^verbatim>\<open>repr\<close> of a statement's tree
  (\<^verbatim>\<open>GQLclient/Node.hpp\<close>) and of a document (\<^verbatim>\<open>operator<<\<close> in \<^verbatim>\<open>GQLclient/network/request.hpp\<close>). Text is
  bytes; the frame characters are those of the source in UTF-8. How a float is written is left to the
  parameters \<open>ftos\<close> (\<^verbatim>\<open>std::to_string\<close>) and \<open>fout\<close> (\<^verbatim>\<open>operator<<\<close>).
\<close>

subsection \<open>Numbers\<close>

definition digit :: "nat \<Rightarrow> char" where
  "digit n = char_of (48 + n)"

fun digits :: "nat \<Rightarrow> string" where
  "digits n = (if n < 10 then [digit n] else digits (n div 10) @ [digit (n mod 10)])"

declare digits.simps [simp del]

definition to_string :: "int \<Rightarrow> string" where
  "to_string n = (if n < 0 then CHR ''-'' # digits (nat (- n)) else digits (nat n))"

abbreviation number :: "int \<Rightarrow> u8 list" where
  "number n \<equiv> bytes (to_string n)"

definition flag :: "bool \<Rightarrow> u8 list" where
  "flag b = number (if b then 1 else 0)"

lemma digit_code [simp]: "n < 10 \<Longrightarrow> of_char (digit n) = (48 + n :: nat)"
  by (simp add: digit_def)

lemma digit_val:
  assumes "n < 10"
  shows "of_char (digit n) - 48 = int n"
proof -
  have "of_char (digit n) = int (of_char (digit n))" by (simp only: of_nat_of_char)
  then show ?thesis using assms by simp
qed

lemma digits_val_append: "digits_val (ds @ [c]) = 10 * digits_val ds + (of_char c - 48)"
  by (simp add: digits_val_def)

lemma digits_val_digits: "digits_val (digits n) = int n"
proof (induction n rule: digits.induct)
  case (1 n)
  show ?case
  proof (cases "n < 10")
    case True
    then show ?thesis using digit_val [of n] by (simp add: digits.simps [of n] digits_val_def)
  next
    case False
    then have "digits_val (digits n) = 10 * int (n div 10) + int (n mod 10)"
      using 1 digit_val [of "n mod 10"] by (simp add: digits.simps [of n] digits_val_append)
    then show ?thesis by (simp add: zdiv_int zmod_int)
  qed
qed


lemma digits_not_minus: "c \<in> set (digits n) \<Longrightarrow> 48 \<le> (of_char c :: nat) \<and> (of_char c :: nat) \<le> 57"
proof (induction n arbitrary: c rule: digits.induct)
  case (1 n)
  show ?case
  proof (cases "n < 10")
    case True
    then show ?thesis using 1(2) by (simp add: digits.simps [of n])
  next
    case False
    then show ?thesis using 1 by (auto simp: digits.simps [of n])
  qed
qed

lemma digits_not_empty [simp]: "digits n \<noteq> []"
  by (simp add: digits.simps [of n])

text \<open>The number is read back, if it is an \<^verbatim>\<open>int\<close>.\<close>

lemma stoi_to_string: "stoi (to_string n) = (if - 2147483648 \<le> n \<and> n < 2147483648 then Some n else None)"
proof (cases "n < 0")
  case True
  then show ?thesis by (simp add: stoi_def to_string_def digits_val_digits Let_def)
next
  case False
  obtain c ds where d: "digits (nat n) = c # ds" using digits_not_empty by (cases "digits (nat n)") blast+
  have "c \<noteq> CHR ''-''" using digits_not_minus [of c "nat n"] d by auto
  then show ?thesis using False digits_val_digits [of "nat n"] by (simp add: stoi_def to_string_def d Let_def)
qed

subsection \<open>The tree of a statement: repr\<close>

abbreviation last_mark :: "u8 list" where
  "last_mark \<equiv> [0xE2, 0x94, 0x94, 0xE2, 0x94, 0x80]"

abbreviation more_mark :: "u8 list" where
  "more_mark \<equiv> [0xE2, 0x94, 0x9C, 0xE2, 0x94, 0x80]"

abbreviation nl :: "u8 list" where
  "nl \<equiv> [10]"

definition offset :: "nat \<Rightarrow> u8 list" where
  "offset level = replicate level 9"

definition field_value_repr :: "(u32 \<Rightarrow> u8 list) \<Rightarrow> 'a FieldNode_scheme \<Rightarrow> u8 list" where
  "field_value_repr ftos x =
     (if f_type x = type_num TYPE_STRING then f_str_value x
      else if f_type x = type_num TYPE_INT32 then number (sint (f_int_value x))
      else if f_type x = type_num TYPE_FLOAT then ftos (f_float_value x)
      else if f_type x = type_num TYPE_BOOL then flag (f_bool_value x)
      else [])"

definition field_repr :: "(u32 \<Rightarrow> u8 list) \<Rightarrow> FieldNode \<Rightarrow> u8 list" where
  "field_repr ftos x = bytes ''GQLField name: '' @ f_name x @ 9 # bytes ''value: '' @ field_value_repr ftos x"

definition field_list_repr :: "(u32 \<Rightarrow> u8 list) \<Rightarrow> nat \<Rightarrow> FieldNode list \<Rightarrow> u8 list" where
  "field_list_repr ftos level xs =
     bytes ''GQLFieldList'' @ concat (map (\<lambda>x. nl @ offset level @ last_mark @ field_repr ftos x) xs)"

definition property_repr :: "(u32 \<Rightarrow> u8 list) \<Rightarrow> PropertyNode \<Rightarrow> u8 list" where
  "property_repr ftos x =
     bytes ''GQLProperty name: '' @ f_name x @ 9 # bytes ''Operation: '' @ number (uint (cmp_num (f_cmp x))) @
     9 # bytes ''value: '' @ field_value_repr ftos x"

definition property_list_repr :: "(u32 \<Rightarrow> u8 list) \<Rightarrow> nat \<Rightarrow> PropertyNode list \<Rightarrow> u8 list" where
  "property_list_repr ftos level xs =
     bytes ''GQLPropertyList'' @ concat (map (\<lambda>x. nl @ offset level @ last_mark @ property_repr ftos x) xs)"

definition condition_repr :: "(u32 \<Rightarrow> u8 list) \<Rightarrow> nat \<Rightarrow> PropertyNode list \<Rightarrow> u8 list" where
  "condition_repr ftos level xs =
     bytes ''GQLCondition'' @ nl @ offset level @ last_mark @ property_list_repr ftos (level + 1) xs"

definition entity_repr :: "(u32 \<Rightarrow> u8 list) \<Rightarrow> nat \<Rightarrow> EntityNode \<Rightarrow> u8 list" where
  "entity_repr ftos level e =
     bytes ''GQLEntity'' @
     nl @ offset level @ more_mark @ bytes ''GQLEntityIsRoot '' @ flag (is_root e) @
     nl @ offset level @ more_mark @ bytes ''GQLEntityName '' @ nodeName e @
     nl @ offset level @ last_mark @ field_list_repr ftos (level + 1) (fieldListNode e)"

definition entity_list_repr :: "(u32 \<Rightarrow> u8 list) \<Rightarrow> nat \<Rightarrow> EntityNode list \<Rightarrow> u8 list" where
  "entity_list_repr ftos level es =
     bytes ''GQLEntityList'' @ concat (map (\<lambda>e. nl @ offset level @ last_mark @ entity_repr ftos (level + 1) e) es)"

definition condition_body_repr :: "(u32 \<Rightarrow> u8 list) \<Rightarrow> nat \<Rightarrow> ConditionBodyNode \<Rightarrow> u8 list" where
  "condition_body_repr ftos level c =
     bytes ''GQLConditionBody'' @
     nl @ offset level @ more_mark @ bytes ''GQLWord '' @ cb_typeName c @
     nl @ offset level @ last_mark @ condition_repr ftos (level + 1) (cb_condition c)"

definition entity_body_repr :: "(u32 \<Rightarrow> u8 list) \<Rightarrow> nat \<Rightarrow> EntityBodyNode \<Rightarrow> u8 list" where
  "entity_body_repr ftos level e =
     bytes ''GQLEntityBody'' @
     nl @ offset level @ more_mark @ bytes ''GQLWord '' @ eb_typeName e @
     nl @ offset level @ last_mark @ entity_list_repr ftos (level + 1) (eb_entityList e)"

fun query_repr :: "(u32 \<Rightarrow> u8 list) \<Rightarrow> nat \<Rightarrow> QueryNode \<Rightarrow> u8 list" where
  "query_repr ftos level (InsertQueryNode cmd e) =
     bytes ''GQLInsertQuery'' @ nl @ more_mark @ bytes ''GQLCommand '' @ number (uint (command_num cmd)) @
     nl @ last_mark @ entity_body_repr ftos (level + 1) e"
| "query_repr ftos level (SelectQueryNode cmd c) =
     bytes ''GQLSelectQuery'' @ nl @ more_mark @ bytes ''GQLCommand '' @ number (uint (command_num cmd)) @
     nl @ last_mark @ condition_body_repr ftos (level + 1) c"
| "query_repr ftos level (DeleteQueryNode cmd c) =
     bytes ''GQLDeleteQuery'' @ nl @ more_mark @ bytes ''GQLCommand '' @ number (uint (command_num cmd)) @
     nl @ last_mark @ condition_body_repr ftos (level + 1) c"
| "query_repr ftos level (UpdateQueryNode cmd c e) =
     bytes ''GQLUpdateQuery'' @ nl @ more_mark @ bytes ''GQLCommand '' @ number (uint (command_num cmd)) @
     nl @ more_mark @ condition_body_repr ftos (level + 1) c @
     nl @ last_mark @ entity_body_repr ftos (level + 1) e"

subsection \<open>Documents: operator <<\<close>

definition out_value :: "(u32 \<Rightarrow> u8 list) \<Rightarrow> u32 \<Rightarrow> u32 \<Rightarrow> u32 \<Rightarrow> u8 list \<Rightarrow> bool \<Rightarrow> u8 list" where
  "out_value fout t i f s b =
     (if t = type_num TYPE_INT32 then bytes ''Value:'' @ 9 # number (sint i) @ nl
      else if t = type_num TYPE_BOOL then bytes ''Value:'' @ 9 # flag b @ nl
      else if t = type_num TYPE_FLOAT then bytes ''Value:'' @ 9 # fout f @ nl
      else if t = type_num TYPE_STRING then bytes ''Value:'' @ 9 # s @ nl
      else if t = type_num TYPE_OBJECT then bytes ''OBJECT'' @ nl
      else [])"

text \<open>It writes to the standard output whatever stream it is given; first the brothers, then the sons.\<close>

fun out_json :: "(u32 \<Rightarrow> u8 list) \<Rightarrow> u32 NJson \<Rightarrow> u8 list" where
  "out_json fout (NJson t k i f s b dad bro son) =
     bytes ''Key:'' @ 9 # k @ 9 # out_value fout t i f s b @
     (case bro of None \<Rightarrow> [] | Some j \<Rightarrow> out_json fout j @ nl) @
     (case son of None \<Rightarrow> [] | Some j \<Rightarrow> out_json fout j @ nl)"

end
