(* ===== verification/Lexer_Spec.thy ===== *)
theory Lexer_Spec
  imports Lexer Printing
begin

text \<open>
  What the rules of the lexer make of a text: each step takes the longest phrase any rule has, no character is
  echoed, texts with blanks between the spellings of tokens are read back token by token, and the
  spellings of \<^verbatim>\<open>INT\<close> are those of the integers other than zero.
\<close>

subsection \<open>Characters a rule can use\<close>

fun may :: "char \<Rightarrow> rexp \<Rightarrow> bool" where
  "may c R_none \<longleftrightarrow> False"
| "may c R_eps \<longleftrightarrow> False"
| "may c (R_set cs) \<longleftrightarrow> in_class c cs"
| "may c (R_not cs) \<longleftrightarrow> \<not> in_class c cs"
| "may c (R_seq r q) \<longleftrightarrow> may c r \<or> may c q"
| "may c (R_alt r q) \<longleftrightarrow> may c r \<or> may c q"
| "may c (R_star r) \<longleftrightarrow> may c r"

fun starts :: "char \<Rightarrow> rexp \<Rightarrow> bool" where
  "starts c R_none \<longleftrightarrow> False"
| "starts c R_eps \<longleftrightarrow> False"
| "starts c (R_set cs) \<longleftrightarrow> in_class c cs"
| "starts c (R_not cs) \<longleftrightarrow> \<not> in_class c cs"
| "starts c (R_seq r q) \<longleftrightarrow> starts c r \<or> (nullable r \<and> starts c q)"
| "starts c (R_alt r q) \<longleftrightarrow> starts c r \<or> starts c q"
| "starts c (R_star r) \<longleftrightarrow> starts c r"

lemma seq_none: "seq R_none q = R_none" "seq r R_none = R_none \<Longrightarrow> seq r R_none = R_none"
  by simp_all

lemma alt_none [simp]: "alt r R_none = r"
  by (cases r) simp_all

lemma not_starts_deriv: "\<not> starts c r \<Longrightarrow> deriv c r = R_none"
  by (induction r) simp_all

lemma not_may_starts: "\<not> may c r \<Longrightarrow> \<not> starts c r"
  by (induction r) auto

lemma may_seq [simp]: "may c (seq r q) \<Longrightarrow> may c r \<or> may c q"
  by (cases r) auto

lemma may_alt: "may c (alt r q) \<Longrightarrow> may c r \<or> may c q"
  by (cases "(r, q)" rule: alt.cases) auto

lemma may_deriv: "may c (deriv d r) \<Longrightarrow> may c r"
  by (induction r) (auto split: if_splits dest!: may_alt may_seq)

lemma longest_not_starts: "\<not> starts c r \<Longrightarrow> longest r (c # s) = (if nullable r then Some 0 else None)"
  by (simp add: longest_Cons not_starts_deriv longest_none)

lemma longest_stops: "\<not> may c r \<Longrightarrow> longest r (x @ c # s) = longest r x"
proof (induction x arbitrary: r)
  case Nil
  then show ?case by (simp add: longest_not_starts not_may_starts longest_Nil)
next
  case (Cons d x)
  then have "\<not> may c (deriv d r)" using may_deriv by blast
  then show ?case by (simp add: longest_Cons Cons.IH)
qed

lemma longest_eps [simp]: "longest R_eps s = Some 0"
  by (cases s) (simp_all add: longest_none)

lemma longest_not_Cons: "longest (R_not cs) (c # s) = (if in_class c cs then None else Some 1)"
  by (simp add: longest_none)

lemma best_rule_cong: "\<forall>(r, a) \<in> set rs. longest r s = longest r s' \<Longrightarrow> best_rule rs s = best_rule rs s'"
  by (induction rs) auto

lemma best_rule_skip: "\<forall>(r, a) \<in> set us. longest r s = None \<Longrightarrow> best_rule (us @ vs) s = best_rule vs s"
  by (induction us) auto

subsection \<open>Blanks\<close>

definition blank :: "char \<Rightarrow> bool" where
  "blank c \<longleftrightarrow> c \<in> {CHR '' '', CHR 0x09, CHR 0x0A, CHR 0x0B}"

lemmas rule_defs = rules_def r_string_def r_char_def WS_def WORD_def r_plus_def DIGIT_def DIGIT1_def r_opt_def
  in_class_def char_code_def swap_case_def

lemma char_eq_code: "c = d \<longleftrightarrow> of_char c = (of_char d :: nat)"
  by simp

lemma blank_class: "in_class c [(CHR '' '', CHR '' ''), (CHR 0x09, CHR 0x09), (CHR 0x0A, CHR 0x0A), (CHR 0x0B, CHR 0x0B)] \<longleftrightarrow> blank c"
  unfolding blank_def in_class_def char_code_def swap_case_def insert_iff empty_iff char_eq_code by simp arith

lemma longest_star_class: "longest (R_star (R_set cs)) s = Some (length (takeWhile (\<lambda>c. in_class c cs) s))"
proof (induction s)
  case (Cons c s)
  then show ?case by (simp add: longest_Cons longest_none del: longest.simps(2,3))
qed simp

lemma longest_WS:
  "longest WS (c # s) = (if blank c then Some (Suc (length (takeWhile blank s))) else None)"
  by (simp add: WS_def r_plus_def longest_Cons longest_none longest_star_class blank_class del: longest.simps(2,3))

text \<open>The rules besides those for blanks and for errors.\<close>

lemma inner_rules: "rules = (WS, None) # butlast (tl rules) @ [(R_not [(CHR 0x0A, CHR 0x0A)], Some T_ERR)]"
  by (simp add: rules_def)

lemma inner_not_blank: "blank c \<Longrightarrow> (r, a) \<in> set (butlast (tl rules)) \<Longrightarrow> \<not> may c r"
  unfolding blank_def by (auto simp: rule_defs)


lemma err_rule: "x \<noteq> [] \<Longrightarrow> longest (R_not cs) (x @ s) = longest (R_not cs) x"
  by (cases x) (simp_all add: longest_none del: longest.simps(2,3) add: longest_Cons)

lemma best_rule_blank_behind:
  assumes "x \<noteq> []" "\<not> blank (hd x)" "blank c"
  shows "best_rule rules (x @ c # s) = best_rule rules x"
proof (rule best_rule_cong, clarify)
  fix r a
  assume "(r, a) \<in> set rules"
  then consider "r = WS" | "(r, a) \<in> set (butlast (tl rules))" | "r = R_not [(CHR 0x0A, CHR 0x0A)]"
    by (subst (asm) inner_rules) auto
  then show "longest r (x @ c # s) = longest r x"
  proof cases
    case 1
    then show ?thesis using assms(1,2) by (cases x) (simp_all add: longest_WS)
  next
    case 2
    then show ?thesis using longest_stops inner_not_blank assms(3) by blast
  next
    case 3
    then show ?thesis using assms(1) by (simp add: err_rule)
  qed
qed

lemma best_rule_blank:
  assumes "blank c"
  shows "best_rule rules (c # s) = Some (Suc (length (takeWhile blank s)), None)"
proof -
  have inner: "longest r (c # s) = None" if "(r, a) \<in> set (butlast (tl rules))" for r a
  proof -
    have "(r, a) \<in> set rules" using that by (subst inner_rules) simp
    then have "\<not> starts c r" "\<not> nullable r"
      using inner_not_blank [OF assms that] not_may_starts rules_not_nullable by auto
    then show ?thesis by (simp add: longest_not_starts del: longest.simps(2,3))
  qed
  have "best_rule (butlast (tl rules) @ [(R_not [(CHR 0x0A, CHR 0x0A)], Some T_ERR)]) (c # s) =
      best_rule [(R_not [(CHR 0x0A, CHR 0x0A)], Some T_ERR)] (c # s)"
    using inner by (intro best_rule_skip) auto
  then show ?thesis
    by (subst inner_rules) (auto simp: longest_WS longest_not_Cons assms simp del: longest.simps(2,3))
qed

lemma lexemes_blank: "blank c \<Longrightarrow> lexemes (c # s) = lexemes s"
proof (induction s)
  case Nil
  then show ?case by (simp add: best_rule_blank)
next
  case (Cons d s)
  show ?case
  proof (cases "blank d")
    case True
    then show ?thesis using Cons by (simp add: best_rule_blank)
  next
    case False
    then show ?thesis using Cons by (simp add: best_rule_blank)
  qed
qed

lemma lexemes_blanks: "\<forall>c \<in> set w. blank c \<Longrightarrow> lexemes (w @ s) = lexemes s"
  by (induction w) (simp_all add: lexemes_blank del: lexemes.simps(2))


subsection \<open>The longest match\<close>

lemma longest_iff:
  "longest r s = Some n \<longleftrightarrow> n \<le> length s \<and> lang r (take n s) \<and> (\<forall>m \<le> length s. lang r (take m s) \<longrightarrow> m \<le> n)"
  (is "?l \<longleftrightarrow> ?r")
proof
  assume l: ?l
  then have "m \<le> n" if "m \<le> length s" "lang r (take m s)" for m
    using longest_reaches [OF that(2,1)] by auto
  with longest_matches [OF l] show ?r by blast
next
  assume r: ?r
  then obtain k where k: "n \<le> k" "longest r s = Some k" using longest_reaches by blast
  with longest_matches [OF k(2)] r show ?l by (metis order.antisym)
qed

lemma longest_none_iff: "longest r s = None \<longleftrightarrow> (\<forall>m \<le> length s. \<not> lang r (take m s))"
  using longest_reaches longest_matches by (metis not_None_eq)

lemma best_rule_None: "best_rule rs s = None \<longleftrightarrow> (\<forall>(r, a) \<in> set rs. longest r s = None)"
  by (induction rs s rule: best_rule.induct) (auto split: option.splits if_splits)

lemma best_rule_mem: "best_rule rs s = Some (n, a) \<Longrightarrow> \<exists>r. (r, a) \<in> set rs \<and> longest r s = Some n"
  by (induction rs s rule: best_rule.induct) (fastforce split: option.splits if_splits)+

lemma best_rule_max: "best_rule rs s = Some (n, a) \<Longrightarrow> (r, b) \<in> set rs \<Longrightarrow> longest r s = Some m \<Longrightarrow> m \<le> n"
proof (induction rs s arbitrary: n a rule: best_rule.induct)
  case (2 q c rs s)
  then show ?case
    by (cases "best_rule rs s") (auto simp: best_rule_None split: option.splits if_splits dest: order_trans [OF _ less_imp_le])
qed simp

lemma best_rule_first:
  assumes "longest r s = Some n" "\<forall>(q, b) \<in> set us. \<forall>m. longest q s = Some m \<longrightarrow> m < n"
    "\<forall>(q, b) \<in> set vs. \<forall>m. longest q s = Some m \<longrightarrow> m \<le> n"
  shows "best_rule (us @ (r, a) # vs) s = Some (n, a)"
  using assms(2)
proof (induction us)
  case Nil
  have "m \<le> n" if "best_rule vs s = Some (m, b)" for m b
    using best_rule_mem [OF that] assms(3) by auto
  then show ?case using assms(1) by (cases "best_rule vs s") auto
next
  case (Cons x us)
  then show ?case by (cases x) (auto split: option.split)
qed

lemma best_rule_split:
  "best_rule rs s = Some (n, a) \<Longrightarrow>
    \<exists>us r vs. rs = us @ (r, a) # vs \<and> longest r s = Some n \<and> (\<forall>(q, b) \<in> set us. \<forall>m. longest q s = Some m \<longrightarrow> m < n)"
proof (induction rs arbitrary: n a)
  case (Cons x rs)
  obtain q b where x: "x = (q, b)" by (cases x)
  show ?case
  proof (cases "longest q s = Some n \<and> b = a")
    case True
    then show ?thesis using x by (intro exI [of _ "[]"] exI [of _ q] exI [of _ rs]) simp
  next
    case False
    then have rest: "best_rule rs s = Some (n, a)" and less: "\<forall>m. longest q s = Some m \<longrightarrow> m < n"
      using Cons.prems by (auto simp: x split: option.splits if_splits)
    from Cons.IH [OF rest] obtain us r vs where
      "rs = us @ (r, a) # vs" "longest r s = Some n" "\<forall>(q, b) \<in> set us. \<forall>m. longest q s = Some m \<longrightarrow> m < n" by blast
    then show ?thesis using less x by (intro exI [of _ "x # us"] exI [of _ r] exI [of _ vs]) simp
  qed
qed simp

lemma newline_class: "in_class c [(CHR 0x0A, CHR 0x0A)] \<Longrightarrow> blank c"
  unfolding blank_def in_class_def char_code_def swap_case_def insert_iff empty_iff char_eq_code by simp arith

lemma scan_total:
  assumes "s \<noteq> []"
  shows "best_rule rules s \<noteq> None"
proof -
  obtain c s' where s: "s = c # s'" using assms by (cases s) auto
  have "longest WS s \<noteq> None \<or> longest (R_not [(CHR 0x0A, CHR 0x0A)]) s \<noteq> None"
    using newline_class [of c] by (auto simp: s longest_WS longest_not_Cons simp del: longest.simps(2,3))
  then show ?thesis unfolding best_rule_None by (subst inner_rules) auto
qed

lemma best_rule_whole:
  assumes "rules = us @ (r, a) # vs" "lang r s" "\<forall>(q, b) \<in> set us. \<not> lang q s"
  shows "best_rule rules s = Some (length s, a)"
proof -
  have r: "longest r s = Some (length s)" using assms(2) by (simp add: longest_iff)
  have le: "m \<le> length s" if "longest q s = Some m" for q m using longest_matches [OF that] by simp
  have "m < length s" if "(q, b) \<in> set us" "longest q s = Some m" for q b m
    using le [OF that(2)] longest_matches [OF that(2)] assms(3) that(1) by (cases "m = length s") auto
  with le show ?thesis unfolding assms(1) by (intro best_rule_first [OF r]) auto
qed

definition spelled :: "token \<Rightarrow> string \<Rightarrow> bool" where
  "spelled t x \<longleftrightarrow> best_rule rules x = Some (length x, Some t) \<and> \<not> blank (hd x)"

lemma lexemes_by_blanks:
  assumes "\<forall>(t, x, w) \<in> set ls. spelled t x \<and> w \<noteq> [] \<and> (\<forall>c \<in> set w. blank c)"
  shows "lexemes (concat (map (\<lambda>(t, x, w). x @ w) ls)) = map (\<lambda>(t, x, w). (t, x)) ls"
  using assms
proof (induction ls)
  case (Cons l ls)
  obtain t x w where l: "l = (t, x, w)" by (cases l) auto
  then have sp: "spelled t x" and w: "w \<noteq> []" "\<forall>c \<in> set w. blank c" using Cons.prems by auto
  obtain c w' where w': "w = c # w'" using w(1) by (cases w) auto
  let ?s = "concat (map (\<lambda>(t, x, w). x @ w) ls)"
  have "x \<noteq> []" using sp best_rule_pos [OF rules_not_nullable] by (auto simp: spelled_def)
  then obtain d y where x: "x = d # y" by (cases x) auto
  have "best_rule rules (x @ c # w' @ ?s) = Some (length x, Some t)"
    using sp \<open>x \<noteq> []\<close> w by (simp add: best_rule_blank_behind spelled_def w')
  then have "lexemes (x @ w @ ?s) = (t, x) # lexemes (w @ ?s)" by (simp add: x w')
  also have "\<dots> = (t, x) # lexemes ?s" using lexemes_blanks [OF w(2)] by simp
  finally show ?case using Cons by (simp add: l)
qed simp

subsection \<open>Properties\<close>

text \<open>C37: a step of the scanner. It takes \<open>n\<close> characters for a rule if and only if these \<open>n\<close>
  are in the language of the rule, no rule has a longer prefix of the text in its language, and no
  earlier rule has this one; and at every text that is not empty some rule applies, so that the scanner
  echoes nothing.\<close>

theorem scan_longest_first:
  "(best_rule rules s = Some (n, a) \<longleftrightarrow>
     (\<exists>us r vs. rules = us @ (r, a) # vs \<and> n \<le> length s \<and> lang r (take n s) \<and>
        (\<forall>(q, b) \<in> set rules. \<forall>m \<le> length s. lang q (take m s) \<longrightarrow> m \<le> n) \<and>
        (\<forall>(q, b) \<in> set us. \<not> lang q (take n s)))) \<and>
   (s \<noteq> [] \<longrightarrow> best_rule rules s \<noteq> None)"
proof (intro conjI impI scan_total)
  show "best_rule rules s = Some (n, a) \<longleftrightarrow>
     (\<exists>us r vs. rules = us @ (r, a) # vs \<and> n \<le> length s \<and> lang r (take n s) \<and>
        (\<forall>(q, b) \<in> set rules. \<forall>m \<le> length s. lang q (take m s) \<longrightarrow> m \<le> n) \<and>
        (\<forall>(q, b) \<in> set us. \<not> lang q (take n s)))" (is "?l \<longleftrightarrow> ?r")
  proof
    assume l: ?l
    then obtain us r vs where rs: "rules = us @ (r, a) # vs" "longest r s = Some n"
        "\<forall>(q, b) \<in> set us. \<forall>m. longest q s = Some m \<longrightarrow> m < n" using best_rule_split [OF l] by blast
    have le: "m \<le> n" if "(q, b) \<in> set rules" "m \<le> length s" "lang q (take m s)" for q b m
      using longest_reaches [OF that(3,2)] best_rule_max [OF l that(1)] by auto
    have "\<not> lang q (take n s)" if "(q, b) \<in> set us" for q b
      using longest_reaches [of q n s] longest_matches [OF rs(2)] rs(3) that by fastforce
    with rs(1) longest_matches [OF rs(2)] le show ?r by blast
  next
    assume ?r
    then obtain us r vs where rs: "rules = us @ (r, a) # vs" "n \<le> length s" "lang r (take n s)"
        and le: "\<And>q b m. (q, b) \<in> set rules \<Longrightarrow> m \<le> length s \<Longrightarrow> lang q (take m s) \<Longrightarrow> m \<le> n"
        and not: "\<And>q b. (q, b) \<in> set us \<Longrightarrow> \<not> lang q (take n s)" by blast
    have max: "m \<le> n" if "(q, b) \<in> set rules" "longest q s = Some m" for q b m
      using longest_matches [OF that(2)] le [OF that(1)] by blast
    have "(r, a) \<in> set rules" by (simp add: rs(1))
    from le [OF this] rs(2,3) have "longest r s = Some n" by (simp add: longest_iff)
    moreover have "m < n" if "(q, b) \<in> set us" "longest q s = Some m" for q b m
    proof -
      have "(q, b) \<in> set rules" using that(1) by (simp add: rs(1))
      from max [OF this that(2)] longest_matches [OF that(2)] not [OF that(1)] show ?thesis
        by (cases "m = n") auto
    qed
    moreover have "m \<le> n" if "(q, b) \<in> set vs" "longest q s = Some m" for q b m
    proof -
      have "(q, b) \<in> set rules" using that(1) by (simp add: rs(1))
      then show ?thesis using max that(2) by blast
    qed
    ultimately show ?l unfolding rs(1) by (intro best_rule_first) auto
  qed
qed

theorem scan_longest_first_witness: "\<exists>us r vs. rules = us @ (r, Some T_LB) # vs \<and> lang r ''{''"
proof -
  have "best_rule rules ''{ }'' = Some (1, Some T_LB)" by code_simp
  with scan_longest_first [of "''{ }''" 1 "Some T_LB"] have "\<exists>us r vs. rules = us @ (r, Some T_LB) # vs \<and> lang r (take 1 ''{ }'')"
    by blast
  then show ?thesis by simp
qed

text \<open>The scanner reads a text back. If each of the spellings \<open>x\<close> is, alone, one token \<open>t\<close>, and
  they are written one after the other with blanks behind each, the tokens of the text are these.\<close>

theorem lexemes_spaced:
  assumes "\<forall>(t, x, w) \<in> set ls. spelled t x \<and> w \<noteq> [] \<and> (\<forall>c \<in> set w. blank c)"
  shows "lexemes (concat (map (\<lambda>(t, x, w). x @ w) ls)) = map (\<lambda>(t, x, w). (t, x)) ls"
  using assms by (rule lexemes_by_blanks)

theorem lexemes_spaced_witness:
  "lexemes ''height : -150
 '' = [(T_WORD, ''height''), (T_COLON, '':''), (T_INT, ''-150'')]"
proof -
  have "spelled T_WORD ''height''" "spelled T_COLON '':''" "spelled T_INT ''-150''"
    by (simp_all add: spelled_def blank_def) code_simp+
  then have "\<forall>(t, x, w) \<in> set [(T_WORD, ''height'', '' ''), (T_COLON, '':'', '' ''), (T_INT, ''-150'', [CHR 0x0A, CHR '' ''])].
      spelled t x \<and> w \<noteq> [] \<and> (\<forall>c \<in> set w. blank c)"
    by (simp add: blank_def)
  from lexemes_spaced [OF this] show ?thesis by simp
qed


subsection \<open>Integers\<close>

lemma lang_star_class: "lang (R_star (R_set cs)) s \<longleftrightarrow> (\<forall>c \<in> set s. in_class c cs)"
proof (induction s)
  case (Cons c s)
  have "lang (R_star (R_set cs)) (c # s) \<longleftrightarrow> in_class c cs \<and> lang (R_star (R_set cs)) s"
    by (simp add: lang_star_Cons)
  then show ?case using Cons by simp
qed (simp add: lang_star0)

definition INT_rule :: rexp where
  "INT_rule = R_seq (r_opt (r_char CHR ''-'')) (R_seq DIGIT1 (R_star DIGIT))"

lemma code_digit: "n < 10 \<Longrightarrow> char_code (digit n) = 48 + n"
  by (simp add: char_code_def)

lemma digit_class: "n < 10 \<Longrightarrow> in_class (digit n) [(CHR ''0'', CHR ''9'')]"
  "n < 10 \<Longrightarrow> n \<noteq> 0 \<Longrightarrow> in_class (digit n) [(CHR ''1'', CHR ''9'')]"
  by (simp_all add: in_class_def code_digit) (simp_all add: char_code_def)

lemma digits_split:
  "0 < n \<Longrightarrow> \<exists>d ds. digits n = d # ds \<and> in_class d [(CHR ''1'', CHR ''9'')] \<and>
    (\<forall>c \<in> set ds. in_class c [(CHR ''0'', CHR ''9'')])"
proof (induction n rule: digits.induct)
  case (1 n)
  show ?case
  proof (cases "n < 10")
    case True
    then show ?thesis using 1(2) digit_class(2) [of n] by (simp add: digits.simps [of n])
  next
    case False
    then have "0 < n div 10" by (simp add: div_greater_zero_iff)
    then show ?thesis using 1 False digit_class(1) [of "n mod 10"] by (auto simp: digits.simps [of n])
  qed
qed

lemma lang_digits: "0 < n \<Longrightarrow> lang (R_seq DIGIT1 (R_star DIGIT)) (digits n)"
proof -
  assume "0 < n"
  then obtain d ds where "digits n = d # ds" "in_class d [(CHR ''1'', CHR ''9'')]"
      "\<forall>c \<in> set ds. in_class c [(CHR ''0'', CHR ''9'')]" using digits_split by blast
  then show ?thesis
    using lang_seq [OF lang_set, of d _ "R_star DIGIT" ds] by (simp add: DIGIT1_def DIGIT_def lang_star_class)
qed

lemma lang_int: "n \<noteq> 0 \<Longrightarrow> lang INT_rule (to_string n)"
proof (cases "n < 0")
  case True
  have "lang (r_opt (r_char CHR ''-'')) ''-''" by (simp add: r_opt_def r_char_def in_class_def)
  from lang_seq [OF this lang_digits [of "nat (- n)"]] True show ?thesis
    by (simp add: INT_rule_def to_string_def)
next
  case False
  assume "n \<noteq> 0"
  have "lang (r_opt (r_char CHR ''-'')) []" by (simp add: r_opt_def)
  from lang_seq [OF this lang_digits [of "nat n"]] False \<open>n \<noteq> 0\<close> show ?thesis
    by (simp add: INT_rule_def to_string_def)
qed

text \<open>The rules before that of \<^verbatim>\<open>INT\<close> need a character a decimal number lacks.\<close>

lemma lang_may: "lang r s \<Longrightarrow> c \<in> set s \<Longrightarrow> may c r"
  by (induction rule: lang.induct) auto

lemma lang_starts: "lang r (c # s) \<Longrightarrow> starts c r"
proof (rule ccontr)
  assume "lang r (c # s)" "\<not> starts c r"
  then have "lang R_none s" using lang_deriv [of c r s] by (simp add: not_starts_deriv)
  then show False by simp
qed

definition decimal :: "char \<Rightarrow> bool" where
  "decimal c \<longleftrightarrow> char_code c = 45 \<or> (48 \<le> char_code c \<and> char_code c \<le> 57)"

lemma to_string_decimal: "c \<in> set (to_string n) \<Longrightarrow> decimal c"
  using digits_not_minus [of c] by (auto simp: to_string_def decimal_def char_code_def split: if_splits)

lemma FLOAT_point:
  assumes "lang (R_seq (r_opt (r_char CHR ''-'')) (R_seq (R_alt (r_char CHR ''0'') (R_seq DIGIT1 (R_star DIGIT)))
        (R_seq (r_char CHR ''.'') (r_plus DIGIT)))) s"
  shows "\<exists>c \<in> set s. \<not> decimal c"
proof -
  have "\<exists>c \<in> set s. in_class c [(CHR ''.'', CHR ''.'')]"
    using assms unfolding lang_seq_eq r_char_def by auto
  moreover have "\<not> decimal c" if "in_class c [(CHR ''.'', CHR ''.'')]" for c
    using that by (auto simp: in_class_def decimal_def char_code_def swap_case_def split: if_splits)
  ultimately show ?thesis by blast
qed

lemma INT_position: "rules = take 6 rules @ (INT_rule, Some T_INT) # drop 7 rules"
  by (simp add: rules_def INT_rule_def)

lemma before_INT: "(q, b) \<in> set (take 6 rules) \<Longrightarrow> s \<noteq> [] \<Longrightarrow> \<forall>c \<in> set s. decimal c \<Longrightarrow> \<not> lang q s"
proof
  assume q: "(q, b) \<in> set (take 6 rules)" and s: "s \<noteq> []" "\<forall>c \<in> set s. decimal c" and l: "lang q s"
  obtain c s' where c: "s = c # s'" using s(1) by (cases s) auto
  have dec: "decimal c" using s(2) c by simp
  have st: "starts c q" using l c by (simp add: lang_starts)
  from q consider "q \<in> fst ` set (take 5 rules)" | "(q, b) = rules ! 5" by (auto simp: rules_def)
  then show False
  proof cases
    case 1
    then have "\<not> starts c q"
      using dec by (auto simp: rule_defs decimal_def)
    then show ?thesis using st by blast
  next
    case 2
    then have "\<exists>c \<in> set s. \<not> decimal c" using l FLOAT_point [of s] by (simp add: rules_def)
    then show ?thesis using s(2) by blast
  qed
qed

text \<open>C38: integers in the text of a statement. The decimal spelling of an integer other than zero is one token
  \<^verbatim>\<open>INT\<close>, whose value is that integer if it is an \<^verbatim>\<open>int\<close>, while larger ones end in an uncaught exception; zero is
  not an integer for the lexer but an error, so no statement can hold the number 0.\<close>

theorem integer_literals:
  "(n \<noteq> 0 \<longrightarrow> lexemes (to_string n) = [(T_INT, to_string n)]) \<and>
   yylex stof T_INT (to_string n) = (if - 2147483648 \<le> n \<and> n < 2147483648 then Some (S_int n) else None) \<and>
   lexemes (to_string 0) = [(T_ERR, ''0'')]"
proof (intro conjI impI)
  assume n: "n \<noteq> 0"
  have ne: "to_string n \<noteq> []" by (simp add: to_string_def)
  have "best_rule rules (to_string n) = Some (length (to_string n), Some T_INT)"
    using before_INT [OF _ ne] to_string_decimal by (intro best_rule_whole [OF INT_position lang_int [OF n]]) blast
  with ne show "lexemes (to_string n) = [(T_INT, to_string n)]" by (cases "to_string n") auto
next
  show "yylex stof T_INT (to_string n) = (if - 2147483648 \<le> n \<and> n < 2147483648 then Some (S_int n) else None)"
    by (simp add: yylex_def stoi_to_string)
next
  show "lexemes (to_string 0) = [(T_ERR, ''0'')]" by code_simp
qed


theorem integer_literals_witness: "lexemes ''-7'' = [(T_INT, ''-7'')]"
proof -
  have "to_string (- 7) = ''-7''" by code_simp
  with integer_literals [of "- 7"] show ?thesis by simp
qed

end
