(* ===== verification/Parser.thy ===== *)
theory Parser
  imports Lexer
begin

text \<open>
  \<^verbatim>\<open>GQLclient/parser.y\<close>: the productions with their actions, one inductive predicate per nonterminal, and
  the parser that bison makes of them. The generated parser is not in the repository; its
  documented behaviour is modelled: it shifts where the grammar leaves a choice between a shift and a
  reduction, gives up at the first token that cannot continue what it has read, having taken that
  token, and calls the action of a statement as soon as the statement is complete. \<open>p_*\<close> is the
  parser, \<open>*_nt\<close> the grammar.
\<close>

text \<open>A token and its semantic value.\<close>

type_synonym tok = "token \<times> semantic"

text \<open>The value a field or a condition is constructed from.\<close>

fun value_of :: "tok \<Rightarrow> field_value option" where
  "value_of (T_STRING, S_string v) = Some (FString (bytes v))"
| "value_of (T_INT, S_int n) = Some (FInt (word_of_int n))"
| "value_of (T_FLOAT, S_float x) = Some (FFloat x)"
| "value_of (T_BOOL, S_bool b) = Some (FBool b)"
| "value_of _ = None"

subsection \<open>The grammar\<close>

text \<open>The alternatives of \<^verbatim>\<open>property\<close> by their operator and value, those of \<^verbatim>\<open>field\<close> by their value.\<close>

definition property_prods :: "(token \<times> token) list" where
  "property_prods = [(T_IN, T_STRING), (T_EQ, T_STRING), (T_CMP, T_INT), (T_EQ, T_INT), (T_CMP, T_FLOAT),
     (T_EQ, T_FLOAT), (T_CMP, T_BOOL), (T_EQ, T_BOOL)]"

definition field_prods :: "token list" where
  "field_prods = [T_STRING, T_INT, T_FLOAT, T_BOOL]"

inductive property_nt :: "mem \<Rightarrow> tok list \<Rightarrow> PropertyNode \<Rightarrow> bool" for g where
  property: "(op, fst v) \<in> set property_prods \<Longrightarrow> value_of v = Some fv \<Longrightarrow>
    property_nt g [(T_WORD, S_string w), (op, S_cmp c), v] (PropertyNode_ctor g (bytes w) c fv)"

inductive field_nt :: "mem \<Rightarrow> tok list \<Rightarrow> FieldNode \<Rightarrow> bool" for g where
  field: "fst v \<in> set field_prods \<Longrightarrow> value_of v = Some fv \<Longrightarrow>
    field_nt g [(T_WORD, S_string w), (T_COLON, S_none), v] (FieldNode_ctor g (bytes w) fv)"

text \<open>
  \<^verbatim>\<open>property_list\<close>, \<^verbatim>\<open>field_list\<close>, \<^verbatim>\<open>entity_list\<close> and \<^verbatim>\<open>query_list\<close> are built alike: one item, or a list
  and one more item, which the action adds at the end.
\<close>

inductive plus_nt :: "(tok list \<Rightarrow> 'a \<Rightarrow> bool) \<Rightarrow> tok list \<Rightarrow> 'a list \<Rightarrow> bool" for R where
  plus_one: "R ts x \<Longrightarrow> plus_nt R ts [x]"
| plus_add: "plus_nt R ts xs \<Longrightarrow> R us x \<Longrightarrow> plus_nt R (ts @ us) (xs @ [x])"

abbreviation property_list_nt :: "mem \<Rightarrow> tok list \<Rightarrow> PropertyNode list \<Rightarrow> bool" where
  "property_list_nt g \<equiv> plus_nt (property_nt g)"

abbreviation field_list_nt :: "mem \<Rightarrow> tok list \<Rightarrow> FieldNode list \<Rightarrow> bool" where
  "field_list_nt g \<equiv> plus_nt (field_nt g)"

inductive condition_body_nt :: "mem \<Rightarrow> tok list \<Rightarrow> ConditionBodyNode \<Rightarrow> bool" for g where
  condition_body: "property_list_nt g ts xs \<Longrightarrow>
    condition_body_nt g ((T_WORD, S_string w) # (T_LP, S_none) # (T_LB, S_none) # ts @ [(T_RB, S_none), (T_RP, S_none)])
      \<lparr>cb_typeName = bytes w, cb_condition = xs\<rparr>"

inductive entity_nt :: "mem \<Rightarrow> tok list \<Rightarrow> EntityNode \<Rightarrow> bool" for g where
  entity_named: "field_list_nt g ts xs \<Longrightarrow>
    entity_nt g ((T_WORD, S_string w) # (T_COLON, S_none) # (T_LB, S_none) # ts @ [(T_RB, S_none)])
      (EntityNode_named (bytes w) xs)"
| entity_root: "field_list_nt g ts xs \<Longrightarrow> entity_nt g ts (EntityNode_root xs)"

abbreviation entity_list_nt :: "mem \<Rightarrow> tok list \<Rightarrow> EntityNode list \<Rightarrow> bool" where
  "entity_list_nt g \<equiv> plus_nt (entity_nt g)"

inductive entity_body_nt :: "mem \<Rightarrow> tok list \<Rightarrow> EntityBodyNode \<Rightarrow> bool" for g where
  entity_body: "entity_list_nt g ts xs \<Longrightarrow>
    entity_body_nt g ((T_WORD, S_string w) # (T_LP, S_none) # (T_LB, S_none) # ts @ [(T_RB, S_none), (T_RP, S_none)])
      \<lparr>eb_typeName = bytes w, eb_entityList = xs\<rparr>"

inductive query_nt :: "mem \<Rightarrow> tok list \<Rightarrow> QueryNode \<Rightarrow> bool" for g where
  insert_query: "entity_body_nt g ts e \<Longrightarrow>
    query_nt g ((T_INSERT, S_op cmd) # (T_LB, S_none) # ts @ [(T_RB, S_none)]) (InsertQueryNode cmd e)"
| select_query: "condition_body_nt g ts c \<Longrightarrow>
    query_nt g ((T_SELECT, S_op cmd) # (T_LB, S_none) # ts @ [(T_RB, S_none)]) (SelectQueryNode cmd c)"
| delete_query: "condition_body_nt g ts c \<Longrightarrow>
    query_nt g ((T_DELETE, S_op cmd) # (T_LB, S_none) # ts @ [(T_RB, S_none)]) (DeleteQueryNode cmd c)"
| update_query: "condition_body_nt g ts c \<Longrightarrow> entity_body_nt g us e \<Longrightarrow>
    query_nt g ((T_UPDATE, S_op cmd) # (T_LB, S_none) # ts @ us @ [(T_RB, S_none)]) (UpdateQueryNode cmd c e)"

text \<open>A list of statements, in the order in which \<^verbatim>\<open>driver->insert\<close> is called.\<close>

abbreviation query_list_nt :: "mem \<Rightarrow> tok list \<Rightarrow> QueryNode list \<Rightarrow> bool" where
  "query_list_nt g \<equiv> plus_nt (query_nt g)"

subsection \<open>The parser\<close>

text \<open>Something read, with the tokens after it; a syntax error, with the tokens after the offending one; or
  no more tokens.\<close>

datatype 'a parsed = Got 'a "tok list" | Bad "tok list" | Out

fun pbind :: "'a parsed \<Rightarrow> ('a \<Rightarrow> tok list \<Rightarrow> 'b parsed) \<Rightarrow> 'b parsed" where
  "pbind (Got a ts) f = f a ts"
| "pbind (Bad ts) f = Bad ts"
| "pbind Out f = Out"

fun expect :: "token \<Rightarrow> (semantic \<Rightarrow> 'a option) \<Rightarrow> tok list \<Rightarrow> 'a parsed" where
  "expect t f [] = Out"
| "expect t f ((t', s) # ts) = (if t' = t then (case f s of Some a \<Rightarrow> Got a ts | None \<Rightarrow> Bad ts) else Bad ts)"

fun as_string :: "semantic \<Rightarrow> string option" where
  "as_string (S_string s) = Some s"
| "as_string _ = None"

fun as_op :: "semantic \<Rightarrow> CommandType option" where
  "as_op (S_op c) = Some c"
| "as_op _ = None"

fun as_none :: "semantic \<Rightarrow> unit option" where
  "as_none S_none = Some ()"
| "as_none _ = None"

abbreviation word_tok :: "tok list \<Rightarrow> string parsed" where
  "word_tok \<equiv> expect T_WORD as_string"

abbreviation mark :: "token \<Rightarrow> tok list \<Rightarrow> unit parsed" where
  "mark t \<equiv> expect t as_none"

fun p_op_value :: "tok list \<Rightarrow> (Cmp \<times> field_value) parsed" where
  "p_op_value [] = Out"
| "p_op_value ((op, s) # ts) =
     (case s of
        S_cmp c \<Rightarrow>
          if op \<in> {T_IN, T_EQ, T_CMP} then
            (case ts of
               [] \<Rightarrow> Out
             | v # us \<Rightarrow>
                 if (op, fst v) \<in> set property_prods then
                   (case value_of v of Some fv \<Rightarrow> Got (c, fv) us | None \<Rightarrow> Bad us)
                 else Bad us)
          else Bad ts
      | _ \<Rightarrow> Bad ts)"

definition p_property :: "mem \<Rightarrow> tok list \<Rightarrow> PropertyNode parsed" where
  "p_property g ts = pbind (word_tok ts) (\<lambda>w ts. pbind (p_op_value ts) (\<lambda>(c, fv) ts.
     Got (PropertyNode_ctor g (bytes w) c fv) ts))"

fun p_value :: "tok list \<Rightarrow> field_value parsed" where
  "p_value [] = Out"
| "p_value (v # ts) =
     (if fst v \<in> set field_prods then (case value_of v of Some fv \<Rightarrow> Got fv ts | None \<Rightarrow> Bad ts) else Bad ts)"

definition p_field :: "mem \<Rightarrow> tok list \<Rightarrow> FieldNode parsed" where
  "p_field g ts = pbind (word_tok ts) (\<lambda>w ts. pbind (mark T_COLON ts) (\<lambda>_ ts. pbind (p_value ts) (\<lambda>fv ts.
     Got (FieldNode_ctor g (bytes w) fv) ts)))"

text \<open>A list grows as long as the next token is a \<^verbatim>\<open>WORD\<close>: this token is shifted.\<close>

fun next_word :: "tok list \<Rightarrow> bool" where
  "next_word ((T_WORD, s) # ts) \<longleftrightarrow> True"
| "next_word _ \<longleftrightarrow> False"

text \<open>The first argument bounds the number of items; every item takes a token.\<close>

fun p_more :: "nat \<Rightarrow> (tok list \<Rightarrow> 'a parsed) \<Rightarrow> 'a list \<Rightarrow> tok list \<Rightarrow> 'a list parsed" where
  "p_more n p acc [] = Out"
| "p_more 0 p acc (t # ts) = (if next_word (t # ts) then Out else Got acc (t # ts))"
| "p_more (Suc n) p acc (t # ts) =
     (if next_word (t # ts) then pbind (p (t # ts)) (\<lambda>x us. p_more n p (acc @ [x]) us) else Got acc (t # ts))"

definition p_list :: "(tok list \<Rightarrow> 'a parsed) \<Rightarrow> tok list \<Rightarrow> 'a list parsed" where
  "p_list p ts = pbind (p ts) (\<lambda>x us. p_more (length us) p [x] us)"

definition p_condition_body :: "mem \<Rightarrow> tok list \<Rightarrow> ConditionBodyNode parsed" where
  "p_condition_body g ts = pbind (word_tok ts) (\<lambda>w ts. pbind (mark T_LP ts) (\<lambda>_ ts. pbind (mark T_LB ts) (\<lambda>_ ts.
     pbind (p_list (p_property g) ts) (\<lambda>xs ts. pbind (mark T_RB ts) (\<lambda>_ ts. pbind (mark T_RP ts) (\<lambda>_ ts.
       Got \<lparr>cb_typeName = bytes w, cb_condition = xs\<rparr> ts))))))"

text \<open>After \<^verbatim>\<open>WORD COLON\<close> a brace opens a named part, a value continues the first of a group of fields.\<close>

definition p_entity :: "mem \<Rightarrow> tok list \<Rightarrow> EntityNode parsed" where
  "p_entity g ts = pbind (word_tok ts) (\<lambda>w us. pbind (mark T_COLON us) (\<lambda>_ vs.
     if vs \<noteq> [] \<and> fst (hd vs) = T_LB then
       pbind (mark T_LB vs) (\<lambda>_ vs. pbind (p_list (p_field g) vs) (\<lambda>xs us. pbind (mark T_RB us) (\<lambda>_ us.
         Got (EntityNode_named (bytes w) xs) us)))
     else pbind (p_list (p_field g) ts) (\<lambda>xs us. Got (EntityNode_root xs) us)))"

definition p_entity_body :: "mem \<Rightarrow> tok list \<Rightarrow> EntityBodyNode parsed" where
  "p_entity_body g ts = pbind (word_tok ts) (\<lambda>w ts. pbind (mark T_LP ts) (\<lambda>_ ts. pbind (mark T_LB ts) (\<lambda>_ ts.
     pbind (p_list (p_entity g) ts) (\<lambda>xs ts. pbind (mark T_RB ts) (\<lambda>_ ts. pbind (mark T_RP ts) (\<lambda>_ ts.
       Got \<lparr>eb_typeName = bytes w, eb_entityList = xs\<rparr> ts))))))"

fun p_query :: "mem \<Rightarrow> tok list \<Rightarrow> QueryNode parsed" where
  "p_query g [] = Out"
| "p_query g ((t, s) # ts) =
     (if t = T_INSERT then pbind (expect t as_op ((t, s) # ts)) (\<lambda>cmd ts. pbind (mark T_LB ts) (\<lambda>_ ts.
        pbind (p_entity_body g ts) (\<lambda>e ts. pbind (mark T_RB ts) (\<lambda>_ ts. Got (InsertQueryNode cmd e) ts))))
      else if t = T_SELECT then pbind (expect t as_op ((t, s) # ts)) (\<lambda>cmd ts. pbind (mark T_LB ts) (\<lambda>_ ts.
        pbind (p_condition_body g ts) (\<lambda>c ts. pbind (mark T_RB ts) (\<lambda>_ ts. Got (SelectQueryNode cmd c) ts))))
      else if t = T_DELETE then pbind (expect t as_op ((t, s) # ts)) (\<lambda>cmd ts. pbind (mark T_LB ts) (\<lambda>_ ts.
        pbind (p_condition_body g ts) (\<lambda>c ts. pbind (mark T_RB ts) (\<lambda>_ ts. Got (DeleteQueryNode cmd c) ts))))
      else if t = T_UPDATE then pbind (expect t as_op ((t, s) # ts)) (\<lambda>cmd ts. pbind (mark T_LB ts) (\<lambda>_ ts.
        pbind (p_condition_body g ts) (\<lambda>c ts. pbind (p_entity_body g ts) (\<lambda>e ts.
          pbind (mark T_RB ts) (\<lambda>_ ts. Got (UpdateQueryNode cmd c e) ts)))))
      else Bad ts)"

subsection \<open>What the parts read\<close>

lemma pbind_Got [simp]: "pbind m f = Got b us \<longleftrightarrow> (\<exists>a ts. m = Got a ts \<and> f a ts = Got b us)"
  by (cases m) simp_all

lemma expect_Got [simp]: "expect t f ts = Got a us \<longleftrightarrow> (\<exists>s. ts = (t, s) # us \<and> f s = Some a)"
  by (cases "(t, f, ts)" rule: expect.cases) (auto split: option.splits)

lemma as_string_Some [simp]: "as_string s = Some w \<longleftrightarrow> s = S_string w"
  by (cases s) auto

lemma as_op_Some [simp]: "as_op s = Some c \<longleftrightarrow> s = S_op c"
  by (cases s) auto

lemma as_none_Some [simp]: "as_none s = Some u \<longleftrightarrow> s = S_none"
  by (cases s) auto

lemma p_value_Got [simp]:
  "p_value ts = Got fv us \<longleftrightarrow> (\<exists>v. ts = v # us \<and> fst v \<in> set field_prods \<and> value_of v = Some fv)"
  by (cases ts) (auto split: option.splits)

lemma property_prods_ops: "(op, t) \<in> set property_prods \<Longrightarrow> op \<in> {T_IN, T_EQ, T_CMP}"
  by (auto simp: property_prods_def)

lemma p_op_value_Got [simp]:
  "p_op_value ts = Got x us \<longleftrightarrow>
    (\<exists>op c v fv. ts = (op, S_cmp c) # v # us \<and> x = (c, fv) \<and> (op, fst v) \<in> set property_prods \<and> value_of v = Some fv)"
proof (cases ts)
  case (Cons y ys)
  obtain op s where y: "y = (op, s)" by (cases y)
  show ?thesis unfolding Cons y using property_prods_ops [of op]
    by (cases s; cases ys) (auto split: option.splits)
qed simp

inductive_simps property_nt_simps: "property_nt g ts x"
inductive_simps field_nt_simps: "field_nt g ts x"
inductive_simps condition_body_nt_simps: "condition_body_nt g ts x"
inductive_simps entity_nt_simps: "entity_nt g ts x"
inductive_simps entity_body_nt_simps: "entity_body_nt g ts x"
inductive_simps query_nt_simps: "query_nt g ts x"

lemma property_reads: "p_property g ts = Got x us \<longleftrightarrow> (\<exists>w. ts = w @ us \<and> property_nt g w x)"
  by (auto simp: p_property_def property_nt_simps)

lemma field_reads: "p_field g ts = Got x us \<longleftrightarrow> (\<exists>w. ts = w @ us \<and> field_nt g w x)"
  by (auto simp: p_field_def field_nt_simps)

lemma pbind_Bad [simp]: "pbind m f = Bad us \<longleftrightarrow> m = Bad us \<or> (\<exists>a ts. m = Got a ts \<and> f a ts = Bad us)"
  by (cases m) simp_all

lemma expect_Bad: "expect t f ts = Bad us \<Longrightarrow> length us < length ts"
  by (cases "(t, f, ts)" rule: expect.cases) (auto split: option.splits if_splits)

lemma p_value_Bad: "p_value ts = Bad us \<Longrightarrow> length us < length ts"
  by (cases ts) (auto split: option.splits if_splits)

lemma p_op_value_Bad: "p_op_value ts = Bad us \<Longrightarrow> length us < length ts"
  by (cases ts rule: p_op_value.cases) (auto split: option.splits if_splits list.splits semantic.splits)

lemmas leaf_Bad = expect_Bad p_value_Bad p_op_value_Bad

lemma p_field_Bad: "p_field g ts = Bad us \<Longrightarrow> length us < length ts"
  by (auto simp: p_field_def dest!: leaf_Bad)

lemma p_property_Bad: "p_property g ts = Bad us \<Longrightarrow> length us < length ts"
  by (auto simp: p_property_def dest!: leaf_Bad)

lemma plus_nt_iff: "plus_nt R ts xs \<longleftrightarrow> xs \<noteq> [] \<and> (\<exists>ws. ts = concat ws \<and> list_all2 R ws xs)"
proof
  assume "plus_nt R ts xs"
  then show "xs \<noteq> [] \<and> (\<exists>ws. ts = concat ws \<and> list_all2 R ws xs)"
  proof induction
    case (plus_one ts x)
    then show ?case by (intro conjI exI [of _ "[ts]"]) simp_all
  next
    case (plus_add ts xs us x)
    then obtain ws where "ts = concat ws" "list_all2 R ws xs" by blast
    with plus_add(2) show ?case
      by (intro conjI exI [of _ "ws @ [us]"]) (simp_all add: list_all2_appendI)
  qed
next
  assume "xs \<noteq> [] \<and> (\<exists>ws. ts = concat ws \<and> list_all2 R ws xs)"
  then show "plus_nt R ts xs"
  proof (induction xs arbitrary: ts rule: rev_induct)
    case (snoc x xs)
    then obtain ws where ts: "ts = concat ws" and all: "list_all2 R ws (xs @ [x])" by blast
    from all obtain vs u where ws: "ws = vs @ [u]" "list_all2 R vs xs" "R u x"
      by (auto simp: list_all2_append2 list_all2_Cons2)
    show ?case
    proof (cases "xs = []")
      case True
      then show ?thesis using ws ts by (auto intro: plus_one)
    next
      case False
      then show ?thesis using snoc.IH [of "concat vs"] ws ts by (auto intro: plus_add)
    qed
  qed simp
qed

text \<open>The items of a list with what must hold of the tokens after each of them.\<close>

fun chain :: "(tok list \<Rightarrow> 'a \<Rightarrow> bool) \<Rightarrow> ('a \<Rightarrow> tok list \<Rightarrow> bool) \<Rightarrow> tok list list \<Rightarrow> 'a list \<Rightarrow> tok list \<Rightarrow> bool" where
  "chain R follow [] [] us \<longleftrightarrow> True"
| "chain R follow (w # ws) (x # xs) us \<longleftrightarrow> R w x \<and> follow x (concat ws @ us) \<and> chain R follow ws xs us"
| "chain R follow _ _ us \<longleftrightarrow> False"

lemma chain_right:
  "chain R follow ws [] us \<longleftrightarrow> ws = []"
  "chain R follow ws (x # xs) us \<longleftrightarrow>
    (\<exists>w vs. ws = w # vs \<and> R w x \<and> follow x (concat vs @ us) \<and> chain R follow vs xs us)"
  by (cases ws; simp)+

text \<open>
  A parser of items: it reads just the phrases of the grammar's predicate that are followed by what the
  item asks for, and every phrase begins with a word.
\<close>

locale item_parser =
  fixes p :: "tok list \<Rightarrow> 'a parsed"
    and R :: "tok list \<Rightarrow> 'a \<Rightarrow> bool"
    and follow :: "'a \<Rightarrow> tok list \<Rightarrow> bool"
  assumes reads: "p ts = Got x us \<longleftrightarrow> (\<exists>w. ts = w @ us \<and> R w x \<and> follow x us)"
    and word: "R w x \<Longrightarrow> next_word (w @ us)"
    and gives_up: "p ts = Bad us \<Longrightarrow> length us < length ts"
begin

lemma shorter: "p ts = Got x us \<Longrightarrow> length us < length ts"
  using word [of _ x "[]"] by (fastforce simp: reads)

lemma not_empty: "R w x \<Longrightarrow> w \<noteq> []"
  using word [of w x "[]"] by auto

lemma chain_word: "chain R follow ws xs us \<Longrightarrow> concat ws @ us = [] \<or> \<not> next_word (concat ws @ us) \<Longrightarrow> ws = []"
  using word [of "hd ws" "hd xs" "concat (tl ws) @ us"] not_empty [of "hd ws" "hd xs"]
  by (cases xs) (auto simp: chain_right)

lemma more:
  assumes "length ts \<le> n"
  shows "p_more n p acc ts = Got zs us \<longleftrightarrow>
    us \<noteq> [] \<and> \<not> next_word us \<and> (\<exists>ws xs. ts = concat ws @ us \<and> zs = acc @ xs \<and> chain R follow ws xs us)"
  using assms
proof (induction n arbitrary: acc ts)
  case 0
  have "concat ws @ us = [] \<longleftrightarrow> concat ws = [] \<and> us = []" for ws by simp
  then show ?case using 0 by (auto simp del: concat_eq_Nil_conv)
next
  case (Suc n)
  show ?case
  proof (cases "ts = [] \<or> \<not> next_word ts")
    case True
    have "p_more (Suc n) p acc ts = Got zs us \<longleftrightarrow> us \<noteq> [] \<and> us = ts \<and> zs = acc"
      using True by (cases ts) auto
    also have "\<dots> \<longleftrightarrow> us \<noteq> [] \<and> \<not> next_word us \<and>
        (\<exists>ws xs. ts = concat ws @ us \<and> zs = acc @ xs \<and> chain R follow ws xs us)"
    proof
      assume "us \<noteq> [] \<and> us = ts \<and> zs = acc"
      with True show "us \<noteq> [] \<and> \<not> next_word us \<and> (\<exists>ws xs. ts = concat ws @ us \<and> zs = acc @ xs \<and> chain R follow ws xs us)"
        by (intro conjI exI [of _ "[]"]) auto
    next
      assume r: "us \<noteq> [] \<and> \<not> next_word us \<and> (\<exists>ws xs. ts = concat ws @ us \<and> zs = acc @ xs \<and> chain R follow ws xs us)"
      then obtain ws xs where "ts = concat ws @ us" "zs = acc @ xs" "chain R follow ws xs us" by blast
      moreover from this True have "ws = []" using chain_word by blast
      ultimately show "us \<noteq> [] \<and> us = ts \<and> zs = acc" using r by (cases xs) auto
    qed
    finally show ?thesis .
  next
    case False
    then obtain t ts' where ts: "ts = t # ts'" by (cases ts) auto
    have IH: "p_more n p (acc @ [x]) vs = Got zs us \<longleftrightarrow>
        us \<noteq> [] \<and> \<not> next_word us \<and> (\<exists>ws xs. vs = concat ws @ us \<and> zs = (acc @ [x]) @ xs \<and> chain R follow ws xs us)"
      if "p ts = Got x vs" for x vs
      using shorter [OF that] Suc.prems by (intro Suc.IH) simp
    have "p_more (Suc n) p acc ts = Got zs us \<longleftrightarrow> (\<exists>x vs. p ts = Got x vs \<and> p_more n p (acc @ [x]) vs = Got zs us)"
      using False by (simp add: ts)
    also have "\<dots> \<longleftrightarrow> us \<noteq> [] \<and> \<not> next_word us \<and>
        (\<exists>x vs ws xs. p ts = Got x vs \<and> vs = concat ws @ us \<and> zs = acc @ x # xs \<and> chain R follow ws xs us)"
      using IH by auto
    also have "\<dots> \<longleftrightarrow> us \<noteq> [] \<and> \<not> next_word us \<and>
        (\<exists>w x ws xs. ts = concat (w # ws) @ us \<and> zs = acc @ x # xs \<and> chain R follow (w # ws) (x # xs) us)"
      by (auto simp: reads)
    also have "\<dots> \<longleftrightarrow> us \<noteq> [] \<and> \<not> next_word us \<and>
        (\<exists>ws xs. ts = concat ws @ us \<and> zs = acc @ xs \<and> chain R follow ws xs us)"
    proof (rule conj_cong [OF refl], rule conj_cong [OF refl])
      assume us: "\<not> next_word us"
      have "\<exists>w x vs ys. ws = w # vs \<and> xs = x # ys" if "ts = concat ws @ us" "chain R follow ws xs us" for ws xs
        using that us False by (cases xs) (auto simp: chain_right)
      then show "(\<exists>w x ws xs. ts = concat (w # ws) @ us \<and> zs = acc @ x # xs \<and> chain R follow (w # ws) (x # xs) us) \<longleftrightarrow>
          (\<exists>ws xs. ts = concat ws @ us \<and> zs = acc @ xs \<and> chain R follow ws xs us)"
        by (metis (no_types, lifting))
    qed
    finally show ?thesis .
  qed
qed

lemma list_reads:
  "p_list p ts = Got xs us \<longleftrightarrow>
    us \<noteq> [] \<and> \<not> next_word us \<and> xs \<noteq> [] \<and> (\<exists>ws. ts = concat ws @ us \<and> chain R follow ws xs us)"
proof -
  have "p_list p ts = Got xs us \<longleftrightarrow> (\<exists>x vs. p ts = Got x vs \<and> p_more (length vs) p [x] vs = Got xs us)"
    by (simp add: p_list_def)
  also have "\<dots> \<longleftrightarrow> us \<noteq> [] \<and> \<not> next_word us \<and>
      (\<exists>x vs ws ys. p ts = Got x vs \<and> vs = concat ws @ us \<and> xs = x # ys \<and> chain R follow ws ys us)"
    by (auto simp: more)
  also have "\<dots> \<longleftrightarrow> us \<noteq> [] \<and> \<not> next_word us \<and>
      (\<exists>w x ws ys. ts = concat (w # ws) @ us \<and> xs = x # ys \<and> chain R follow (w # ws) (x # ys) us)"
    by (auto simp: reads)
  also have "\<dots> \<longleftrightarrow> us \<noteq> [] \<and> \<not> next_word us \<and> xs \<noteq> [] \<and> (\<exists>ws. ts = concat ws @ us \<and> chain R follow ws xs us)"
  proof -
    have "(\<exists>w x ws ys. ts = concat (w # ws) @ us \<and> xs = x # ys \<and> chain R follow (w # ws) (x # ys) us) \<longleftrightarrow>
        xs \<noteq> [] \<and> (\<exists>ws. ts = concat ws @ us \<and> chain R follow ws xs us)"
    proof (cases xs)
      case (Cons x ys)
      have "\<exists>w vs. ws = w # vs" if "chain R follow ws (x # ys) us" for ws
        using that by (auto simp: chain_right)
      then show ?thesis unfolding Cons by (metis list.distinct(1) list.inject)
    qed simp
    then show ?thesis by blast
  qed
  finally show ?thesis .
qed

lemma more_Bad: "p_more n p acc ts = Bad us \<Longrightarrow> length us < length ts"
proof (induction n arbitrary: acc ts)
  case 0
  then show ?case by (cases ts) (auto split: if_splits)
next
  case (Suc n)
  then show ?case
    by (cases ts) (auto split: if_splits dest!: gives_up Suc.IH shorter)
qed

lemma list_gives_up: "p_list p ts = Bad us \<Longrightarrow> length us < length ts"
  by (auto simp: p_list_def dest!: gives_up more_Bad shorter)

lemma list_shorter: "p_list p ts = Got xs us \<Longrightarrow> length us \<le> length ts"
  by (auto simp: list_reads)

text \<open>The items before an error are read, and lost.\<close>

lemma more_stops:
  assumes "list_all2 R ws xs" "\<And>x vs. x \<in> set xs \<Longrightarrow> follow x vs" "next_word ts" "p ts = Bad us"
    "length ws < n"
  shows "p_more n p acc (concat ws @ ts) = Bad us"
  using assms
proof (induction ws xs arbitrary: n acc rule: list_all2_induct)
  case Nil
  then show ?case by (cases n; cases ts) auto
next
  case (Cons w ws x xs)
  have "p (w @ concat ws @ ts) = Got x (concat ws @ ts)" using Cons by (auto simp: reads)
  moreover have "next_word (w @ concat ws @ ts)" "w \<noteq> []" using Cons word not_empty by blast+
  moreover obtain m where "n = Suc m" "length ws < m" using Cons by (cases n) auto
  ultimately show ?case using Cons by (cases w) auto
qed

lemma list_stops:
  assumes "list_all2 R ws xs" "xs \<noteq> []" "\<And>x vs. x \<in> set xs \<Longrightarrow> follow x vs" "next_word ts" "p ts = Bad us"
  shows "p_list p (concat ws @ ts) = Bad us"
proof -
  obtain w ws' x xs' where *: "ws = w # ws'" "xs = x # xs'" "R w x" "list_all2 R ws' xs'"
    using assms(1,2) by (cases xs; cases ws) auto
  have "length ws' \<le> length (concat ws')"
    using \<open>list_all2 R ws' xs'\<close>
    by (induction rule: list_all2_induct) (auto dest!: not_empty simp: Suc_le_eq neq_Nil_conv)
  moreover have "ts \<noteq> []" using assms(4) by auto
  ultimately have "length ws' < length (concat ws' @ ts)" by (cases ts) auto
  then have "p_more (length (concat ws' @ ts)) p [x] (concat ws' @ ts) = Bad us"
    using more_stops [OF *(4) _ assms(4,5)] assms(3) *(2) by simp
  moreover have "p (w @ concat ws' @ ts) = Got x (concat ws' @ ts)" using * assms(3) by (auto simp: reads)
  ultimately show ?thesis using *(1) by (auto simp: p_list_def)
qed

end

text \<open>Properties and fields ask for nothing, a nameless group of fields ends where no word follows.\<close>

lemma property_word: "property_nt g w x \<Longrightarrow> next_word (w @ us)"
  by (auto simp: property_nt_simps)

lemma field_word: "field_nt g w x \<Longrightarrow> next_word (w @ us)"
  by (auto simp: field_nt_simps)

lemma next_word_append: "next_word ts \<Longrightarrow> next_word (ts @ us)"
  by (cases ts rule: next_word.cases) auto

lemma plus_word: "plus_nt R ts xs \<Longrightarrow> (\<And>w x. R w x \<Longrightarrow> next_word w) \<Longrightarrow> next_word (ts @ us)"
  by (induction arbitrary: us rule: plus_nt.induct) (simp_all add: next_word_append)

interpretation property_item: item_parser "p_property g" "property_nt g" "\<lambda>x us. True" for g
  by unfold_locales (simp_all add: property_reads property_word p_property_Bad)

interpretation field_item: item_parser "p_field g" "field_nt g" "\<lambda>x us. True" for g
  by unfold_locales (simp_all add: field_reads field_word p_field_Bad)

lemma chain_all: "chain R (\<lambda>x us. True) ws xs us \<longleftrightarrow> list_all2 R ws xs"
  by (induction R "\<lambda>(x :: 'a) (us :: tok list). True" ws xs us rule: chain.induct) auto

lemma property_list_reads:
  "p_list (p_property g) ts = Got xs us \<longleftrightarrow>
    us \<noteq> [] \<and> \<not> next_word us \<and> (\<exists>w. ts = w @ us \<and> property_list_nt g w xs)"
  unfolding property_item.list_reads chain_all plus_nt_iff by blast

lemma field_list_reads:
  "p_list (p_field g) ts = Got xs us \<longleftrightarrow>
    us \<noteq> [] \<and> \<not> next_word us \<and> (\<exists>w. ts = w @ us \<and> field_list_nt g w xs)"
  unfolding field_item.list_reads chain_all plus_nt_iff by blast

lemma condition_body_reads:
  "p_condition_body g ts = Got x us \<longleftrightarrow> (\<exists>w. ts = w @ us \<and> condition_body_nt g w x)"
  by (auto simp: p_condition_body_def condition_body_nt_simps property_list_reads)

definition group_ends :: "EntityNode \<Rightarrow> tok list \<Rightarrow> bool" where
  "group_ends e us \<longleftrightarrow> (is_root e \<longrightarrow> us \<noteq> [] \<and> \<not> next_word us)"

lemma field_list_word: "field_list_nt g ts xs \<Longrightarrow> next_word (ts @ us)"
  using plus_word field_word [of g _ _ "[]"] by auto

lemma field_list_starts:
  assumes "field_list_nt g ts xs"
  shows "\<exists>w v vs. ts = (T_WORD, S_string w) # (T_COLON, S_none) # v # vs \<and> fst v \<in> set field_prods"
  using assms
proof induction
  case (plus_one ts x)
  then show ?case by (auto simp: field_nt_simps)
qed auto

lemma entity_reads: "p_entity g ts = Got x us \<longleftrightarrow> (\<exists>w. ts = w @ us \<and> entity_nt g w x \<and> group_ends x us)"
proof -
  have named: "T_LB \<notin> set field_prods" by (simp add: field_prods_def)
  have "p_entity g ts = Got x us \<longleftrightarrow>
      (\<exists>w v xs. ts = (T_WORD, S_string w) # (T_COLON, S_none) # (T_LB, S_none) # v @ (T_RB, S_none) # us \<and>
         field_list_nt g v xs \<and> x = EntityNode_named (bytes w) xs) \<or>
      (\<exists>v xs. ts = v @ us \<and> field_list_nt g v xs \<and> us \<noteq> [] \<and> \<not> next_word us \<and> x = EntityNode_root xs)"
  proof (cases "\<exists>w vs. ts = (T_WORD, S_string w) # (T_COLON, S_none) # vs")
    case True
    then obtain w vs where ts: "ts = (T_WORD, S_string w) # (T_COLON, S_none) # vs" by blast
    show ?thesis
    proof (cases "vs \<noteq> [] \<and> fst (hd vs) = T_LB")
      case True
      have "\<not> (ts = v @ us \<and> field_list_nt g v xs)" for v xs
        using True named field_list_starts [of g v xs] by (auto simp: ts)
      then show ?thesis using True by (auto simp: p_entity_def ts field_list_reads)
    next
      case False
      then show ?thesis by (auto simp: p_entity_def ts field_list_reads)
    qed
  next
    case False
    have "p_entity g ts \<noteq> Got x us" using False by (auto simp: p_entity_def)
    moreover have "\<not> (ts = v @ us \<and> field_list_nt g v xs)" for v xs
      using False field_list_starts [of g v xs] by auto
    ultimately show ?thesis using False by blast
  qed
  also have "\<dots> \<longleftrightarrow> (\<exists>w. ts = w @ us \<and> entity_nt g w x \<and> group_ends x us)"
    by (auto simp: entity_nt_simps group_ends_def EntityNode_named_def EntityNode_root_def)
  finally show ?thesis .
qed

lemma entity_word: "entity_nt g w x \<Longrightarrow> next_word (w @ us)"
  by (auto simp: entity_nt_simps field_list_word)

lemma p_entity_Bad: "p_entity g ts = Bad us \<Longrightarrow> length us < length ts"
  by (auto simp: p_entity_def split: if_splits dest!: leaf_Bad field_item.list_gives_up field_item.list_shorter)

interpretation entity_item: item_parser "p_entity g" "entity_nt g" group_ends for g
  by unfold_locales (simp_all add: entity_reads entity_word p_entity_Bad)

text \<open>The statements the parser can read: a nameless group of fields comes last in its list.\<close>

definition groups_last :: "EntityNode list \<Rightarrow> bool" where
  "groups_last es \<longleftrightarrow> (\<forall>e \<in> set (butlast es). \<not> is_root e)"

fun readable :: "QueryNode \<Rightarrow> bool" where
  "readable (InsertQueryNode cmd e) = groups_last (eb_entityList e)"
| "readable (SelectQueryNode cmd c) = True"
| "readable (DeleteQueryNode cmd c) = True"
| "readable (UpdateQueryNode cmd c e) = groups_last (eb_entityList e)"

lemma chain_groups:
  assumes us: "us \<noteq> []" "\<not> next_word us"
  shows "chain (entity_nt g) group_ends ws es us \<longleftrightarrow> list_all2 (entity_nt g) ws es \<and> groups_last es"
proof (induction es arbitrary: ws)
  case (Cons e es)
  have ends: "group_ends e (concat vs @ us) \<longleftrightarrow> (is_root e \<longrightarrow> es = [])" if all: "list_all2 (entity_nt g) vs es" for vs
  proof (cases es)
    case Nil
    then show ?thesis using all us by (simp add: group_ends_def)
  next
    case (Cons e' es')
    obtain v vs' where "vs = v # vs'" "entity_nt g v e'"
      using all unfolding Cons list_all2_Cons2 by blast
    then have "next_word (concat vs @ us)" using entity_word [of g v e' "concat vs' @ us"] by simp
    then show ?thesis by (simp add: group_ends_def Cons)
  qed
  have last: "groups_last (e # es) \<longleftrightarrow> groups_last es \<and> (is_root e \<longrightarrow> es = [])"
    by (auto simp: groups_last_def)
  have "chain (entity_nt g) group_ends ws (e # es) us \<longleftrightarrow>
      (\<exists>w vs. ws = w # vs \<and> entity_nt g w e \<and> group_ends e (concat vs @ us) \<and> list_all2 (entity_nt g) vs es \<and> groups_last es)"
    by (simp add: chain_right Cons.IH)
  also have "\<dots> \<longleftrightarrow> list_all2 (entity_nt g) ws (e # es) \<and> groups_last (e # es)"
    using ends last by (auto simp: list_all2_Cons2)
  finally show ?case .
qed (simp add: chain_right groups_last_def)

lemma entity_list_reads:
  "p_list (p_entity g) ts = Got es us \<longleftrightarrow>
    us \<noteq> [] \<and> \<not> next_word us \<and> (\<exists>w. ts = w @ us \<and> entity_list_nt g w es \<and> groups_last es)"
proof -
  have "p_list (p_entity g) ts = Got es us \<longleftrightarrow>
      us \<noteq> [] \<and> \<not> next_word us \<and> es \<noteq> [] \<and>
      (\<exists>ws. ts = concat ws @ us \<and> list_all2 (entity_nt g) ws es \<and> groups_last es)"
    unfolding entity_item.list_reads using chain_groups by blast
  then show ?thesis unfolding plus_nt_iff by blast
qed

lemma entity_body_reads:
  "p_entity_body g ts = Got e us \<longleftrightarrow>
    (\<exists>w. ts = w @ us \<and> entity_body_nt g w e \<and> groups_last (eb_entityList e))"
  by (auto simp: p_entity_body_def entity_body_nt_simps entity_list_reads)

lemma query_reads_each:
  "p_query g ((T_INSERT, s) # ts) = Got q us \<longleftrightarrow>
    (\<exists>cmd w e. s = S_op cmd \<and> ts = (T_LB, S_none) # w @ (T_RB, S_none) # us \<and> entity_body_nt g w e \<and>
       groups_last (eb_entityList e) \<and> q = InsertQueryNode cmd e)"
  "p_query g ((T_SELECT, s) # ts) = Got q us \<longleftrightarrow>
    (\<exists>cmd w c. s = S_op cmd \<and> ts = (T_LB, S_none) # w @ (T_RB, S_none) # us \<and> condition_body_nt g w c \<and>
       q = SelectQueryNode cmd c)"
  "p_query g ((T_DELETE, s) # ts) = Got q us \<longleftrightarrow>
    (\<exists>cmd w c. s = S_op cmd \<and> ts = (T_LB, S_none) # w @ (T_RB, S_none) # us \<and> condition_body_nt g w c \<and>
       q = DeleteQueryNode cmd c)"
  "p_query g ((T_UPDATE, s) # ts) = Got q us \<longleftrightarrow>
    (\<exists>cmd w v c e. s = S_op cmd \<and> ts = (T_LB, S_none) # w @ v @ (T_RB, S_none) # us \<and> condition_body_nt g w c \<and>
       entity_body_nt g v e \<and> groups_last (eb_entityList e) \<and> q = UpdateQueryNode cmd c e)"
  by (simp_all del: expect.simps add: condition_body_reads entity_body_reads) blast+

lemma query_reads:
  "p_query g ts = Got q us \<longleftrightarrow> (\<exists>w. ts = w @ us \<and> query_nt g w q \<and> readable q)"
proof (cases ts)
  case Nil
  then show ?thesis by (auto simp: query_nt_simps)
next
  case (Cons x ts')
  obtain t s where x: "x = (t, s)" by (cases x)
  consider "t = T_INSERT" | "t = T_SELECT" | "t = T_DELETE" | "t = T_UPDATE"
    | "t \<notin> {T_INSERT, T_SELECT, T_DELETE, T_UPDATE}" by blast
  then show ?thesis
  proof cases
    case 5
    then show ?thesis by (auto simp: Cons x query_nt_simps)
  qed (simp_all only: Cons x query_reads_each, auto simp: query_nt_simps, blast)
qed

subsection \<open>A call of the parser, and the loop around it\<close>

lemma query_not_empty: "query_nt g w q \<Longrightarrow> w \<noteq> []"
  by (auto simp: query_nt_simps)

lemma query_shorter: "p_query g ts = Got q us \<Longrightarrow> length us < length ts"
  using query_not_empty by (fastforce simp: query_reads)

text \<open>
  \<^verbatim>\<open>parser::parse\<close>: the statements handed to \<^verbatim>\<open>driver->insert\<close>, the tokens left, and whether the
  call accepted. The call ends at the end of the input or with the first syntax error.
\<close>

function yyparse :: "mem \<Rightarrow> tok list \<Rightarrow> QueryNode list \<times> tok list \<times> bool" where
  "yyparse g ts =
     (case p_query g ts of
        Got q us \<Rightarrow> if us = [] then ([q], [], True) else (let (qs, vs, ok) = yyparse g us in (q # qs, vs, ok))
      | Bad us \<Rightarrow> ([], us, False)
      | Out \<Rightarrow> ([], [], False))"
  by pat_completeness auto
termination
  by (relation "measure (length \<circ> snd)") (auto dest: query_shorter)

declare yyparse.simps [simp del]

lemma yyparse_Got:
  "p_query g ts = Got q us \<Longrightarrow>
    yyparse g ts = (if us = [] then ([q], [], True) else (let (qs, vs, ok) = yyparse g us in (q # qs, vs, ok)))"
  by (subst yyparse.simps) simp

lemma yyparse_Bad: "p_query g ts = Bad us \<Longrightarrow> yyparse g ts = ([], us, False)"
  by (subst yyparse.simps) simp

lemma yyparse_Out: "p_query g ts = Out \<Longrightarrow> yyparse g ts = ([], [], False)"
  by (subst yyparse.simps) simp

lemmas yyparse_by = yyparse_Got yyparse_Bad yyparse_Out

text \<open>\<^verbatim>\<open>Driver::parse\<close> calls the parser for ever; this is the state after \<open>n\<close> calls.\<close>

fun parse :: "nat \<Rightarrow> mem \<Rightarrow> tok list \<Rightarrow> QueryNode list \<times> tok list" where
  "parse 0 g ts = ([], ts)"
| "parse (Suc n) g ts =
     (let (qs, us, ok) = yyparse g ts; (ps, vs) = parse n g us in (qs @ ps, vs))"

lemma p_condition_body_Bad: "p_condition_body g ts = Bad us \<Longrightarrow> length us < length ts"
  by (auto simp: p_condition_body_def dest!: leaf_Bad property_item.list_gives_up property_item.list_shorter)

lemma p_entity_body_Bad: "p_entity_body g ts = Bad us \<Longrightarrow> length us < length ts"
  by (auto simp: p_entity_body_def dest!: leaf_Bad entity_item.list_gives_up entity_item.list_shorter)

lemma query_Bad: "p_query g ts = Bad us \<Longrightarrow> length us < length ts"
proof (cases ts)
  case (Cons x ts')
  assume "p_query g ts = Bad us"
  then show ?thesis
    by (cases x) (auto simp: Cons condition_body_reads entity_body_reads split: if_splits option.splits
        dest!: leaf_Bad p_condition_body_Bad p_entity_body_Bad)
qed simp


subsection \<open>Statements one after the other\<close>

text \<open>The statements of a call are those at the front of the tokens, in order; the tokens behind them do
  not begin with another statement.\<close>

lemma yyparse_reads:
  "yyparse g ts = (qs, us, ok) \<Longrightarrow> \<exists>ws v. ts = concat ws @ v \<and>
    list_all2 (\<lambda>w q. query_nt g w q \<and> readable q) ws qs \<and>
    (if ok then v = [] \<and> us = [] \<and> qs \<noteq> []
     else (p_query g v = Bad us \<or> p_query g v = Out \<and> us = []))"
proof (induction g ts arbitrary: qs rule: yyparse.induct)
  case (1 g ts)
  show ?case
  proof (cases "p_query g ts")
    case (Got q vs)
    then obtain w where w: "ts = w @ vs" "query_nt g w q" "readable q" by (auto simp: query_reads)
    show ?thesis
    proof (cases "vs = []")
      case True
      then show ?thesis using 1(2) w yyparse_Got [OF Got] by (intro exI [of _ "[w]"] exI [of _ "[]"]) auto
    next
      case False
      then obtain qs' where qs: "qs = q # qs'" "yyparse g vs = (qs', us, ok)"
        using 1(2) yyparse_Got [OF Got] by (auto split: prod.splits)
      from 1(1) [OF Got False qs(2)] obtain ws v where
        "vs = concat ws @ v" "list_all2 (\<lambda>w q. query_nt g w q \<and> readable q) ws qs'"
        "if ok then v = [] \<and> us = [] \<and> qs' \<noteq> [] else (p_query g v = Bad us \<or> p_query g v = Out \<and> us = [])" by blast
      with w qs(1) show ?thesis by (intro exI [of _ "w # ws"] exI [of _ v]) (auto split: if_splits)
    qed
  next
    case (Bad vs)
    then show ?thesis using 1(2) by (intro exI [of _ "[]"] exI [of _ ts]) (auto dest: yyparse_by)
  next
    case Out
    then show ?thesis using 1(2) by (intro exI [of _ "[]"] exI [of _ ts]) (auto dest: yyparse_by)
  qed
qed

lemma yyparse_accepts:
  "list_all2 (\<lambda>w q. query_nt g w q \<and> readable q) ws qs \<Longrightarrow> qs \<noteq> [] \<Longrightarrow> yyparse g (concat ws) = (qs, [], True)"
proof (induction ws qs rule: list_all2_induct)
  case (Cons w ws q qs)
  then have got: "p_query g (w @ concat ws) = Got q (concat ws)" by (auto simp: query_reads)
  show ?case
  proof (cases "qs = []")
    case True
    then show ?thesis using Cons got by (simp add: yyparse_Got)
  next
    case False
    then obtain w' ws' q' qs' where *: "ws = w' # ws'" "qs = q' # qs'"
      using Cons(2) by (cases qs; cases ws) auto
    then have "concat ws \<noteq> []" using Cons(2) query_not_empty by auto
    then show ?thesis using Cons got False by (simp add: yyparse_Got)
  qed
qed simp

lemma yyparse_shorter: "ts \<noteq> [] \<Longrightarrow> yyparse g ts = (qs, us, ok) \<Longrightarrow> length us < length ts"
proof (induction g ts arbitrary: qs rule: yyparse.induct)
  case (1 g ts)
  show ?case
  proof (cases "p_query g ts")
    case (Got q vs)
    show ?thesis
    proof (cases "vs = []")
      case True
      then show ?thesis using 1(2,3) yyparse_Got [OF Got] by auto
    next
      case False
      then obtain qs' where "yyparse g vs = (qs', us, ok)"
        using 1(3) yyparse_Got [OF Got] by (auto split: prod.splits)
      from 1(1) [OF Got False False this] query_shorter [OF Got] show ?thesis by simp
    qed
  qed (use 1(2,3) query_Bad yyparse_by in force)+
qed

lemma yyparse_Nil [simp]: "yyparse g [] = ([], [], False)"
  by (simp add: yyparse.simps)

lemma parse_Nil [simp]: "parse n g [] = ([], [])"
  by (induction n) simp_all

lemma parse_enough: "length ts \<le> n \<Longrightarrow> parse n g ts = (fst (parse (length ts) g ts), [])"
proof (induction ts arbitrary: n rule: length_induct)
  case (1 ts)
  show ?case
  proof (cases "ts = []")
    case False
    then obtain k where k: "length ts = Suc k" by (cases ts) simp_all
    with 1(2) obtain m where m: "n = Suc m" by (cases n) simp_all
    with k 1(2) have n: "n = Suc m" "length ts = Suc k" "k \<le> m" by simp_all
    obtain qs us ok where y: "yyparse g ts = (qs, us, ok)" by (cases "yyparse g ts")
    have less: "length us < length ts" by (rule yyparse_shorter [OF False y])
    have IH: "parse x g us = (fst (parse (length us) g us), [])" if "length us \<le> x" for x
      using 1(1) less that by blast
    have a: "parse m g us = (fst (parse (length us) g us), [])" by (rule IH) (use less n in simp)
    have b: "parse k g us = (fst (parse (length us) g us), [])" by (rule IH) (use less n in simp)
    show ?thesis using y a b by (simp add: n(1,2))
  qed simp
qed

text \<open>The statements of an accepted text.\<close>

lemma yyparse_iff:
  "yyparse g ts = (qs, us, True) \<longleftrightarrow> us = [] \<and> query_list_nt g ts qs \<and> (\<forall>q \<in> set qs. readable q)"
proof
  assume "yyparse g ts = (qs, us, True)"
  from yyparse_reads [OF this] show "us = [] \<and> query_list_nt g ts qs \<and> (\<forall>q \<in> set qs. readable q)"
    unfolding plus_nt_iff by (auto simp: list_all2_conv_all_nth in_set_conv_nth)
next
  assume r: "us = [] \<and> query_list_nt g ts qs \<and> (\<forall>q \<in> set qs. readable q)"
  then obtain ws where ws: "ts = concat ws" "list_all2 (query_nt g) ws qs" "qs \<noteq> []" unfolding plus_nt_iff by blast
  from ws(2) r have "list_all2 (\<lambda>w q. query_nt g w q \<and> readable q) ws qs" by (auto simp: list_all2_conv_all_nth)
  from yyparse_accepts [OF this ws(3)] show "yyparse g ts = (qs, us, True)" using ws(1) r by simp
qed

text \<open>A group of fields in front of a named part: the tokens of the statement.\<close>

definition insert_tokens :: "CommandType \<Rightarrow> string \<Rightarrow> tok list \<Rightarrow> tok list" where
  "insert_tokens cmd w ts =
     [(T_INSERT, S_op cmd), (T_LB, S_none), (T_WORD, S_string w), (T_LP, S_none), (T_LB, S_none)] @ ts @
     [(T_RB, S_none), (T_RP, S_none), (T_RB, S_none)]"

lemma insert_tokens_nt:
  "entity_list_nt g ts es \<Longrightarrow>
    query_nt g (insert_tokens cmd w ts) (InsertQueryNode cmd \<lparr>eb_typeName = bytes w, eb_entityList = es\<rparr>)"
  unfolding insert_tokens_def
  using insert_query [OF entity_body, of g ts es cmd w] by simp

subsection \<open>Properties\<close>

text \<open>C11: the parser and the grammar. A call of the parser accepts a text, handing over the statements
  \<open>qs\<close>, if and only if the grammar derives the text as the list \<open>qs\<close> of statements and in each
  of them a nameless group of fields is the last of its part list; so the parser is sound, and it is
  complete but for that condition.\<close>

theorem parser_reads_grammar:
  "yyparse g ts = (qs, us, True) \<longleftrightarrow> us = [] \<and> query_list_nt g ts qs \<and> (\<forall>q \<in> set qs. readable q)"
  by (rule yyparse_iff)

definition named_part :: "string \<Rightarrow> tok list \<Rightarrow> tok list" where
  "named_part k u = (T_WORD, S_string k) # (T_COLON, S_none) # (T_LB, S_none) # u @ [(T_RB, S_none)]"

text \<open>C39: a statement that the grammar has and the parser does not. A nameless group of fields followed by
  a named part is derived by the grammar, but the parser has shifted the word that begins the part as
  one more field: it reports a syntax error at the brace, and goes on behind it.\<close>

theorem part_after_group_rejected:
  assumes v: "field_list_nt g v xs" and u: "field_list_nt g u ys"
  shows "query_nt g (insert_tokens cmd w (v @ named_part k u)) (InsertQueryNode cmd
      \<lparr>eb_typeName = bytes w, eb_entityList = [EntityNode_root xs, EntityNode_named (bytes k) ys]\<rparr>) \<and>
    p_query g (insert_tokens cmd w (v @ named_part k u)) =
      Bad (u @ [(T_RB, S_none), (T_RB, S_none), (T_RP, S_none), (T_RB, S_none)])"
proof
  have "entity_list_nt g (v @ named_part k u) ([EntityNode_root xs] @ [EntityNode_named (bytes k) ys])"
    unfolding named_part_def
    by (intro plus_add plus_one entity_root [OF v] entity_named [OF u])
  then show "query_nt g (insert_tokens cmd w (v @ named_part k u)) (InsertQueryNode cmd
      \<lparr>eb_typeName = bytes w, eb_entityList = [EntityNode_root xs, EntityNode_named (bytes k) ys]\<rparr>)"
    by (auto intro: insert_tokens_nt)
next
  let ?fin = "[(T_RB, S_none), (T_RP, S_none), (T_RB, S_none)]"
  let ?rest = "u @ [(T_RB, S_none), (T_RB, S_none), (T_RP, S_none), (T_RB, S_none)]"
  have part: "p_field g (named_part k u @ ?fin) = Bad ?rest" "next_word (named_part k u @ ?fin)"
    by (simp_all add: p_field_def named_part_def field_prods_def)
  obtain ws where ws: "v = concat ws" "list_all2 (field_nt g) ws xs" "xs \<noteq> []" using v unfolding plus_nt_iff by blast
  have fields: "p_list (p_field g) (v @ named_part k u @ ?fin) = Bad ?rest"
    unfolding ws(1) using ws(2,3) part by (intro field_item.list_stops) simp_all
  obtain n x vs where "v = (T_WORD, S_string n) # (T_COLON, S_none) # x # vs" "fst x \<in> set field_prods"
    using field_list_starts [OF v] by blast
  then have "p_entity g (v @ named_part k u @ ?fin) = Bad ?rest"
    using fields by (auto simp: p_entity_def field_prods_def)
  then show "p_query g (insert_tokens cmd w (v @ named_part k u)) = Bad ?rest"
    by (simp add: insert_tokens_def p_entity_body_def p_list_def)
qed

definition sample_fields :: "string \<Rightarrow> int \<Rightarrow> tok list" where
  "sample_fields k n = [(T_WORD, S_string k), (T_COLON, S_none), (T_INT, S_int n)]"

lemma sample_fields_nt:
  "field_list_nt g (sample_fields k n) [FieldNode_ctor g (bytes k) (FInt (word_of_int n))]"
  unfolding sample_fields_def by (rule plus_one) (simp add: field_nt_simps field_prods_def)

theorem parser_reads_grammar_witness:
  "\<exists>q. yyparse sample_mem (insert_tokens INSERT ''K'' (sample_fields ''a'' 1)) = ([q], [], True)"
proof -
  let ?es = "[EntityNode_root [FieldNode_ctor sample_mem (bytes ''a'') (FInt (word_of_int 1))]]"
  let ?q = "InsertQueryNode INSERT \<lparr>eb_typeName = bytes ''K'', eb_entityList = ?es\<rparr>"
  have "query_list_nt sample_mem (insert_tokens INSERT ''K'' (sample_fields ''a'' 1)) [?q]"
    by (intro plus_one insert_tokens_nt entity_root sample_fields_nt)
  moreover have "\<forall>q \<in> set [?q]. readable q" by (simp add: groups_last_def)
  ultimately show ?thesis
    using parser_reads_grammar [of sample_mem "insert_tokens INSERT ''K'' (sample_fields ''a'' 1)" "[?q]" "[]"] by blast
qed

theorem part_after_group_rejected_witness:
  "\<exists>q. query_nt sample_mem (insert_tokens INSERT ''K'' (sample_fields ''a'' 1 @ named_part ''c'' (sample_fields ''b'' 2))) q \<and>
    p_query sample_mem (insert_tokens INSERT ''K'' (sample_fields ''a'' 1 @ named_part ''c'' (sample_fields ''b'' 2))) =
      Bad (sample_fields ''b'' 2 @ [(T_RB, S_none), (T_RB, S_none), (T_RP, S_none), (T_RB, S_none)])"
proof -
  show ?thesis using part_after_group_rejected [OF sample_fields_nt [of sample_mem "''a''" 1] sample_fields_nt [of sample_mem "''b''" 2],
    of INSERT "''K''" "''c''"] by blast
qed

text \<open>C40: the loop around the parser. However the text goes on after errors, as many calls as there are
  tokens are enough to use it up: from then on \<^verbatim>\<open>while (true)\<close> runs without reading a token or making a
  statement, and never ends.\<close>

theorem parse_runs_dry: "length ts \<le> n \<Longrightarrow> parse n g ts = (fst (parse (length ts) g ts), [])"
  by (rule parse_enough)

theorem parse_runs_dry_witness: "parse 3 sample_mem [(T_ERR, S_none), (T_RB, S_none)] = ([], [])"
proof -
  let ?ts = "[(T_ERR, S_none), (T_RB, S_none)] :: tok list"
  have y: "yyparse sample_mem ?ts = ([], [(T_RB, S_none)], False)" "yyparse sample_mem [(T_RB, S_none)] = ([], [], False)"
    by (simp_all add: yyparse.simps)
  have "length ?ts \<le> 3" by simp
  from parse_runs_dry [OF this, of sample_mem] y show ?thesis by simp
qed

end
