(* ===== verification/File_Inv.thy ===== *)
theory File_Inv
  imports File_Store
begin

text \<open>
  The invariant of an open database file: every section is well-formed, sections do not overlap,
  they lie between the file header and \<^verbatim>\<open>lst_sect_ptr\<close>, and the file header on disk is the one in
  memory. Any section operation with the contract of theory \<open>Sect_Step\<close> keeps it, whichever section
  it runs on, and so does adding a section.
\<close>

subsection \<open>The invariant\<close>

definition sects :: "File \<Rightarrow> Sect_head list" where
  "sects F = f_extent F @ f_types F"

definition apart :: "nat \<Rightarrow> nat \<Rightarrow> bool" where
  "apart a b \<longleftrightarrow> a + 8192 \<le> b \<or> b + 8192 \<le> a"

definition offsets :: "File \<Rightarrow> nat list" where
  "offsets F = map (unat \<circ> file_offset) (sects F)"

definition file_inv :: "File \<Rightarrow> bool" where
  "file_inv F \<longleftrightarrow>
     file_ok (filp F) \<and> (\<forall>h \<in> set (sects F). sect_wf (h, filp F)) \<and>
     sorted_wrt apart (offsets F) \<and>
     (\<forall>a \<in> set (offsets F). 8 \<le> a \<and> a + 8192 \<le> unat (lst_sect_ptr F)) \<and>
     8 \<le> unat (lst_sect_ptr F) \<and> unat (lst_sect_ptr F) \<le> fcap (filp F) \<and>
     8 \<le> fsize (filp F) \<and> fget (filp F) 0 8 = enc64 (lst_sect_ptr F)"

lemma apart_sym: "apart a b \<longleftrightarrow> apart b a"
  by (auto simp: apart_def)

lemma sorted_wrt_apart:
  assumes "sorted_wrt apart as" "i < length as" "j < length as" "i \<noteq> j"
  shows "apart (as ! i) (as ! j)"
proof (cases "i < j")
  case True
  then show ?thesis using assms sorted_wrt_nth_less by blast
next
  case False
  then have "j < i" using assms by simp
  then show ?thesis using assms sorted_wrt_nth_less apart_sym by blast
qed

lemma file_invD:
  assumes "file_inv F"
  shows "file_ok (filp F)" "h \<in> set (f_extent F) \<Longrightarrow> sect_wf (h, filp F)"
    "h \<in> set (f_types F) \<Longrightarrow> sect_wf (h, filp F)"
    "unat (lst_sect_ptr F) \<le> fcap (filp F)" "8 \<le> unat (lst_sect_ptr F)"
    "8 \<le> fsize (filp F)" "fget (filp F) 0 8 = enc64 (lst_sect_ptr F)"
    "h \<in> set (sects F) \<Longrightarrow> 8 \<le> unat (file_offset h) \<and> unat (file_offset h) + 8192 \<le> unat (lst_sect_ptr F)"
    "h \<in> set (sects F) \<Longrightarrow> sect_wf (h, filp F)"
  using assms by (auto simp: file_inv_def sects_def offsets_def)

lemma sects_apart:
  assumes "file_inv F" "i < length (sects F)" "j < length (sects F)" "i \<noteq> j"
  shows "apart (unat (file_offset (sects F ! i))) (unat (file_offset (sects F ! j)))"
  using assms sorted_wrt_apart [of "offsets F" i j] by (simp add: file_inv_def offsets_def)

text \<open>Two sections at one offset are the same.\<close>

lemma ext_types_apart:
  assumes "file_inv F" "h \<in> set (f_extent F)" "g \<in> set (f_types F)"
  shows "apart (unat (file_offset h)) (unat (file_offset g))"
proof -
  obtain i j where "i < length (f_extent F)" "f_extent F ! i = h" "j < length (f_types F)" "f_types F ! j = g"
    using assms by (auto simp: in_set_conv_nth)
  then show ?thesis
    using sects_apart [OF assms(1), of i "length (f_extent F) + j"] by (auto simp: sects_def nth_append)
qed

subsection \<open>Streams and sections change together\<close>

text \<open>A section is not touched by a change outside its bytes.\<close>

lemma sect_wf_other:
  assumes "sect_wf (h, f)" "file_ok f'" "fcap f' = fcap f" "fsize f \<le> fsize f'"
    and "\<And>i. unat (file_offset h) \<le> i \<Longrightarrow> i < unat (file_offset h) + 8192 \<Longrightarrow> fdata f' i = fdata f i"
  shows "sect_wf (h, f')"
proof -
  have "fget f' (unat (file_offset h)) 32 = fget f (unat (file_offset h)) 32"
    by (rule fget_cong) (simp add: assms(5))
  with assms show ?thesis by (auto simp: sect_wf_def)
qed

text \<open>The one place where a step of a section meets the other sections.\<close>

lemma file_inv_update:
  assumes inv: "file_inv F" and n: "n < length (sects F)"
    and step: "sect_step (sects F ! n, filp F) (h', f')"
    and F': "sects F' = (sects F)[n := h']" "filp F' = f'" "lst_sect_ptr F' = lst_sect_ptr F"
  shows "file_inv F'"
proof -
  let ?h = "sects F ! n"
  note st = sect_stepD [OF step]
  have hb: "8 \<le> unat (file_offset ?h)" using file_invD(8) [OF inv] n by simp
  have ok: "file_ok f'" using st(1) by (simp add: sect_wf_def)
  have offs: "offsets F' = offsets F"
    by (simp add: offsets_def F' map_update st(2))
      (metis (no_types, lifting) comp_apply length_map list_update_id n nth_map)
  have wf: "sect_wf (h, f')" if mem: "h \<in> set (sects F')" for h
  proof -
    obtain m where m: "m < length ((sects F)[n := h'])" "(sects F)[n := h'] ! m = h"
      using mem unfolding F'(1) in_set_conv_nth by blast
    then have ml: "m < length (sects F)" by simp
    show ?thesis
    proof (cases "m = n")
      case True
      with m ml st(1) show ?thesis by auto
    next
      case False
      have h: "h = sects F ! m"
        using m(2) nth_list_update_neq [of n m "sects F" h'] False by metis
      have ap: "apart (unat (file_offset h)) (unat (file_offset ?h))"
        unfolding h using False by (rule sects_apart [OF inv ml n])
      have "sect_wf (h, filp F)"
        unfolding h using file_invD(9) [OF inv nth_mem [OF ml]] .
      then show ?thesis
      proof (rule sect_wf_other [OF _ ok st(3,4)])
        fix i assume "unat (file_offset h) \<le> i" "i < unat (file_offset h) + 8192"
        with ap have "i < unat (file_offset ?h) \<or> unat (file_offset ?h) + 8192 \<le> i"
          unfolding apart_def by linarith
        then show "fdata f' i = fdata (filp F) i" by (rule st(5))
      qed
    qed
  qed
  have head: "fget f' 0 8 = fget (filp F) 0 8"
    using hb st(5) by (intro fget_cong) auto
  show ?thesis
    using inv wf offs head ok st(3,4) by (auto simp: file_inv_def F')
qed

lemma file_inv_ext:
  assumes "file_inv F" "i < length (f_extent F)" "sect_step (f_extent F ! i, filp F) (h', f')"
  shows "file_inv (F\<lparr>filp := f', f_extent := (f_extent F)[i := h']\<rparr>)"
proof (rule file_inv_update [OF assms(1)])
  show "i < length (sects F)" using assms(2) by (simp add: sects_def)
  show "sect_step (sects F ! i, filp F) (h', f')"
    using assms(2,3) by (simp add: sects_def nth_append)
  show "sects (F\<lparr>filp := f', f_extent := (f_extent F)[i := h']\<rparr>) = (sects F)[i := h']"
    using assms(2) by (simp add: sects_def list_update_append1)
qed simp_all

lemma file_inv_types:
  assumes "file_inv F" "i < length (f_types F)" "sect_step (f_types F ! i, filp F) (h', f')"
  shows "file_inv (F\<lparr>filp := f', f_types := (f_types F)[i := h']\<rparr>)"
proof (rule file_inv_update [OF assms(1)])
  let ?n = "length (f_extent F) + i"
  show "?n < length (sects F)" using assms(2) by (simp add: sects_def)
  show "sect_step (sects F ! ?n, filp F) (h', f')"
    using assms(3) by (simp add: sects_def nth_append)
  show "sects (F\<lparr>filp := f', f_types := (f_types F)[i := h']\<rparr>) = (sects F)[?n := h']"
    by (simp add: sects_def list_update_append)
qed simp_all

text \<open>The contract of a section operation carries over to the file.\<close>

context section_op
begin

lemma on_ext_inv:
  assumes "file_inv F" "i < length (f_extent F)" "pre (f_extent F ! i, filp F)"
  obtains r h' f' where "on_ext i op F = Some (r, F\<lparr>filp := f', f_extent := (f_extent F)[i := h']\<rparr>)"
    "file_inv (F\<lparr>filp := f', f_extent := (f_extent F)[i := h']\<rparr>)"
    "sect_step (f_extent F ! i, filp F) (h', f')" "op (f_extent F ! i, filp F) = Some (r, (h', f'))"
proof -
  obtain r h' f' where "op (f_extent F ! i, filp F) = Some (r, (h', f'))"
    "sect_step (f_extent F ! i, filp F) (h', f')"
    using op_step [OF file_invD(2) [OF assms(1)]] assms(2,3) by (metis nth_mem)
  with assms file_inv_ext show ?thesis by (intro that) (auto simp: on_ext_def)
qed

lemma on_types_inv:
  assumes "file_inv F" "i < length (f_types F)" "pre (f_types F ! i, filp F)"
  obtains r h' f' where "on_types i op F = Some (r, F\<lparr>filp := f', f_types := (f_types F)[i := h']\<rparr>)"
    "file_inv (F\<lparr>filp := f', f_types := (f_types F)[i := h']\<rparr>)"
    "sect_step (f_types F ! i, filp F) (h', f')" "op (f_types F ! i, filp F) = Some (r, (h', f'))"
proof -
  obtain r h' f' where "op (f_types F ! i, filp F) = Some (r, (h', f'))"
    "sect_step (f_types F ! i, filp F) (h', f')"
    using op_step [OF file_invD(3) [OF assms(1)]] assms(2,3) by (metis nth_mem)
  with assms file_inv_types show ?thesis by (intro that) (auto simp: on_types_def)
qed

end

subsection \<open>Finding the section of an offset\<close>

lemma find_sect_hit:
  assumes "i < length hs" "file_offset (hs ! i) \<le> foff" "file_offset (hs ! i) + SECTION_SIZE > foff"
    and "\<And>j. j < i \<Longrightarrow> \<not> (file_offset (hs ! j) \<le> foff \<and> file_offset (hs ! j) + SECTION_SIZE > foff)"
  shows "find_sect n hs foff = Some (n + i)"
  using assms
proof (induction hs arbitrary: n i)
  case (Cons h hs)
  show ?case
  proof (cases i)
    case 0
    with Cons.prems show ?thesis by simp
  next
    case (Suc k)
    have "\<not> (file_offset h \<le> foff \<and> file_offset h + SECTION_SIZE > foff)"
      using Cons.prems(4) [of 0] Suc by simp
    moreover have "find_sect (Suc n) hs foff = Some (Suc n + k)"
      using Cons.prems Cons.prems(4) [of "Suc _"] Suc by (intro Cons.IH) auto
    ultimately show ?thesis using Suc by auto
  qed
qed simp

lemma sect_range_iff:
  assumes "sect_wf (h, f)"
  shows "file_offset h \<le> foff \<and> file_offset h + SECTION_SIZE > foff \<longleftrightarrow>
    unat (file_offset h) \<le> unat foff \<and> unat foff < unat (file_offset h) + 8192"
proof -
  have "unat (file_offset h + SECTION_SIZE) = unat (file_offset h) + 8192"
    using assms by (subst unat_add_small) (auto simp: sect_wf_def file_ok_def)
  then show ?thesis by (simp add: word_le_nat_alt word_less_nat_alt)
qed

lemma find_sect_apart:
  assumes i: "i < length hs" and wf: "\<And>j. j < length hs \<Longrightarrow> sect_wf (hs ! j, f)"
    and apart: "\<And>j. j < i \<Longrightarrow> apart (unat (file_offset (hs ! i))) (unat (file_offset (hs ! j)))"
    and r: "unat (file_offset (hs ! i)) \<le> unat foff" "unat foff < unat (file_offset (hs ! i)) + 8192"
  shows "find_sect 0 hs foff = Some i"
proof -
  have "find_sect 0 hs foff = Some (0 + i)"
  proof (rule find_sect_hit [OF i])
    show "file_offset (hs ! i) \<le> foff" "foff < file_offset (hs ! i) + SECTION_SIZE"
      using sect_range_iff [OF wf [OF i], of foff] r by simp_all
    show "\<not> (file_offset (hs ! j) \<le> foff \<and> foff < file_offset (hs ! j) + SECTION_SIZE)" if "j < i" for j
      using sect_range_iff [OF wf, of j foff] that i apart [OF that] r by (auto simp: apart_def)
  qed
  then show ?thesis by simp
qed

lemma get_sect_ext_hit:
  assumes inv: "file_inv F" and i: "i < length (f_extent F)"
    and r: "unat (file_offset (f_extent F ! i)) \<le> unat foff" "unat foff < unat (file_offset (f_extent F ! i)) + 8192"
  shows "get_sect_ext F foff = Some i"
  unfolding get_sect_ext_def
proof (rule find_sect_apart [OF i _ _ r])
  show "sect_wf (f_extent F ! j, filp F)" if "j < length (f_extent F)" for j
    using that file_invD(2) [OF inv] by simp
  show "apart (unat (file_offset (f_extent F ! i))) (unat (file_offset (f_extent F ! j)))" if "j < i" for j
    using sects_apart [OF inv, of i j] that i by (simp add: sects_def nth_append)
qed

lemma get_sect_types_hit:
  assumes inv: "file_inv F" and i: "i < length (f_types F)"
    and r: "unat (file_offset (f_types F ! i)) \<le> unat foff" "unat foff < unat (file_offset (f_types F ! i)) + 8192"
  shows "get_sect_types F foff = Some i"
  unfolding get_sect_types_def
proof (rule find_sect_apart [OF i _ _ r])
  show "sect_wf (f_types F ! j, filp F)" if "j < length (f_types F)" for j
    using that file_invD(3) [OF inv] by simp
  show "apart (unat (file_offset (f_types F ! i))) (unat (file_offset (f_types F ! j)))" if "j < i" for j
    using sects_apart [OF inv, of "length (f_extent F) + i" "length (f_extent F) + j"] that i
    by (simp add: sects_def nth_append)
qed

text \<open>An address inside a section, and the section's view of it.\<close>

lemma fileoff_in_sect:
  assumes "sect_wf (h, f)" "unat soff < 8192"
  shows "unat (sect_head_get_fileoff h soff) = unat (file_offset h) + unat soff"
    "sect_head_get_sectoff h (sect_head_get_fileoff h soff) = soff"
proof -
  show "unat (sect_head_get_fileoff h soff) = unat (file_offset h) + unat soff"
    using assms by (intro unat_fileoff) (auto simp: sect_wf_def)
qed (simp add: sect_head_get_sectoff_def sect_head_get_fileoff_def)

subsection \<open>The file header\<close>

lemma on_filp_eq: "m (filp F) = Some (r, f') \<Longrightarrow> on_filp m F = Some (r, F\<lparr>filp := f'\<rparr>)"
  by (simp add: on_filp_def)

text \<open>Under the invariant writing the file header changes nothing.\<close>

lemma file_head_sync_inv: "file_inv F \<Longrightarrow> file_head_sync F = Some (Some (), F)"
proof -
  assume inv: "file_inv F"
  have "fput (filp F) 0 (enc64 (lst_sect_ptr F)) = filp F"
    using fput_fget_same [of 0 8 "filp F"] file_invD(6,7) [OF inv] by simp
  moreover have "8 \<le> fcap (filp F)"
    using file_invD(4,5) [OF inv] by simp
  ultimately have "SAVE_FILP (RA_FWRITE_OR_FAIL (enc64 (lst_sect_ptr F)) 0) (filp F) = Some (Some (), filp F)"
    using saved_write_ok [OF file_invD(1) [OF inv], of "enc64 (lst_sect_ptr F)" 0] by simp
  then show ?thesis by (simp add: file_head_sync_def on_filp_def)
qed

text \<open>An empty database.\<close>

definition empty_db :: "nat \<Rightarrow> File" where
  "empty_db cap = \<lparr>lst_sect_ptr = 8, filp = fput (fopen_w cap) 0 (enc64 8), f_extent = [], f_types = []\<rparr>"

lemma file_ctor_fopen:
  assumes "8 \<le> cap" "cap < LONG_LIMIT"
  shows "file_ctor (fopen_w cap) F =
    Some (Some (), F\<lparr>lst_sect_ptr := 8, filp := fput (fopen_w cap) 0 (enc64 8), f_extent := [], f_types := []\<rparr>)"
proof -
  have "SAVE_FILP (RA_FWRITE_OR_FAIL (enc64 8) 0) (fopen_w cap) = Some (Some (), fput (fopen_w cap) 0 (enc64 8))"
    using assms saved_write_ok [OF file_ok_fopen, of cap "enc64 8" 0] by (simp add: fopen_w_def)
  then show ?thesis
    by (cases F) (simp add: file_ctor_def file_head_ctor_def file_head_sync_def on_filp_def)
qed

lemma empty_db_inv: "8 \<le> cap \<Longrightarrow> cap < LONG_LIMIT \<Longrightarrow> file_inv (empty_db cap)"
  using file_ok_fopen [of cap]
  by (simp add: file_inv_def empty_db_def sects_def offsets_def fsize_fput) (simp add: fopen_w_def)

subsection \<open>Adding a section\<close>

text \<open>The stream and the header fields after a section was added at \<^verbatim>\<open>lst_sect_ptr\<close>.\<close>

definition added_filp :: "File \<Rightarrow> FILE" where
  "added_filp F = fput (synced (fresh_head (lst_sect_ptr F)) (filp F)) 0 (enc64 (lst_sect_ptr F + 8192))"

definition add_ext :: "File \<Rightarrow> File" where
  "add_ext F = F\<lparr>lst_sect_ptr := lst_sect_ptr F + 8192, filp := added_filp F,
     f_extent := f_extent F @ [fresh_head (lst_sect_ptr F)]\<rparr>"

definition add_types :: "File \<Rightarrow> File" where
  "add_types F = F\<lparr>lst_sect_ptr := lst_sect_ptr F + 8192, filp := added_filp F,
     f_types := f_types F @ [fresh_head (lst_sect_ptr F)]\<rparr>"

definition room_for_sect :: "File \<Rightarrow> bool" where
  "room_for_sect F \<longleftrightarrow> unat (lst_sect_ptr F) + 8192 \<le> fcap (filp F)"

lemma added_filp_fields [simp]:
  "fcap (added_filp F) = fcap (filp F)" "fpos (added_filp F) = fpos (filp F)"
  by (simp_all add: added_filp_def)

lemma fdata_added:
  "8 \<le> i \<Longrightarrow> i < unat (lst_sect_ptr F) \<Longrightarrow> fdata (added_filp F) i = fdata (filp F) i"
  by (simp add: added_filp_def fdata_fput fdata_synced fresh_head_def)

lemma added_facts:
  assumes inv: "file_inv F" and room: "room_for_sect F"
  shows "unat (lst_sect_ptr F + 8192) = unat (lst_sect_ptr F) + 8192"
    "file_ok (added_filp F)" "sect_wf (fresh_head (lst_sect_ptr F), added_filp F)"
    "fsize (filp F) \<le> fsize (added_filp F)" "fget (added_filp F) 0 8 = enc64 (lst_sect_ptr F + 8192)"
proof -
  note d = file_invD [OF inv]
  show s: "unat (lst_sect_ptr F + 8192) = unat (lst_sect_ptr F) + 8192"
    using room d(1) by (subst unat_add_small) (simp_all add: room_for_sect_def file_ok_def)
  have fr: "sect_wf (fresh_head (lst_sect_ptr F), synced (fresh_head (lst_sect_ptr F)) (filp F))"
    using room d(1) by (intro sect_head_ctor_ok(2)) (simp_all add: room_for_sect_def)
  then have ok: "file_ok (synced (fresh_head (lst_sect_ptr F)) (filp F))"
    by (simp add: sect_wf_def)
  then show k: "file_ok (added_filp F)"
    unfolding added_filp_def using d(4,5) by (intro file_ok_fput) simp_all
  show "fsize (filp F) \<le> fsize (added_filp F)"
    by (simp add: added_filp_def fsize_fput fsize_synced)
  show "fget (added_filp F) 0 8 = enc64 (lst_sect_ptr F + 8192)"
    by (simp add: added_filp_def)
  show "sect_wf (fresh_head (lst_sect_ptr F), added_filp F)"
    using fr
  proof (rule sect_wf_other [OF _ k])
    show "fsize (synced (fresh_head (lst_sect_ptr F)) (filp F)) \<le> fsize (added_filp F)"
      by (simp add: added_filp_def fsize_fput)
    fix i assume "unat (file_offset (fresh_head (lst_sect_ptr F))) \<le> i"
    then have "8 \<le> i" using d(5) by (simp add: fresh_head_def)
    then show "fdata (added_filp F) i = fdata (synced (fresh_head (lst_sect_ptr F)) (filp F)) i"
      by (simp add: added_filp_def fdata_fput)
  qed (simp add: added_filp_def)
qed

lemma file_add_sect_steps:
  assumes inv: "file_inv F" and room: "room_for_sect F"
  shows "sect_head_ctor (lst_sect_ptr F) (sect_head_new, filp F) =
      Some (Some (), (fresh_head (lst_sect_ptr F), synced (fresh_head (lst_sect_ptr F)) (filp F)))"
    "lst_sect_ptr G = lst_sect_ptr F \<Longrightarrow> filp G = synced (fresh_head (lst_sect_ptr F)) (filp F) \<Longrightarrow>
     file_head_shift_lsp SECTION_SIZE G =
       Some (Some (), G\<lparr>lst_sect_ptr := lst_sect_ptr F + 8192, filp := added_filp F\<rparr>)"
proof -
  note d = file_invD [OF inv]
  have r: "unat (lst_sect_ptr F) + 8192 \<le> fcap (filp F)" using room by (simp add: room_for_sect_def)
  show "sect_head_ctor (lst_sect_ptr F) (sect_head_new, filp F) =
      Some (Some (), (fresh_head (lst_sect_ptr F), synced (fresh_head (lst_sect_ptr F)) (filp F)))"
    using d(1) r by (rule sect_head_ctor_ok(1))
  have "file_ok (synced (fresh_head (lst_sect_ptr F)) (filp F))"
    using sect_head_ctor_ok(2) [OF d(1) r] by (simp add: sect_wf_def)
  then have w: "SAVE_FILP (RA_FWRITE_OR_FAIL (enc64 (lst_sect_ptr F + 8192)) 0)
      (synced (fresh_head (lst_sect_ptr F)) (filp F)) = Some (Some (), added_filp F)"
    unfolding added_filp_def using d(4,5) by (subst saved_write_ok) simp_all
  show "file_head_shift_lsp SECTION_SIZE G =
       Some (Some (), G\<lparr>lst_sect_ptr := lst_sect_ptr F + 8192, filp := added_filp F\<rparr>)"
    if "lst_sect_ptr G = lst_sect_ptr F" "filp G = synced (fresh_head (lst_sect_ptr F)) (filp F)"
    using that w by (cases G) (simp add: file_head_shift_lsp_def file_head_sync_def on_filp_def)
qed

lemma file_add_sect_ext_ok:
  assumes "file_inv F" "room_for_sect F"
  shows "file_add_sect_ext F = Some (Some (length (f_extent F)), add_ext F)"
proof -
  let ?G = "F\<lparr>filp := synced (fresh_head (lst_sect_ptr F)) (filp F),
      f_extent := f_extent F @ [fresh_head (lst_sect_ptr F)]\<rparr>"
  have "?G\<lparr>lst_sect_ptr := lst_sect_ptr F + 8192, filp := added_filp F\<rparr> = add_ext F"
    by (cases F) (simp add: add_ext_def)
  then have "file_head_shift_lsp SECTION_SIZE ?G = Some (Some (), add_ext F)"
    using file_add_sect_steps(2) [OF assms, of ?G] by simp
  then show ?thesis
    by (simp add: file_add_sect_ext_def sect_ext_ctor_def file_add_sect_steps(1) [OF assms])
qed

lemma file_add_sect_types_ok:
  assumes "file_inv F" "room_for_sect F"
  shows "file_add_sect_types F = Some (Some (length (f_types F)), add_types F)"
proof -
  let ?G = "F\<lparr>filp := synced (fresh_head (lst_sect_ptr F)) (filp F),
      f_types := f_types F @ [fresh_head (lst_sect_ptr F)]\<rparr>"
  have "?G\<lparr>lst_sect_ptr := lst_sect_ptr F + 8192, filp := added_filp F\<rparr> = add_types F"
    by (cases F) (simp add: add_types_def)
  then have "file_head_shift_lsp SECTION_SIZE ?G = Some (Some (), add_types F)"
    using file_add_sect_steps(2) [OF assms, of ?G] by simp
  then show ?thesis
    by (simp add: file_add_sect_types_def sect_types_ctor_def file_add_sect_steps(1) [OF assms])
qed

lemma file_inv_added:
  assumes inv: "file_inv F" and room: "room_for_sect F"
    and F': "filp F' = added_filp F" "lst_sect_ptr F' = lst_sect_ptr F + 8192"
    and s: "sects F' = xs @ [fresh_head (lst_sect_ptr F)] @ ys" "sects F = xs @ ys"
  shows "file_inv F'"
proof -
  note d = file_invD [OF inv] and a = added_facts [OF inv room]
  have wf: "sect_wf (h, added_filp F)" if "h \<in> set (sects F)" for h
  proof (rule sect_wf_other [OF d(9) [OF that] a(2) _ a(4)])
    fix i assume "unat (file_offset h) \<le> i" "i < unat (file_offset h) + 8192"
    with d(8) [OF that] show "fdata (added_filp F) i = fdata (filp F) i"
      by (intro fdata_added) simp_all
  qed simp
  have offs: "sorted_wrt apart (offsets F')"
    using inv by (auto simp: file_inv_def offsets_def s sorted_wrt_append apart_def fresh_head_def)
  have rng: "\<forall>b \<in> set (offsets F'). 8 \<le> b \<and> b + 8192 \<le> unat (lst_sect_ptr F')"
    using d(5,8) unfolding offsets_def by (fastforce simp: s F' a(1) fresh_head_def)
  have rm: "unat (lst_sect_ptr F) + 8192 \<le> fcap (filp F)"
    using room by (simp add: room_for_sect_def)
  have sz: "8 \<le> fsize (added_filp F)" using d(6) a(4) by simp
  show ?thesis
    unfolding file_inv_def
    using wf offs rng rm sz d(5) a(1,2,3,5) by (auto simp: F' s)
qed

lemma add_ext_inv: "file_inv F \<Longrightarrow> room_for_sect F \<Longrightarrow> file_inv (add_ext F)"
  by (rule file_inv_added [where xs = "f_extent F" and ys = "f_types F"]) (simp_all add: add_ext_def sects_def)

lemma add_types_inv: "file_inv F \<Longrightarrow> room_for_sect F \<Longrightarrow> file_inv (add_types F)"
  by (rule file_inv_added [where xs = "sects F" and ys = "[]"]) (simp_all add: add_types_def sects_def)

end
