(* ===== verification/Stored.thy ===== *)
theory Stored
  imports File_Inv
begin

text \<open>
  Documents on disk. \<open>stored A F a dad tp j\<close> says that the document \<open>j\<close> lies in the file at address
  \<open>a\<close>, linked to its parent \<open>dad\<close> and its type \<open>tp\<close>, with all its bytes inside \<open>A\<close>. Writing stores a
  document in bytes that were free (theory \<open>Round_Trip\<close>), reading a stored document gives it back, and
  whatever only extends the file keeps it stored.
\<close>

subsection \<open>Growing files\<close>

definition ext_alloc :: "File \<Rightarrow> nat set" where
  "ext_alloc F = (\<Union>h \<in> set (f_extent F). sect_alloc h)"

definition sect_bytes :: "Sect_head \<Rightarrow> nat set" where
  "sect_bytes h = {unat (file_offset h) ..< unat (file_offset h) + 8192}"

definition protected :: "File \<Rightarrow> nat set" where
  "protected F = ext_alloc F \<union> (\<Union>h \<in> set (f_types F). sect_bytes h)"

definition ext_grow :: "File \<Rightarrow> File \<Rightarrow> bool" where
  "ext_grow F F' \<longleftrightarrow> length (f_extent F) \<le> length (f_extent F') \<and>
     (\<forall>i < length (f_extent F). head_grows (f_extent F ! i) (f_extent F' ! i))"

definition sects_grow :: "File \<Rightarrow> File \<Rightarrow> bool" where
  "sects_grow F F' \<longleftrightarrow> ext_grow F F' \<and> f_types F' = f_types F \<and> fcap (filp F') = fcap (filp F)"

text \<open>Nothing that was allocated for documents, and nothing in a section of types, has changed.\<close>

definition extends :: "File \<Rightarrow> File \<Rightarrow> bool" where
  "extends F F' \<longleftrightarrow> sects_grow F F' \<and> (\<forall>i \<in> protected F. fdata (filp F') i = fdata (filp F) i)"

lemma ext_grow_refl [simp]: "ext_grow F F"
  by (simp add: ext_grow_def)

lemma sects_grow_ext: "sects_grow F F' \<Longrightarrow> ext_grow F F'"
  by (simp add: sects_grow_def)

lemma sects_grow_refl [simp]: "sects_grow F F"
  by (simp add: sects_grow_def ext_grow_def)

lemma sects_grow_trans: "sects_grow F F' \<Longrightarrow> sects_grow F' F'' \<Longrightarrow> sects_grow F F''"
  by (auto simp: sects_grow_def ext_grow_def intro: head_grows_trans)

lemma ext_alloc_mono: "sects_grow F F' \<Longrightarrow> ext_alloc F \<subseteq> ext_alloc F'"
proof
  fix i assume g: "sects_grow F F'" and "i \<in> ext_alloc F"
  then obtain n where n: "n < length (f_extent F)" "i \<in> sect_alloc (f_extent F ! n)"
    by (auto simp: ext_alloc_def in_set_conv_nth)
  with g have "i \<in> sect_alloc (f_extent F' ! n)" "n < length (f_extent F')"
    using sect_alloc_mono by (auto simp: sects_grow_def ext_grow_def)
  then show "i \<in> ext_alloc F'" by (auto simp: ext_alloc_def)
qed

lemma protected_mono: "sects_grow F F' \<Longrightarrow> protected F \<subseteq> protected F'"
  using ext_alloc_mono [of F F'] by (auto simp: protected_def sects_grow_def)

lemma extends_refl [simp]: "extends F F"
  by (simp add: extends_def)

lemma extends_grow: "extends F F' \<Longrightarrow> sects_grow F F'"
  by (simp add: extends_def)

lemma extends_trans: "extends F F' \<Longrightarrow> extends F' F'' \<Longrightarrow> extends F F''"
  using protected_mono [of F F'] by (auto simp: extends_def intro: sects_grow_trans)

lemma sect_alloc_bytes: "sect_wf (h, f) \<Longrightarrow> sect_alloc h \<subseteq> sect_bytes h"
  by (auto simp: sect_wf_def sect_alloc_def sect_bytes_def Let_def)

lemma sect_bytes_disjoint: "apart (unat (file_offset h)) (unat (file_offset g)) \<Longrightarrow> sect_bytes h \<inter> sect_bytes g = {}"
  by (auto simp: apart_def sect_bytes_def)

text \<open>A byte of one section of documents is protected only by that section.\<close>

lemma protected_local:
  assumes inv: "file_inv F" and n: "n < length (f_extent F)" and i: "i \<in> sect_bytes (f_extent F ! n)"
    and p: "i \<in> protected F"
  shows "i \<in> sect_alloc (f_extent F ! n)"
proof -
  have "sect_bytes (f_extent F ! n) \<inter> sect_bytes h = {}" if "h \<in> set (f_types F)" for h
    using ext_types_apart [OF inv _ that] n by (intro sect_bytes_disjoint) simp
  with i p have "i \<in> ext_alloc F" by (auto simp: protected_def)
  then obtain m where m: "m < length (f_extent F)" "i \<in> sect_alloc (f_extent F ! m)"
    by (auto simp: ext_alloc_def in_set_conv_nth)
  then have im: "i \<in> sect_bytes (f_extent F ! m)"
    using sect_alloc_bytes file_invD(2) [OF inv] by (meson nth_mem subsetD)
  have "m = n"
  proof (rule ccontr)
    assume "m \<noteq> n"
    then have "apart (unat (file_offset (f_extent F ! m))) (unat (file_offset (f_extent F ! n)))"
      using sects_apart [OF inv, of m n] m n by (simp add: sects_def nth_append)
    from sect_bytes_disjoint [OF this] im i show False by auto
  qed
  with m show ?thesis by simp
qed

subsection \<open>Placing an entity\<close>

definition ext_after :: "File \<Rightarrow> nat \<Rightarrow> String \<Rightarrow> u8 list \<Rightarrow> Entity \<Rightarrow> File" where
  "ext_after F i key val ent = F\<lparr>filp := file_after (f_extent F ! i) (filp F) key val ent,
     f_extent := (f_extent F)[i := head_after (f_extent F ! i) key val]\<rparr>"

lemma ext_after_fields [simp]:
  "lst_sect_ptr (ext_after F i key val ent) = lst_sect_ptr F" "f_types (ext_after F i key val ent) = f_types F"
  "fcap (filp (ext_after F i key val ent)) = fcap (filp F)"
  "length (f_extent (ext_after F i key val ent)) = length (f_extent F)"
  by (simp_all add: ext_after_def)

lemma on_ext_write:
  assumes inv: "file_inv F" and i: "i < length (f_extent F)" and len: "length key + length val + 80 < 18446744073709551616"
  shows "\<not> fits (f_extent F ! i) key val \<Longrightarrow>
      on_ext i (sect_ext_write key val ent) F = Some (None, F)"
    "fits (f_extent F ! i) key val \<Longrightarrow> on_ext i (sect_ext_write key val ent) F =
      Some (Some (placed (f_extent F ! i) key val ent, lst_itm_ptr (f_extent F ! i)), ext_after F i key val ent)"
proof -
  have wf: "sect_wf (f_extent F ! i, filp F)" using file_invD(2) [OF inv] i by simp
  show "on_ext i (sect_ext_write key val ent) F = Some (None, F)" if "\<not> fits (f_extent F ! i) key val"
    using sect_ext_write_full [OF wf that len] by (simp add: on_ext_def)
  show "on_ext i (sect_ext_write key val ent) F =
      Some (Some (placed (f_extent F ! i) key val ent, lst_itm_ptr (f_extent F ! i)), ext_after F i key val ent)"
    if "fits (f_extent F ! i) key val"
    using sect_ext_write_eq [OF wf that] by (simp add: on_ext_def ext_after_def)
qed

lemma ext_after_ok:
  assumes inv: "file_inv F" and i: "i < length (f_extent F)" and fits: "fits (f_extent F ! i) key val"
    and sz: "key_size ent = cnt key" "val_size ent = cnt val"
  shows "file_inv (ext_after F i key val ent)" "extends F (ext_after F i key val ent)"
    "entity_in (ext_alloc (ext_after F i key val ent) - ext_alloc F) (filp (ext_after F i key val ent))
       (f_extent (ext_after F i key val ent) ! i) (unat (lst_itm_ptr (f_extent F ! i)))
       (placed (f_extent F ! i) key val ent) key val"
proof -
  let ?h = "f_extent F ! i" and ?h' = "head_after (f_extent F ! i) key val"
  let ?f' = "file_after (f_extent F ! i) (filp F) key val ent" and ?F = "ext_after F i key val ent"
  have wf: "sect_wf (?h, filp F)" using file_invD(2) [OF inv] i by simp
  note st = sect_step_after [OF wf fits, of ent] and g = head_after_grows [OF wf fits]
  show "file_inv ?F" unfolding ext_after_def by (rule file_inv_ext [OF inv i st])
  have grow: "sects_grow F ?F"
    using g i by (auto simp: sects_grow_def ext_grow_def ext_after_def nth_list_update)
  moreover have "fdata ?f' b = fdata (filp F) b" if "b \<in> protected F" for b
  proof (cases "b \<in> sect_bytes ?h")
    case True
    then show ?thesis using protected_local [OF inv i True that] file_after_alloc [OF wf fits] by blast
  next
    case False
    then show ?thesis using sect_stepD(5) [OF st] by (auto simp: sect_bytes_def)
  qed
  ultimately show "extends F ?F" by (simp add: extends_def ext_after_def)
  have new: "sect_alloc ?h' - sect_alloc ?h \<subseteq> ext_alloc ?F - ext_alloc F"
  proof
    fix b assume b: "b \<in> sect_alloc ?h' - sect_alloc ?h"
    then have "b \<in> sect_bytes ?h"
      using sect_alloc_bytes [OF sect_stepD(1) [OF st]] by (auto simp: sect_bytes_def)
    with b have "b \<notin> protected F" using protected_local [OF inv i] by blast
    moreover have "b \<in> ext_alloc ?F"
      using b i unfolding ext_alloc_def ext_after_def by (auto intro!: bexI set_update_memI)
    ultimately show "b \<in> ext_alloc ?F - ext_alloc F" by (simp add: protected_def)
  qed
  show "entity_in (ext_alloc ?F - ext_alloc F) (filp ?F) (f_extent ?F ! i) (unat (lst_itm_ptr ?h)) (placed ?h key val ent) key val"
    using entity_in_mono [OF entity_in_after [OF wf fits sz] new] i by (simp add: ext_after_def)
qed

lemma write_in_cases:
  assumes inv: "file_inv F" and len: "length key + length val + 80 < 18446744073709551616"
    and "\<forall>i \<in> set is. i < length (f_extent F)"
  shows "write_in is key val ent F = Some (Some None, F) \<and> (\<forall>i \<in> set is. \<not> fits (f_extent F ! i) key val) \<or>
    (\<exists>i \<in> set is. fits (f_extent F ! i) key val \<and> write_in is key val ent F =
      Some (Some (Some (i, placed (f_extent F ! i) key val ent, lst_itm_ptr (f_extent F ! i))), ext_after F i key val ent))"
  using assms(3)
proof (induction "is")
  case (Cons i "is")
  have i: "i < length (f_extent F)" using Cons.prems by simp
  show ?case
  proof (cases "fits (f_extent F ! i) key val")
    case True
    then show ?thesis using on_ext_write(2) [OF inv i len True, of ent] by simp
  next
    case False
    then have "write_in (i # is) key val ent F = write_in is key val ent F"
      using on_ext_write(1) [OF inv i len False, of ent] by simp
    with Cons False show ?thesis by auto
  qed
qed simp

lemma add_ext_extends:
  assumes inv: "file_inv F" and room: "room_for_sect F"
  shows "extends F (add_ext F)" "ext_alloc (add_ext F) = ext_alloc F"
    "unat (lst_sect_ptr (add_ext F)) = unat (lst_sect_ptr F) + 8192"
proof -
  note d = file_invD [OF inv]
  have "fdata (added_filp F) b = fdata (filp F) b" if "b \<in> protected F" for b
  proof -
    obtain h where "h \<in> set (sects F)" "b \<in> sect_bytes h"
      using \<open>b \<in> protected F\<close> sect_alloc_bytes d(2)
      by (fastforce simp: protected_def ext_alloc_def sects_def)
    with d(8) show ?thesis by (intro fdata_added) (fastforce simp: sect_bytes_def)+
  qed
  then show "extends F (add_ext F)"
    by (simp add: extends_def sects_grow_def ext_grow_def add_ext_def nth_append)
  show "ext_alloc (add_ext F) = ext_alloc F"
    by (simp add: ext_alloc_def add_ext_def sect_alloc_def fresh_head_def)
  show "unat (lst_sect_ptr (add_ext F)) = unat (lst_sect_ptr F) + 8192"
    using added_facts(1) [OF inv room] by (simp add: add_ext_def)
qed

text \<open>
  Wherever an entity ends up, it lies in bytes that were free, in the next item of a section that had
  room or in the first item of a new one.
\<close>

definition placed_slot :: "File \<Rightarrow> File \<Rightarrow> nat \<Rightarrow> Sectoff \<Rightarrow> bool" where
  "placed_slot F F' i soff \<longleftrightarrow>
     (\<exists>h'. i < length (f_extent F) \<and> f_extent F' = (f_extent F)[i := h'] \<and> soff = lst_itm_ptr (f_extent F ! i) \<and>
        unat (lst_itm_ptr h') = unat soff + 80 \<and> file_offset h' = file_offset (f_extent F ! i)) \<or>
     (\<exists>h'. i = length (f_extent F) \<and> f_extent F' = f_extent F @ [h'] \<and> unat soff = 32 \<and> unat (lst_itm_ptr h') = 112)"

lemma place_entity_ok:
  assumes inv: "file_inv F" and room: "room_for_sect F" and len: "length key + length val \<le> 8080"
    and sz: "key_size ent = cnt key" "val_size ent = cnt val"
  shows "\<exists>i e soff F'. place_entity key val ent F = Some (Some (i, e, soff), F') \<and> file_inv F' \<and> extends F F' \<and>
    i < length (f_extent F') \<and> e = ent\<lparr>key_ptr := key_ptr e, val_ptr := val_ptr e\<rparr> \<and>
    entity_in (ext_alloc F' - ext_alloc F) (filp F') (f_extent F' ! i) (unat soff) e key val \<and>
    unat (lst_sect_ptr F') \<le> unat (lst_sect_ptr F) + 8192 \<and> placed_slot F F' i soff"
proof -
  have l: "length key + length val + 80 < 18446744073709551616" using len by simp
  have pl: "placed h key val ent = ent\<lparr>key_ptr := key_ptr (placed h key val ent), val_ptr := val_ptr (placed h key val ent)\<rparr>" for h
    by (simp add: placed_def)
  consider (hit) i where "i < length (f_extent F)" "fits (f_extent F ! i) key val"
      "write_in [0..<length (f_extent F)] key val ent F =
        Some (Some (Some (i, placed (f_extent F ! i) key val ent, lst_itm_ptr (f_extent F ! i))), ext_after F i key val ent)"
    | (new) "write_in [0..<length (f_extent F)] key val ent F = Some (Some None, F)"
    using write_in_cases [OF inv l, of "[0..<length (f_extent F)]" ent] by auto
  then show ?thesis
  proof cases
    case hit
    then have eq: "place_entity key val ent F =
        Some (Some (i, placed (f_extent F ! i) key val ent, lst_itm_ptr (f_extent F ! i)), ext_after F i key val ent)"
      by (simp add: place_entity_def)
    have wf: "sect_wf (f_extent F ! i, filp F)" using file_invD(2) [OF inv] hit(1) by simp
    have slot: "placed_slot F (ext_after F i key val ent) i (lst_itm_ptr (f_extent F ! i))"
      unfolding placed_slot_def using hit(1) head_after_fields [OF wf hit(2)]
      by (intro disjI1 exI [of _ "head_after (f_extent F ! i) key val"]) (simp add: ext_after_def head_after_def)
    show ?thesis
      by (rule exI [of _ i], rule exI, rule exI, rule exI, rule conjI [OF eq])
        (use ext_after_ok [OF inv hit(1,2) sz] pl hit(1) slot in simp)
  next
    case new
    let ?G = "add_ext F" and ?n = "length (f_extent F)"
    note a = add_ext_extends [OF inv room] and g = add_ext_inv [OF inv room]
    have n: "?n < length (f_extent ?G)" by (simp add: add_ext_def)
    have fits: "fits (f_extent ?G ! ?n) key val"
      using len by (simp add: add_ext_def fits_def fresh_head_def)
    have eq: "place_entity key val ent F = Some (Some (?n, placed (f_extent ?G ! ?n) key val ent,
        lst_itm_ptr (f_extent ?G ! ?n)), ext_after ?G ?n key val ent)"
      using new on_ext_write(2) [OF g n l fits, of ent] file_add_sect_ext_ok [OF inv room]
      by (simp add: place_entity_def)
    note ok = ext_after_ok [OF g n fits sz]
    have wf: "sect_wf (f_extent ?G ! ?n, filp ?G)" using file_invD(2) [OF g] n by simp
    have fresh: "unat (lst_itm_ptr (f_extent ?G ! ?n)) = 32" by (simp add: add_ext_def fresh_head_def)
    have slot: "placed_slot F (ext_after ?G ?n key val ent) ?n (lst_itm_ptr (f_extent ?G ! ?n))"
      using head_after_fields [OF wf fits] fresh
      by (simp add: placed_slot_def ext_after_def) (simp add: add_ext_def)
    show ?thesis
      by (rule exI [of _ ?n], rule exI, rule exI, rule exI, rule conjI [OF eq])
        (use ok(1) extends_trans [OF a(1) ok(2)] ok(3) a(2,3) pl n slot in simp)
  qed
qed

subsection \<open>Documents that can be stored\<close>

text \<open>
  A value matches its type, strings are as \<open>string_ctor\<close> builds them, and each node fits an empty
  section. \<open>doc_of\<close> is what of a document the file keeps: its keys, types, values and shape.
\<close>

definition val_ok :: "Json_type \<Rightarrow> jvalue \<Rightarrow> bool" where
  "val_ok t v \<longleftrightarrow> (case v of VStr s \<Rightarrow> t = TYPE_STRING \<and> canonical s | VRaw w \<Rightarrow> t \<noteq> TYPE_STRING)"

fun val_bytes :: "Json_type \<Rightarrow> jvalue \<Rightarrow> u8 list" where
  "val_bytes t (VStr s) = s"
| "val_bytes t (VRaw w) = (if t = TYPE_OBJECT then [] else enc64 w)"

fun json_ok :: "Json \<Rightarrow> bool" where
  "json_ok (Json k v t b s n a) \<longleftrightarrow>
     canonical k \<and> val_ok t v \<and> length k + length (val_bytes t v) \<le> 8080 \<and>
     (case b of None \<Rightarrow> True | Some bj \<Rightarrow> json_ok bj) \<and> (case s of None \<Rightarrow> True | Some sj \<Rightarrow> json_ok sj)"

fun json_nodes :: "Json \<Rightarrow> nat" where
  "json_nodes (Json k v t b s n a) =
     Suc ((case b of None \<Rightarrow> 0 | Some bj \<Rightarrow> json_nodes bj) + (case s of None \<Rightarrow> 0 | Some sj \<Rightarrow> json_nodes sj))"

fun doc_of :: "Json \<Rightarrow> Json" where
  "doc_of (Json k v t b s n a) = Json k (if t = TYPE_OBJECT then VRaw 0 else v) t
     (case b of None \<Rightarrow> None | Some bj \<Rightarrow> Some (doc_of bj)) (case s of None \<Rightarrow> None | Some sj \<Rightarrow> Some (doc_of sj)) None 0"

text \<open>What a document looks like that was read from the file.\<close>

fun read_form :: "Json \<Rightarrow> bool" where
  "read_form (Json k v t b s n a) \<longleftrightarrow> (t = TYPE_OBJECT \<longrightarrow> v = VRaw 0) \<and>
     (case b of None \<Rightarrow> True | Some bj \<Rightarrow> read_form bj) \<and> (case s of None \<Rightarrow> True | Some sj \<Rightarrow> read_form sj)"

lemma val_bytes_ptr: "val_ok t v \<Longrightarrow> json_val_ptr (Json k v t b s n a) = Some (val_bytes t v)"
  by (cases v; cases t) (simp_all add: val_ok_def)

lemma val_bytes_size: "val_ok t v \<Longrightarrow> json_val_size (Json k v t b s n a) = Some (cnt (val_bytes t v))"
  using val_bytes_ptr json_val_size_ptr by blast

lemma decode_json_val:
  assumes "ent_type e = type_code t" "val_ok t v" "canonical k"
  shows "decode_json e k (val_bytes t v) =
    Some (Json k (if t = TYPE_OBJECT then VRaw 0 else v) t None None None 0)"
proof -
  have "type_of_code (ent_type e) = Some t" using assms(1) by simp
  then show ?thesis
    using assms(2,3) by (cases v; cases t) (auto simp: decode_json_def val_ok_def json_ctor_def canonical_ctor_eq)
qed

subsection \<open>Stored documents\<close>

definition node_at :: "nat set \<Rightarrow> File \<Rightarrow> Fileoff \<Rightarrow> Entity \<Rightarrow> u8 list \<Rightarrow> u8 list \<Rightarrow> bool" where
  "node_at A F a e key val \<longleftrightarrow> (\<exists>n < length (f_extent F).
     unat (file_offset (f_extent F ! n)) \<le> unat a \<and>
     entity_in A (filp F) (f_extent F ! n) (unat a - unat (file_offset (f_extent F ! n))) e key val)"

fun stored :: "nat set \<Rightarrow> File \<Rightarrow> Fileoff \<Rightarrow> Fileoff \<Rightarrow> Fileoff \<Rightarrow> Json \<Rightarrow> bool" where
  "stored A F a dad tp (Json k v t b s n x) \<longleftrightarrow>
     (\<exists>e. node_at A F a e k (val_bytes t v) \<and>
        ent_type e = type_code t \<and> dad_ptr (fam_addr e) = dad \<and> type_ptr e = tp \<and>
        (case b of
           None \<Rightarrow> bro_ptr (fam_addr e) = 0
         | Some bj \<Rightarrow> bro_ptr (fam_addr e) \<noteq> 0 \<and> stored A F (bro_ptr (fam_addr e)) dad 0 bj) \<and>
        (case s of
           None \<Rightarrow> son_ptr (fam_addr e) = 0
         | Some sj \<Rightarrow> son_ptr (fam_addr e) \<noteq> 0 \<and> stored A F (son_ptr (fam_addr e)) a 0 sj))"

lemma node_at_transfer:
  assumes "node_at A F a e key val" "ext_grow F F'" "\<And>i. i \<in> A \<Longrightarrow> fdata (filp F') i = fdata (filp F) i" "A \<subseteq> B"
  shows "node_at B F' a e key val"
proof -
  obtain n where n: "n < length (f_extent F)" "unat (file_offset (f_extent F ! n)) \<le> unat a"
    "entity_in A (filp F) (f_extent F ! n) (unat a - unat (file_offset (f_extent F ! n))) e key val"
    using assms(1) by (auto simp: node_at_def)
  have g: "head_grows (f_extent F ! n) (f_extent F' ! n)" and l: "n < length (f_extent F')"
    using assms(2) n(1) by (auto simp: ext_grow_def)
  have "entity_in B (filp F') (f_extent F' ! n) (unat a - unat (file_offset (f_extent F ! n))) e key val"
    using entity_in_mono [OF entity_in_transfer [OF n(3) g assms(3)] assms(4)] .
  with g l n(2) show ?thesis by (auto simp: node_at_def head_grows_def)
qed

lemma stored_transfer:
  assumes "stored A F a dad tp j" "ext_grow F F'" "\<And>i. i \<in> A \<Longrightarrow> fdata (filp F') i = fdata (filp F) i" "A \<subseteq> B"
  shows "stored B F' a dad tp j"
  using assms(1)
proof (induction j arbitrary: a dad tp)
  case (Json k v t b s n x)
  obtain e where e: "node_at A F a e k (val_bytes t v)" "ent_type e = type_code t" "dad_ptr (fam_addr e) = dad" "type_ptr e = tp"
    "case b of None \<Rightarrow> bro_ptr (fam_addr e) = 0
      | Some bj \<Rightarrow> bro_ptr (fam_addr e) \<noteq> 0 \<and> stored A F (bro_ptr (fam_addr e)) dad 0 bj"
    "case s of None \<Rightarrow> son_ptr (fam_addr e) = 0
      | Some sj \<Rightarrow> son_ptr (fam_addr e) \<noteq> 0 \<and> stored A F (son_ptr (fam_addr e)) a 0 sj"
    using Json.prems by auto
  have "case b of None \<Rightarrow> bro_ptr (fam_addr e) = 0
      | Some bj \<Rightarrow> bro_ptr (fam_addr e) \<noteq> 0 \<and> stored B F' (bro_ptr (fam_addr e)) dad 0 bj"
    using e(5) Json.IH(1) by (cases b) auto
  moreover have "case s of None \<Rightarrow> son_ptr (fam_addr e) = 0
      | Some sj \<Rightarrow> son_ptr (fam_addr e) \<noteq> 0 \<and> stored B F' (son_ptr (fam_addr e)) a 0 sj"
    using e(6) Json.IH(2) by (cases s) auto
  ultimately show ?case
    unfolding stored.simps using node_at_transfer [OF e(1) assms(2-4)] e(2-4) by blast
qed

lemma stored_address: "stored A F a dad tp j \<Longrightarrow> unat a \<in> A"
  by (cases j) (auto simp: node_at_def entity_in_def Let_def)

text \<open>A stored document stays stored while the file only grows.\<close>

lemma stored_extends:
  assumes "stored A F a dad tp j" "extends F F'" "A \<subseteq> ext_alloc F"
  shows "stored A F' a dad tp j"
  using assms by (intro stored_transfer [OF assms(1)]) (auto simp: extends_def protected_def sects_grow_def)

subsection \<open>Reading a stored document\<close>

lemma ext_at_read:
  assumes inv: "file_inv F" and node: "node_at A F a e key val" and j: "decode_json e key val = Some j"
  shows "ext_at a sect_ext_read F = Some (Some (e, j), F)"
proof -
  obtain n where n: "n < length (f_extent F)" "unat (file_offset (f_extent F ! n)) \<le> unat a"
    and e: "entity_in A (filp F) (f_extent F ! n) (unat a - unat (file_offset (f_extent F ! n))) e key val"
    using node by (auto simp: node_at_def)
  let ?h = "f_extent F ! n"
  have wf: "sect_wf (?h, filp F)" using file_invD(2) [OF inv] n(1) by simp
  have soff: "unat (sect_head_get_sectoff ?h a) = unat a - unat (file_offset ?h)"
    using n(2) by (simp add: sect_head_get_sectoff_def unat_sub_small)
  have "unat a - unat (file_offset ?h) + 80 \<le> 8192"
    using e wf by (simp add: entity_in_def sect_wf_def Let_def)
  then have "get_sect_ext F a = Some n"
    using n by (intro get_sect_ext_hit [OF inv]) auto
  then show ?thesis
    using sect_ext_read_entity [OF wf, of A "sect_head_get_sectoff ?h a" e key val j] e j
    by (simp add: ext_at_def on_ext_def soff)
qed

lemma node_pos:
  assumes inv: "file_inv F" and node: "node_at A F a e key val"
  shows "a \<noteq> 0"
proof -
  obtain n where "n < length (f_extent F)" "unat (file_offset (f_extent F ! n)) \<le> unat a"
    using node by (auto simp: node_at_def)
  moreover have "8 \<le> unat (file_offset (f_extent F ! n))"
    using file_invD(8) [OF inv, of "f_extent F ! n"] calculation(1) by (simp add: sects_def)
  ultimately show ?thesis by auto
qed

lemma file_read_stored:
  assumes inv: "file_inv F"
  shows "stored A F a dad tp j \<Longrightarrow> json_ok j \<Longrightarrow>
    \<exists>j' e. file_read a F = Some (Some (j', e), F) \<and> doc_of j' = doc_of j \<and> jfoff j' = a \<and>
      dad_ptr (fam_addr e) = dad \<and> type_ptr e = tp \<and> read_form j'"
proof (induction j arbitrary: a dad tp)
  case (Json k v t b s n x)
  obtain e where e: "node_at A F a e k (val_bytes t v)" "ent_type e = type_code t" "dad_ptr (fam_addr e) = dad" "type_ptr e = tp"
    "case b of None \<Rightarrow> bro_ptr (fam_addr e) = 0
      | Some bj \<Rightarrow> bro_ptr (fam_addr e) \<noteq> 0 \<and> stored A F (bro_ptr (fam_addr e)) dad 0 bj"
    "case s of None \<Rightarrow> son_ptr (fam_addr e) = 0
      | Some sj \<Rightarrow> son_ptr (fam_addr e) \<noteq> 0 \<and> stored A F (son_ptr (fam_addr e)) a 0 sj"
    using Json.prems(1) by auto
  let ?v = "if t = TYPE_OBJECT then VRaw 0 else v"
  have ok: "canonical k" "val_ok t v" using Json.prems(2) by simp_all
  note rd = ext_at_read [OF inv e(1) decode_json_val [OF e(2) ok(2,1)]]
  obtain b' where b': "map_option doc_of b' = map_option doc_of b" and rb: "case b' of None \<Rightarrow> True | Some y \<Rightarrow> read_form y" and b2:
    "(if bro_ptr (fam_addr e) \<noteq> 0
      then DO_OR_FAIL (file_read (bro_ptr (fam_addr e))) (\<lambda>r. ret (json_add_bro (Json k ?v t None None None a) (Some (fst r))))
      else ret (Json k ?v t None None None a)) F = Some (Some (Json k ?v t b' None None a), F)"
  proof (cases b)
    case None
    with e(5) show ?thesis by (intro that [of None]) simp_all
  next
    case (Some bj)
    with e(5) Json.IH(1) [of bj "bro_ptr (fam_addr e)" dad 0] Json.prems(2) obtain j' e' where
      "file_read (bro_ptr (fam_addr e)) F = Some (Some (j', e'), F)" "doc_of j' = doc_of bj" "read_form j'" by auto
    with Some e(5) show ?thesis by (intro that [of "Some j'"]) simp_all
  qed
  obtain s' where s': "map_option doc_of s' = map_option doc_of s" and rs: "case s' of None \<Rightarrow> True | Some y \<Rightarrow> read_form y" and s2:
    "(if son_ptr (fam_addr e) \<noteq> 0
      then DO_OR_FAIL (file_read (son_ptr (fam_addr e))) (\<lambda>r. ret (json_add_son (Json k ?v t b' None None a) (Some (fst r))))
      else ret (Json k ?v t b' None None a)) F = Some (Some (Json k ?v t b' s' None a), F)"
  proof (cases s)
    case None
    with e(6) show ?thesis by (intro that [of None]) simp_all
  next
    case (Some sj)
    with e(6) Json.IH(2) [of sj "son_ptr (fam_addr e)" a 0] Json.prems(2) obtain j' e' where
      "file_read (son_ptr (fam_addr e)) F = Some (Some (j', e'), F)" "doc_of j' = doc_of sj" "read_form j'" by auto
    with Some e(6) show ?thesis by (intro that [of "Some j'"]) simp_all
  qed
  have "file_read a F = Some (Some (Json k ?v t b' s' None a, e), F)"
    by (subst file_read.simps)
      (simp only: DO_OR_FAIL_Some rd b2 s2 Let_def fst_conv snd_conv json_set_foff.simps ret_apply)
  moreover have "doc_of (Json k ?v t b' s' None a) = doc_of (Json k v t b s n x)"
    using b' s' by (simp add: map_option_case)
  ultimately show ?case using e(3,4) rb rs by simp
qed

end
