(* ===== verification/Slots.thy ===== *)
theory Slots
  imports Stored "HOL-Library.Multiset"
begin

text \<open>
  The items of all sections of documents as one table: \<open>slots_ok P F dss\<close> says that the item area of the
  \<open>i\<close>-th section is a row of entities, one for each entry of \<open>dss ! i\<close>, and that the node (with the
  brothers and sons it links to) of each entry lies in the file inside the bytes \<open>P\<close>. An entry \<open>None\<close>
  is an item under construction; items that were deleted have an entry of their own, as they are read like
  the others. \<open>content\<close> forgets where the nodes are: it is the multiset of documents
  with their type addresses, the abstract state of the database.
\<close>

type_synonym slot = "(Fileoff \<times> Fileoff \<times> Json) option"

subsection \<open>Content\<close>

type_synonym doc = "Json \<times> Fileoff"

fun slot_content :: "slot \<Rightarrow> doc multiset" where
  "slot_content None = {#}"
| "slot_content (Some (dad, tp, j)) = {#(doc_of j, tp)#}"

definition row_content :: "slot list \<Rightarrow> doc multiset" where
  "row_content ds = sum_list (map slot_content ds)"

definition content :: "slot list list \<Rightarrow> doc multiset" where
  "content dss = sum_list (map row_content dss)"

text \<open>The nodes of a document; only the first carries the type.\<close>

fun nodes_of :: "Fileoff \<Rightarrow> Json \<Rightarrow> doc multiset" where
  "nodes_of tp (Json k v t b s n x) = add_mset (doc_of (Json k v t b s n x), tp)
     ((case b of None \<Rightarrow> {#} | Some y \<Rightarrow> nodes_of 0 y) + (case s of None \<Rightarrow> {#} | Some y \<Rightarrow> nodes_of 0 y))"

definition nodes_of_opt :: "Json option \<Rightarrow> doc multiset" where
  "nodes_of_opt x = (case x of None \<Rightarrow> {#} | Some y \<Rightarrow> nodes_of 0 y)"

lemma nodes_of_eq: "nodes_of tp (Json k v t b s n x) =
    add_mset (doc_of (Json k v t b s n x), tp) (nodes_of_opt b + nodes_of_opt s)"
  by (simp add: nodes_of_opt_def)

lemma size_nodes_of: "size (nodes_of tp j) = json_nodes j"
  by (induction j arbitrary: tp) (auto split: option.splits)

lemma content_update:
  "i < length dss \<Longrightarrow> content (dss[i := ds]) + row_content (dss ! i) = content dss + row_content ds"
proof (induction dss arbitrary: i)
  case (Cons d dss)
  then show ?case by (cases i) (simp_all add: content_def ac_simps)
qed simp

lemma content_append: "content (dss @ [ds]) = content dss + row_content ds"
  by (simp add: content_def)

lemma row_content_append: "row_content (ds @ es) = row_content ds + row_content es"
  by (simp add: row_content_def)

lemma row_content_update:
  "k < length ds \<Longrightarrow> row_content (ds[k := x]) + slot_content (ds ! k) = row_content ds + slot_content x"
proof (induction ds arbitrary: k)
  case (Cons d ds)
  then show ?case by (cases k) (simp_all add: row_content_def ac_simps)
qed simp

lemma content_fill:
  assumes "i < length dss" "k < length (dss ! i)" "dss ! i ! k = None"
  shows "content (dss[i := (dss ! i)[k := Some (dad, tp, j)]]) = add_mset (doc_of j, tp) (content dss)"
proof -
  have "row_content ((dss ! i)[k := Some (dad, tp, j)]) = add_mset (doc_of j, tp) (row_content (dss ! i))"
    using row_content_update [OF assms(2), of "Some (dad, tp, j)"] assms(3) by simp
  with content_update [OF assms(1), of "(dss ! i)[k := Some (dad, tp, j)]"] show ?thesis by simp
qed

subsection \<open>Tables\<close>

definition slot_addr :: "File \<Rightarrow> nat \<Rightarrow> nat \<Rightarrow> Fileoff" where
  "slot_addr F i k = sect_head_get_fileoff (f_extent F ! i) (word_of_nat (32 + 80 * k))"

text \<open>
  An item below \<^verbatim>\<open>lst_itm_ptr\<close> that was deleted is all zero. The code cannot tell it from an item in
  use: it reads as a number 0 without a key, the \<open>ghost\<close>.
\<close>

definition ghost :: Json where
  "ghost = Json [] (VRaw 0) TYPE_INT32 None None None 0"

definition wiped :: "nat set \<Rightarrow> File \<Rightarrow> Fileoff \<Rightarrow> bool" where
  "wiped P F a \<longleftrightarrow> (\<forall>b. unat a \<le> b \<longrightarrow> b < unat a + 80 \<longrightarrow> b \<in> P \<and> fdata (filp F) b = 0)"

definition slot_ok :: "nat set \<Rightarrow> File \<Rightarrow> Fileoff \<Rightarrow> slot \<Rightarrow> bool" where
  "slot_ok P F a x \<longleftrightarrow> (case x of None \<Rightarrow> True
     | Some (dad, tp, j) \<Rightarrow> json_ok j \<and> (stored P F a dad tp j \<or> wiped P F a \<and> dad = 0 \<and> tp = 0 \<and> j = ghost))"

definition slots_ok :: "nat set \<Rightarrow> File \<Rightarrow> slot list list \<Rightarrow> bool" where
  "slots_ok P F dss \<longleftrightarrow> length dss = length (f_extent F) \<and>
     (\<forall>i < length dss. items (f_extent F ! i) (length (dss ! i)) \<and>
        (\<forall>k < length (dss ! i). slot_ok P F (slot_addr F i k) (dss ! i ! k)))"

text \<open>A table that has only grown.\<close>

definition grown :: "slot list list \<Rightarrow> slot list list \<Rightarrow> bool" where
  "grown dss dss' \<longleftrightarrow> length dss \<le> length dss' \<and>
     (\<forall>i < length dss. length (dss ! i) \<le> length (dss' ! i) \<and> (\<forall>k < length (dss ! i). dss' ! i ! k = dss ! i ! k))"

lemma grown_refl [simp]: "grown dss dss"
  by (simp add: grown_def)

lemma grown_trans:
  assumes "grown dss dss'" "grown dss' dss''"
  shows "grown dss dss''"
proof -
  have "length (dss ! i) \<le> length (dss'' ! i) \<and> (\<forall>k < length (dss ! i). dss'' ! i ! k = dss ! i ! k)"
    if "i < length dss" for i
  proof -
    have "i < length dss'" and 1: "length (dss ! i) \<le> length (dss' ! i)" "\<forall>k < length (dss ! i). dss' ! i ! k = dss ! i ! k"
      using assms(1) that by (auto simp: grown_def)
    then have "length (dss' ! i) \<le> length (dss'' ! i)" "\<forall>k < length (dss' ! i). dss'' ! i ! k = dss' ! i ! k"
      using assms(2) by (auto simp: grown_def)
    with 1 show ?thesis by simp
  qed
  then show ?thesis using assms by (simp add: grown_def)
qed

lemma grown_fill:
  assumes "grown dss dss'" "i < length dss \<longrightarrow> length (dss ! i) \<le> k"
  shows "grown dss (dss'[i := (dss' ! i)[k := x]])"
proof -
  have "length (dss ! m) \<le> length (dss'[i := (dss' ! i)[k := x]] ! m) \<and>
      (\<forall>l < length (dss ! m). dss'[i := (dss' ! i)[k := x]] ! m ! l = dss ! m ! l)" if m: "m < length dss" for m
  proof -
    have "m < length dss'" "length (dss ! m) \<le> length (dss' ! m)" "\<forall>l < length (dss ! m). dss' ! m ! l = dss ! m ! l"
      using assms(1) m by (auto simp: grown_def)
    with assms(2) m show ?thesis by (cases "m = i") auto
  qed
  then show ?thesis using assms(1) by (simp add: grown_def)
qed

lemma grown_snoc: "i < length dss \<Longrightarrow> grown dss (dss[i := dss ! i @ [x]])"
  by (auto simp: grown_def nth_list_update nth_append)

lemma grown_new: "grown dss (dss @ [ds])"
  by (auto simp: grown_def nth_append)

text \<open>The items under construction.\<close>

definition holes :: "slot list list \<Rightarrow> (nat \<times> nat) set" where
  "holes dss = {(i, k). i < length dss \<and> k < length (dss ! i) \<and> dss ! i ! k = None}"

lemma holes_snoc: "i < length dss \<Longrightarrow> holes (dss[i := dss ! i @ [x]]) \<subseteq> insert (i, length (dss ! i)) (holes dss)"
  by (auto simp: holes_def nth_list_update nth_append less_Suc_eq split: if_splits)

lemma holes_new: "holes (dss @ [[x]]) \<subseteq> insert (length dss, 0) (holes dss)"
  by (auto simp: holes_def nth_append less_Suc_eq)

lemma holes_fill: "holes (dss[i := (dss ! i)[k := Some x]]) \<subseteq> holes dss - {(i, k)}"
proof (rule subrelI)
  fix m l
  assume h: "(m, l) \<in> holes (dss[i := (dss ! i)[k := Some x]])"
  show "(m, l) \<in> holes dss - {(i, k)}"
  proof (cases "m = i")
    case False
    with h show ?thesis by (simp add: holes_def)
  next
    case True
    with h show ?thesis by (cases "l = k") (auto simp: holes_def)
  qed
qed

lemma slots_okD:
  assumes "slots_ok P F dss"
  shows "length dss = length (f_extent F)" "i < length dss \<Longrightarrow> items (f_extent F ! i) (length (dss ! i))"
    "i < length dss \<Longrightarrow> k < length (dss ! i) \<Longrightarrow> slot_ok P F (slot_addr F i k) (dss ! i ! k)"
  using assms by (auto simp: slots_ok_def)

lemma slot_ok_transfer:
  assumes "slot_ok P F a x" "ext_grow F F'" "\<And>i. i \<in> P \<Longrightarrow> fdata (filp F') i = fdata (filp F) i" "P \<subseteq> Q"
  shows "slot_ok Q F' a x"
proof -
  have "wiped Q F' a" if "wiped P F a" using that assms(3,4) unfolding wiped_def by (metis subsetD)
  then show ?thesis
    using assms(1) stored_transfer [OF _ assms(2-4)] by (auto simp: slot_ok_def split: option.splits)
qed

lemma slot_addr_grow: "ext_grow F F' \<Longrightarrow> i < length (f_extent F) \<Longrightarrow> slot_addr F' i k = slot_addr F i k"
  by (simp add: ext_grow_def head_grows_def slot_addr_def sect_head_get_fileoff_def)

text \<open>Changes elsewhere.\<close>

lemma slots_ok_same:
  assumes "slots_ok P F dss" "f_extent F' = f_extent F" "\<And>i. i \<in> P \<Longrightarrow> fdata (filp F') i = fdata (filp F) i" "P \<subseteq> Q"
  shows "slots_ok Q F' dss"
proof -
  have g: "ext_grow F F'" using assms(2) by (simp add: ext_grow_def)
  have "slot_ok Q F' (slot_addr F' i k) (dss ! i ! k)" if "i < length dss" "k < length (dss ! i)" for i k
    using slots_okD(3) [OF assms(1) that] slots_okD(1) [OF assms(1)] that(1) slot_addr_grow [OF g, of i k]
    by (intro slot_ok_transfer [OF _ g assms(3,4)]) simp_all
  then show ?thesis using assms(1,2) by (simp add: slots_ok_def)
qed

text \<open>The item an entity was placed in becomes an entry under construction.\<close>

lemma slots_ok_placed:
  assumes ok: "slots_ok P F dss" and P: "P \<subseteq> ext_alloc F" and ext: "extends F F'" and pl: "placed_slot F F' i soff"
  shows "\<exists>dss' k. slots_ok P F' dss' \<and> grown dss dss' \<and> content dss' = content dss \<and> i < length dss' \<and>
    k < length (dss' ! i) \<and> dss' ! i ! k = None \<and> slot_addr F' i k = sect_head_get_fileoff (f_extent F' ! i) soff \<and>
    (i < length dss \<longrightarrow> length (dss ! i) \<le> k) \<and> holes dss' \<subseteq> insert (i, k) (holes dss)"
proof -
  note d = slots_okD [OF ok]
  have g: "ext_grow F F'" and data: "\<And>b. b \<in> P \<Longrightarrow> fdata (filp F') b = fdata (filp F) b"
    using ext P by (auto simp: extends_def protected_def sects_grow_def)
  have old: "slot_ok P F' (slot_addr F' j k) (dss ! j ! k)" if "j < length dss" "k < length (dss ! j)" for j k
    using d(3) [OF that] d(1) that(1) slot_addr_grow [OF g, of j k]
    by (intro slot_ok_transfer [OF _ g data subset_refl]) simp_all
  have none: "slot_ok P F' a None" for a by (simp add: slot_ok_def)
  from pl [unfolded placed_slot_def] show ?thesis
  proof (elim disjE exE conjE)
    fix h'
    assume i: "i < length (f_extent F)" and F': "f_extent F' = (f_extent F)[i := h']"
      and soff: "soff = lst_itm_ptr (f_extent F ! i)" and lip: "unat (lst_itm_ptr h') = unat soff + 80"
    let ?dss = "dss[i := dss ! i @ [None]]" and ?k = "length (dss ! i)"
    have it: "items (f_extent F ! i) ?k" using d(1,2) i by simp
    then have s: "soff = word_of_nat (32 + 80 * ?k)" using soff by (intro word_of_unat_eq) (simp add: items_def)
    have "items (f_extent F' ! j) (length (?dss ! j))" if "j < length dss" for j
      using d(2) [OF that] lip it soff i d(1) that by (cases "j = i") (simp_all add: F' items_def)
    moreover have "slot_ok P F' (slot_addr F' j k) (?dss ! j ! k)" if "j < length dss" "k < length (?dss ! j)" for j k
      using that old [of j k] none by (cases "j = i") (auto simp: nth_append less_Suc_eq)
    ultimately have "slots_ok P F' ?dss" using d(1) F' by (simp add: slots_ok_def)
    moreover have "content ?dss = content dss"
      using content_update [of i dss "dss ! i @ [None]"] i d(1) by (simp add: row_content_append) (simp add: row_content_def)
    ultimately show ?thesis
      using grown_snoc [of i dss None] holes_snoc [of i dss None] i d(1) s by (intro exI [of _ ?dss] exI [of _ ?k]) (simp add: slot_addr_def)
  next
    fix h'
    assume i: "i = length (f_extent F)" and F': "f_extent F' = f_extent F @ [h']"
      and soff: "unat soff = 32" and lip: "unat (lst_itm_ptr h') = 112"
    let ?dss = "dss @ [[None]]"
    have s: "soff = word_of_nat (32 + 80 * 0)" using soff by (intro word_of_unat_eq) simp
    have "items (f_extent F' ! j) (length (?dss ! j))" if "j < Suc (length dss)" for j
      using d(1) d(2) [of j] lip that by (cases "j = length dss") (simp_all add: F' nth_append items_def)
    moreover have "slot_ok P F' (slot_addr F' j k) (?dss ! j ! k)"
      if "j < Suc (length dss)" "k < length (?dss ! j)" for j k
      using that old [of j k] none by (cases "j = length dss") (auto simp: nth_append less_Suc_eq)
    ultimately have "slots_ok P F' ?dss" using d(1) F' by (simp add: slots_ok_def)
    moreover have "content ?dss = content dss" by (simp add: content_append row_content_def)
    ultimately show ?thesis
      using grown_new [of dss "[None]"] holes_new [of dss None] i d(1) s
      by (intro exI [of _ ?dss] exI [of _ 0]) (simp add: slot_addr_def nth_append)
  qed
qed

text \<open>An entry is completed.\<close>

lemma slots_ok_fill:
  assumes ok: "slots_ok P F dss" and i: "i < length dss" "k < length (dss ! i)"
    and j: "json_ok j" "stored P F (slot_addr F i k) dad tp j"
  shows "slots_ok P F (dss[i := (dss ! i)[k := Some (dad, tp, j)]])"
proof -
  have "slot_ok P F (slot_addr F i k) (Some (dad, tp, j))" using j by (simp add: slot_ok_def)
  with ok i show ?thesis by (auto simp: slots_ok_def nth_list_update)
qed

subsection \<open>Writing adds entries\<close>

text \<open>From \<open>F\<close> to \<open>F'\<close> entries with the content \<open>N\<close> were added, in bytes that were free.\<close>

definition write_slots :: "doc multiset \<Rightarrow> File \<Rightarrow> File \<Rightarrow> bool" where
  "write_slots N F F' \<longleftrightarrow> (\<forall>P dss. P \<subseteq> ext_alloc F \<longrightarrow> slots_ok P F dss \<longrightarrow>
     (\<exists>dss'. slots_ok (P \<union> (ext_alloc F' - ext_alloc F)) F' dss' \<and> grown dss dss' \<and> content dss' = content dss + N \<and>
        holes dss' \<subseteq> holes dss))"

lemma write_slots_refl: "write_slots {#} F F"
  by (auto simp: write_slots_def)

lemma write_slots_trans:
  assumes w: "write_slots N F F1" "write_slots M F1 F2" and mono: "ext_alloc F \<subseteq> ext_alloc F1" "ext_alloc F1 \<subseteq> ext_alloc F2"
  shows "write_slots (N + M) F F2"
  unfolding write_slots_def
proof (intro allI impI)
  fix P dss
  assume P: "P \<subseteq> ext_alloc F" and ok: "slots_ok P F dss"
  let ?Q = "P \<union> (ext_alloc F1 - ext_alloc F)"
  obtain dss1 where 1: "slots_ok ?Q F1 dss1" "grown dss dss1" "content dss1 = content dss + N" "holes dss1 \<subseteq> holes dss"
    using w(1) P ok unfolding write_slots_def by blast
  have "?Q \<subseteq> ext_alloc F1" using P mono(1) by blast
  then obtain dss2 where 2: "slots_ok (?Q \<union> (ext_alloc F2 - ext_alloc F1)) F2 dss2" "grown dss1 dss2"
    "content dss2 = content dss1 + M" "holes dss2 \<subseteq> holes dss1"
    using w(2) 1(1) unfolding write_slots_def by blast
  have "?Q \<union> (ext_alloc F2 - ext_alloc F1) = P \<union> (ext_alloc F2 - ext_alloc F)" using mono by blast
  with 2 1 show "\<exists>dss'. slots_ok (P \<union> (ext_alloc F2 - ext_alloc F)) F2 dss' \<and> grown dss dss' \<and>
      content dss' = content dss + (N + M) \<and> holes dss' \<subseteq> holes dss"
    by (intro exI [of _ dss2]) (simp add: grown_trans [OF 1(2)] ac_simps)
qed

text \<open>
  One node: placed from \<open>F\<close> to \<open>F1\<close>, then \<open>N\<close> was written up to \<open>F3\<close>, then the item was completed, which
  changed nothing outside the bytes of the node.
\<close>

lemma write_slots_node:
  assumes pl: "extends F F1" "placed_slot F F1 i soff" and w: "write_slots N F1 F3"
    and mono: "ext_alloc F \<subseteq> ext_alloc F1" "ext_alloc F1 \<subseteq> ext_alloc F3" and g: "ext_grow F1 F3"
    and F4: "f_extent F4 = f_extent F3"
      "\<And>b. b \<notin> ext_alloc F1 - ext_alloc F \<Longrightarrow> fdata (filp F4) b = fdata (filp F3) b"
    and j: "json_ok j" "stored (ext_alloc F4 - ext_alloc F) F4 (sect_head_get_fileoff (f_extent F1 ! i) soff) dad tp j"
  shows "write_slots (add_mset (doc_of j, tp) N) F F4"
  unfolding write_slots_def
proof (intro allI impI)
  fix P dss
  assume P: "P \<subseteq> ext_alloc F" and ok: "slots_ok P F dss"
  obtain dss1 k where 1: "slots_ok P F1 dss1" "grown dss dss1" "content dss1 = content dss" "i < length dss1"
    "k < length (dss1 ! i)" "dss1 ! i ! k = None" "slot_addr F1 i k = sect_head_get_fileoff (f_extent F1 ! i) soff"
    "i < length dss \<longrightarrow> length (dss ! i) \<le> k" "holes dss1 \<subseteq> insert (i, k) (holes dss)"
    using slots_ok_placed [OF ok P pl] by blast
  let ?Q = "P \<union> (ext_alloc F3 - ext_alloc F1)" and ?R = "P \<union> (ext_alloc F4 - ext_alloc F)"
  obtain dss3 where 3: "slots_ok ?Q F3 dss3" "grown dss1 dss3" "content dss3 = content dss1 + N" "holes dss3 \<subseteq> holes dss1"
    using w 1(1) P mono(1) unfolding write_slots_def by blast
  have al: "ext_alloc F4 = ext_alloc F3" by (simp add: ext_alloc_def F4(1))
  have "slots_ok ?R F4 dss3"
    using 3(1) F4(1) by (rule slots_ok_same) (use F4(2) P mono al in auto)
  moreover have i: "i < length dss3" "k < length (dss3 ! i)" "dss3 ! i ! k = None"
    using 3(2) 1(4-6) by (auto simp: grown_def)
  moreover have "slot_addr F4 i k = sect_head_get_fileoff (f_extent F1 ! i) soff"
    using slot_addr_grow [OF g, of i k] 1(4,7) slots_okD(1) [OF 1(1)] F4(1) by (simp add: slot_addr_def)
  moreover have "stored ?R F4 (sect_head_get_fileoff (f_extent F1 ! i) soff) dad tp j"
    using j(2) by (rule stored_transfer) (auto simp: ext_grow_def)
  ultimately have ok4: "slots_ok ?R F4 (dss3[i := (dss3 ! i)[k := Some (dad, tp, j)]])"
    using j(1) by (intro slots_ok_fill) simp_all
  have "grown dss (dss3[i := (dss3 ! i)[k := Some (dad, tp, j)]])"
    using grown_fill [OF grown_trans [OF 1(2) 3(2)]] 1(8) by blast
  moreover have "content (dss3[i := (dss3 ! i)[k := Some (dad, tp, j)]]) = content dss + add_mset (doc_of j, tp) N"
    using content_fill [OF i] 3(3) 1(3) by simp
  moreover have "holes (dss3[i := (dss3 ! i)[k := Some (dad, tp, j)]]) \<subseteq> holes dss"
    using holes_fill [of dss3 i k "(dad, tp, j)"] 1(9) 3(4) by blast
  ultimately show "\<exists>dss'. slots_ok ?R F4 dss' \<and> grown dss dss' \<and>
      content dss' = content dss + add_mset (doc_of j, tp) N \<and> holes dss' \<subseteq> holes dss"
    using ok4 by blast
qed

end
