(* ===== verification/Extents_Delete.thy ===== *)
theory Extents_Delete
  imports Extents_Spec
begin

text \<open>
  \<^verbatim>\<open>sect_ext_delete\<close> on an entity of a well-formed section: it returns, clears exactly the bytes of
  the entity, keeps every other item that is in use, and gives back record space only where the
  bytes are zero or, when the entity is the last item, by the size of its record.
\<close>

subsection \<open>Steps\<close>

definition item_used :: "FILE \<Rightarrow> Sect_head \<Rightarrow> nat \<Rightarrow> bool" where
  "item_used f h k \<longleftrightarrow> (\<exists>b \<in> set (fget f (unat (file_offset h) + 32 + 80 * k) 80). b \<noteq> 0)"

lemma set_fget: "set (fget f a n) = fdata f ` {a ..< a + n}"
  by (simp add: fget_def)

lemma item_used_iff:
  "item_used f h k \<longleftrightarrow>
     (\<exists>i. unat (file_offset h) + 32 + 80 * k \<le> i \<and> i < unat (file_offset h) + 32 + 80 * k + 80 \<and> fdata f i \<noteq> 0)"
  by (auto simp: item_used_def set_fget)

lemma last_used_covers:
  assumes "k < n" "item_used f h k"
  shows "k < last_used f (unat (file_offset h) + 32) 80 n"
  using assms last_used_zero_above [of f "unat (file_offset h) + 32" 80 n k] by (force simp: item_used_def)

text \<open>The header moves of the border case.\<close>

definition give_back :: "Sect_head \<Rightarrow> Entity \<Rightarrow> Sect_head" where
  "give_back h e = h\<lparr>lst_itm_ptr := lst_itm_ptr h - 80, fst_rec_ptr := fst_rec_ptr h + entity_rec_sz e,
     free_space := free_space h + 80 + entity_rec_sz e\<rparr>"

definition border_head :: "Sect_head \<Rightarrow> Sectoff \<Rightarrow> Entity \<Rightarrow> Sect_head" where
  "border_head h soff e = (if soff + 80 = lst_itm_ptr h then give_back h e else h)"

lemma border_steps:
  assumes wf: "sect_wf (h, f)" and e: "entity_in A f h (unat soff) e key val" and n: "items h n"
  shows "\<exists>f'. (if soff + entity_itm_size e = lst_itm_ptr h then
        DO_OR_FAIL (sect_head_shift_lip (- 1 * entity_itm_size e)) (\<lambda>_. sect_head_shift_frp (entity_rec_sz e))
      else ret ()) (h, f) = Some (Some (), (border_head h soff e, f')) \<and>
    sect_step (h, f) (border_head h soff e, f') \<and>
    (\<forall>i. i < unat (file_offset h) \<or> unat (file_offset h) + 32 \<le> i \<longrightarrow> fdata f' i = fdata f i)"
proof (cases "soff + 80 = lst_itm_ptr h")
  case False
  with sect_step_refl [OF wf] show ?thesis by (simp add: entity_itm_size_def border_head_def)
next
  case True
  let ?h1 = "h\<lparr>lst_itm_ptr := lst_itm_ptr h - 80, free_space := free_space h + 80\<rparr>"
  let ?h2 = "give_back h e"
  have w: "file_ok f" "free_ok h" "unat (lst_itm_ptr h) \<le> unat (fst_rec_ptr h)" "unat (fst_rec_ptr h) \<le> 8192"
    "unat (file_offset h) + 8192 \<le> fcap f" "unat (file_offset h) + unat (lst_itm_ptr h) \<le> fsize f"
    "unat (fst_rec_ptr h) < 8192 \<Longrightarrow> unat (file_offset h) + 8192 \<le> fsize f"
    using wf by (auto simp: sect_wf_def)
  have s: "32 \<le> unat soff" "unat soff + 80 \<le> unat (lst_itm_ptr h)"
    "unat (fst_rec_ptr h) + length val + length key \<le> 8192"
    "unat (key_size e) = length key" "unat (val_size e) = length val"
    using e by (auto simp: entity_in_def Let_def)
  have ul: "unat (lst_itm_ptr h - 80) = unat (lst_itm_ptr h) - 80"
    using s by (subst unat_sub_small) simp_all
  have ur: "unat (entity_rec_sz e) = length key + length val"
    using s by (simp add: entity_rec_sz_def unat_add_small)
  have uf: "unat (fst_rec_ptr h + entity_rec_sz e) = unat (fst_rec_ptr h) + length key + length val"
    using s ur by (subst unat_add_small) simp_all
  have st1: "sect_step (h, f) (?h1, synced ?h1 f)"
    using wf w s ul by (intro sect_step_synced) (simp_all add: free_ok_def)
  have e1: "sect_head_shift_lip (- 1 * entity_itm_size e) (h, f) = Some (Some (), (?h1, synced ?h1 f))"
    using w by (cases h) (simp add: sect_head_shift_lip_def entity_itm_size_def sync_ok)
  have st2: "sect_step (?h1, synced ?h1 f) (?h2, synced ?h2 (synced ?h1 f))"
    using sect_stepD(1) [OF st1] w s ul uf
    by (intro sect_step_synced) (auto simp: give_back_def free_ok_def fsize_synced)
  have e2: "sect_head_shift_frp (entity_rec_sz e) (?h1, synced ?h1 f) = Some (Some (), (?h2, synced ?h2 (synced ?h1 f)))"
    using w sect_stepD(1) [OF st1]
    by (cases h) (simp add: sect_head_shift_frp_def give_back_def sync_ok sect_wf_def)
  have "fdata (synced ?h2 (synced ?h1 f)) i = fdata f i"
    if "i < unat (file_offset h) \<or> unat (file_offset h) + 32 \<le> i" for i
    using that by (simp add: fdata_synced give_back_def)
  with e1 e2 True sect_step_trans [OF st1 st2] show ?thesis
    by (simp add: entity_itm_size_def border_head_def)
qed

lemma border_head_fields:
  assumes wf: "sect_wf (h, f)" and e: "entity_in A f h (unat soff) e key val"
    and n: "items h n" and m: "unat soff = 32 + 80 * m"
  shows "file_offset (border_head h soff e) = file_offset h"
    "items (border_head h soff e) (if Suc m = n then m else n)"
    "unat (fst_rec_ptr (border_head h soff e)) =
       unat (fst_rec_ptr h) + (if Suc m = n then length key + length val else 0)"
proof -
  have s: "unat soff + 80 \<le> unat (lst_itm_ptr h)" "unat (lst_itm_ptr h) \<le> 8192"
    "unat (fst_rec_ptr h) + length val + length key \<le> 8192"
    "unat (key_size e) = length key" "unat (val_size e) = length val"
    using e wf by (auto simp: entity_in_def sect_wf_def Let_def)
  have us: "unat (soff + 80) = unat soff + 80" using s by (subst unat_add_small) simp_all
  have border: "soff + 80 = lst_itm_ptr h \<longleftrightarrow> Suc m = n"
  proof -
    have "soff + 80 = lst_itm_ptr h \<longleftrightarrow> 32 + 80 * m + 80 = 32 + 80 * n"
      using n unfolding items_def word_unat_eq_iff us m by simp
    then show ?thesis by auto
  qed
  have ul: "unat (lst_itm_ptr h - 80) = unat (lst_itm_ptr h) - 80"
    using s by (subst unat_sub_small) simp_all
  have ur: "unat (entity_rec_sz e) = length key + length val"
    using s by (simp add: entity_rec_sz_def unat_add_small)
  have uf: "unat (fst_rec_ptr h + entity_rec_sz e) = unat (fst_rec_ptr h) + length key + length val"
    using s ur by (subst unat_add_small) simp_all
  show "file_offset (border_head h soff e) = file_offset h"
    by (simp add: border_head_def give_back_def)
  show "items (border_head h soff e) (if Suc m = n then m else n)"
    using n ul by (auto simp: border_head_def border give_back_def items_def)
  show "unat (fst_rec_ptr (border_head h soff e)) =
       unat (fst_rec_ptr h) + (if Suc m = n then length key + length val else 0)"
    using uf by (auto simp: border_head_def border give_back_def)
qed

subsection \<open>The whole deletion\<close>

lemma entity_bytes_clear: "entity_bytes (entity_clear e) = replicate 80 0"
proof -
  have "enc64 0 = replicate 8 0" by (simp add: enc64_def upt8 eval_nat_numeral)
  then show ?thesis
    by (simp add: entity_bytes_def entity_clear_def entity_new_def entity_fields_def eval_nat_numeral)
qed

text \<open>The stream after both clearing writes, in terms of the bytes they touch.\<close>

definition cleared :: "FILE \<Rightarrow> nat \<Rightarrow> nat \<Rightarrow> nat \<Rightarrow> nat \<Rightarrow> FILE" where
  "cleared f rec len itm ilen = fput (fput f rec (replicate len 0)) itm (replicate ilen 0)"

lemma fdata_cleared:
  "fdata (cleared f rec len itm ilen) i =
     (if rec \<le> i \<and> i < rec + len \<or> itm \<le> i \<and> i < itm + ilen then 0 else fdata f i)"
  by (auto simp: cleared_def fdata_fput)

lemma clearing_steps:
  assumes wf: "sect_wf (h, f)" and e: "entity_in A f0 h0 (unat soff) e key val" and off: "file_offset h = file_offset h0"
    and frp: "32 \<le> unat (fst_rec_ptr h0)" and lip: "unat (lst_itm_ptr h0) \<le> 8192"
  shows "sect_head_write (key_ptr e - val_size e) (replicate (unat (entity_rec_sz e)) 0) (h, f) =
      Some (Some (), (h, fput f (unat (file_offset h) + unat (val_ptr e)) (replicate (length key + length val) 0)))"
    "sect_ext_wrt_itm soff (entity_clear e) (h, fput f (unat (file_offset h) + unat (val_ptr e)) (replicate (length key + length val) 0)) =
      Some (Some (), (h, cleared f (unat (file_offset h) + unat (val_ptr e)) (length key + length val) (unat (file_offset h) + unat soff) 80))"
    "sect_step (h, f) (h, cleared f (unat (file_offset h) + unat (val_ptr e)) (length key + length val) (unat (file_offset h) + unat soff) 80)"
proof -
  have s: "32 \<le> unat soff" "unat soff + 80 \<le> 8192" "unat (fst_rec_ptr h0) \<le> unat (val_ptr e)"
    "unat (val_ptr e) + length val = unat (key_ptr e)" "unat (key_ptr e) + length key \<le> 8192"
    "unat (key_size e) = length key" "unat (val_size e) = length val"
    using e lip by (auto simp: entity_in_def Let_def)
  have w: "file_ok f" "unat (file_offset h) + 8192 \<le> fcap f" using wf by (auto simp: sect_wf_def)
  have up: "unat (key_ptr e - val_size e) = unat (val_ptr e)"
    using s by (subst unat_sub_small) simp_all
  have ur: "unat (entity_rec_sz e) = length key + length val"
    using s by (simp add: entity_rec_sz_def unat_add_small)
  let ?f1 = "fput f (unat (file_offset h) + unat (val_ptr e)) (replicate (length key + length val) 0)"
  show "sect_head_write (key_ptr e - val_size e) (replicate (unat (entity_rec_sz e)) 0) (h, f) = Some (Some (), (h, ?f1))"
    using w s up ur by (subst sect_head_write_ok) simp_all
  have st1: "sect_step (h, f) (h, ?f1)"
    using s frp by (intro sect_step_fput [OF wf]) simp_all
  have st2: "sect_step (h, ?f1) (h, fput ?f1 (unat (file_offset h) + unat soff) (replicate 80 0))"
    using s by (intro sect_step_fput [OF sect_stepD(1) [OF st1]]) simp_all
  show "sect_step (h, f) (h, cleared f (unat (file_offset h) + unat (val_ptr e)) (length key + length val) (unat (file_offset h) + unat soff) 80)"
    unfolding cleared_def using st1 st2 by (rule sect_step_trans)
  have "file_ok ?f1" "fcap ?f1 = fcap f" using sect_stepD(1) [OF st1] by (simp_all add: sect_wf_def)
  then show "sect_ext_wrt_itm soff (entity_clear e) (h, ?f1) =
      Some (Some (), (h, cleared f (unat (file_offset h) + unat (val_ptr e)) (length key + length val) (unat (file_offset h) + unat soff) 80))"
    unfolding sect_ext_wrt_itm_def cleared_def using w s
    by (subst sect_head_write_ok) (simp_all add: entity_bytes_clear)
qed

text \<open>Both compressions in a row: where they stop, and that no byte behind the header changes.\<close>

lemma compress_steps:
  assumes wf: "sect_wf (h, f)" and n: "items h n"
  shows "\<exists>h' f'. DO_OR_FAIL (sect_head_cmprs_lip sizeof_Entity) (\<lambda>_. DO_OR_FAIL sect_head_cmprs_frp (\<lambda>_. sect_head_sync)) (h, f) =
      Some (Some (), (h', f')) \<and> sect_step (h, f) (h', f') \<and>
    items h' (last_used f (unat (file_offset h) + 32) 80 n) \<and>
    unat (fst_rec_ptr h') = first_used f (unat (file_offset h)) (unat (fst_rec_ptr h)) \<and>
    (\<forall>i. i < unat (file_offset h) \<or> unat (file_offset h) + 32 \<le> i \<longrightarrow> fdata f' i = fdata f i)"
proof -
  let ?off = "unat (file_offset h)" and ?n' = "last_used f (unat (file_offset h) + 32) 80 n"
  have frp: "unat (fst_rec_ptr h) \<le> 8192" and lip: "32 + 80 * n \<le> 8192"
    using wf n by (auto simp: sect_wf_def items_def)
  have lu: "32 + 80 * ?n' \<le> 32 + 80 * n" by (simp add: last_used_le)
  obtain p where p: "p < LONG_LIMIT" and e1: "sect_head_cmprs_lip sizeof_Entity (h, f) =
      Some (Some (), (set_lip (32 + 80 * ?n') h, (synced (set_lip (32 + 80 * ?n') h) f)\<lparr>fpos := p\<rparr>))"
    using sect_head_cmprs_lip_ok [OF wf n [unfolded items_def]] by auto
  define h1 where "h1 = set_lip (32 + 80 * ?n') h"
  define f1 where "f1 = (synced h1 f)\<lparr>fpos := p\<rparr>"
  have u: "unat (word_of_nat (32 + 80 * ?n') :: u64) = 32 + 80 * ?n'"
    using lu lip by (intro unat_of_nat_small) simp
  then have h1: "file_offset h1 = file_offset h" "fst_rec_ptr h1 = fst_rec_ptr h" "unat (lst_itm_ptr h1) = 32 + 80 * ?n'"
    unfolding h1_def set_lip_fields by simp_all
  have d1: "fdata f1 i = fdata f i" if "i < ?off \<or> ?off + 32 \<le> i" for i
    using that by (simp add: f1_def fdata_synced h1)
  have wf1: "sect_wf (h1, f1)"
    unfolding h1_def f1_def using lu n p by (intro sect_wf_set_lip [OF wf]) (simp_all add: items_def)
  have fu: "first_used f1 ?off (unat (fst_rec_ptr h)) = first_used f ?off (unat (fst_rec_ptr h))"
  proof -
    have "32 \<le> unat (fst_rec_ptr h)" using wf by (simp add: sect_wf_def)
    then have "fget f1 (?off + unat (fst_rec_ptr h)) (8192 - unat (fst_rec_ptr h)) =
        fget f (?off + unat (fst_rec_ptr h)) (8192 - unat (fst_rec_ptr h))"
      by (intro fget_cong d1) simp
    then show ?thesis by (simp add: first_used_def)
  qed
  obtain q where q: "q < LONG_LIMIT" and e2: "sect_head_cmprs_frp (h1, f1) =
      Some (Some (), (set_frp (first_used f ?off (unat (fst_rec_ptr h))) h1,
        (synced (set_frp (first_used f ?off (unat (fst_rec_ptr h))) h1) f1)\<lparr>fpos := q\<rparr>))"
    using sect_head_cmprs_frp_ok [OF wf1] unfolding h1 fu by blast
  define h2 where "h2 = set_frp (first_used f ?off (unat (fst_rec_ptr h))) h1"
  define f2 where "f2 = (synced h2 f1)\<lparr>fpos := q\<rparr>"
  have fb: "unat (fst_rec_ptr h) \<le> first_used f ?off (unat (fst_rec_ptr h))"
    "first_used f ?off (unat (fst_rec_ptr h)) \<le> 8192"
    using first_used_bounds [OF frp] by blast+
  have wf2: "sect_wf (h2, f2)"
    unfolding h2_def f2_def using fb q by (intro sect_wf_set_frp [OF wf1]) (simp_all add: h1)
  have h2: "file_offset h2 = file_offset h" "lst_itm_ptr h2 = lst_itm_ptr h1"
    "unat (fst_rec_ptr h2) = first_used f ?off (unat (fst_rec_ptr h))"
    using fb by (simp_all add: h2_def h1 unat_of_nat_small)
  have d2: "fdata f2 i = fdata f i" if "i < ?off \<or> ?off + 32 \<le> i" for i
    using that by (simp add: f2_def fdata_synced h2 d1)
  have "DO_OR_FAIL (sect_head_cmprs_lip sizeof_Entity) (\<lambda>_. DO_OR_FAIL sect_head_cmprs_frp (\<lambda>_. sect_head_sync)) (h, f) =
      Some (Some (), (h2, f2))"
    using e1 e2 sync_wf [OF wf2] by (simp add: h2_def f2_def h1_def f1_def)
  moreover have "sect_step (h, f) (h2, f2)"
    using wf2 d2 by (intro sect_stepI) (auto simp: h2 f2_def f1_def fsize_synced)
  ultimately show ?thesis using d2 h2 h1(3) by (auto simp: items_def)
qed

text \<open>What a deletion does to its section.\<close>

definition delete_post :: "Sect_head \<Rightarrow> FILE \<Rightarrow> nat \<Rightarrow> Entity \<Rightarrow> nat \<Rightarrow> nat \<Rightarrow> Sect_head \<Rightarrow> FILE \<Rightarrow> bool" where
  "delete_post h f m e len n h' f' \<longleftrightarrow>
     (let off = unat (file_offset h); itm = off + 32 + 80 * m; rec = off + unat (val_ptr e);
          gone = (\<lambda>i. itm \<le> i \<and> i < itm + 80 \<or> rec \<le> i \<and> i < rec + len) in
      sect_step (h, f) (h', f') \<and>
      (\<forall>i. gone i \<longrightarrow> fdata f' i = 0) \<and>
      (\<forall>i. \<not> gone i \<and> (i < off \<or> off + 32 \<le> i) \<longrightarrow> fdata f' i = fdata f i) \<and>
      (\<exists>n' \<le> n. items h' n' \<and> (\<forall>k < n. k \<noteq> m \<and> item_used f h k \<longrightarrow> k < n')) \<and>
      (let frp = unat (fst_rec_ptr h) + (if Suc m = n then len else 0) in
       frp \<le> unat (fst_rec_ptr h') \<and>
       (\<forall>i. off + frp \<le> i \<and> i < off + unat (fst_rec_ptr h') \<longrightarrow> fdata f' i = 0)) \<and>
      (unat (fst_rec_ptr h') < 8192 \<longrightarrow> fdata f' (off + unat (fst_rec_ptr h')) \<noteq> 0))"

lemma sect_ext_delete_ok:
  assumes wf: "sect_wf (h, f)" and e: "entity_in A f h (unat soff) e key val"
    and n: "items h n" and m: "unat soff = 32 + 80 * m"
  shows "\<exists>h' f'. sect_ext_delete soff (h, f) = Some (Some e, (h', f')) \<and>
    delete_post h f m e (length key + length val) n h' f'"
proof -
  let ?off = "unat (file_offset h)" and ?len = "length key + length val"
  have s: "unat soff + 80 \<le> unat (lst_itm_ptr h)" "32 \<le> unat (fst_rec_ptr h)" "unat (lst_itm_ptr h) \<le> 8192"
    "unat (lst_itm_ptr h) \<le> unat (fst_rec_ptr h)" "unat (fst_rec_ptr h) \<le> unat (val_ptr e)"
    using e wf by (auto simp: entity_in_def sect_wf_def Let_def)
  obtain f1 where b: "(if soff + entity_itm_size e = lst_itm_ptr h then
        DO_OR_FAIL (sect_head_shift_lip (- 1 * entity_itm_size e)) (\<lambda>_. sect_head_shift_frp (entity_rec_sz e))
      else ret ()) (h, f) = Some (Some (), (border_head h soff e, f1))"
    and st1: "sect_step (h, f) (border_head h soff e, f1)"
    and d1: "\<And>i. i < ?off \<or> ?off + 32 \<le> i \<Longrightarrow> fdata f1 i = fdata f i"
    using border_steps [OF wf e n] by blast
  define h1 where "h1 = border_head h soff e"
  have hd: "file_offset h1 = file_offset h" and n1: "items h1 (if Suc m = n then m else n)"
    and fr1: "unat (fst_rec_ptr h1) = unat (fst_rec_ptr h) + (if Suc m = n then ?len else 0)"
    using border_head_fields [OF wf e n m] by (simp_all only: h1_def)
  have wf1: "sect_wf (h1, f1)" using sect_stepD(1) [OF st1] by (simp only: h1_def)
  define f2 where "f2 = cleared f1 (?off + unat (val_ptr e)) ?len (?off + unat soff) 80"
  note cl = clearing_steps [OF wf1 e hd s(2,3), unfolded hd]
  have st2: "sect_step (h1, f1) (h1, f2)" using cl(3) by (simp only: f2_def)
  have wf2: "sect_wf (h1, f2)" using sect_stepD(1) [OF st2] .
  obtain h3 f3 where c: "DO_OR_FAIL (sect_head_cmprs_lip sizeof_Entity) (\<lambda>_. DO_OR_FAIL sect_head_cmprs_frp (\<lambda>_. sect_head_sync)) (h1, f2) =
      Some (Some (), (h3, f3))" and st3: "sect_step (h1, f2) (h3, f3)"
    and n3: "items h3 (last_used f2 (?off + 32) 80 (if Suc m = n then m else n))"
    and fr3: "unat (fst_rec_ptr h3) = first_used f2 ?off (unat (fst_rec_ptr h1))"
    and d3: "\<And>i. i < ?off \<or> ?off + 32 \<le> i \<Longrightarrow> fdata f3 i = fdata f2 i"
    using compress_steps [OF wf2 n1] unfolding hd by blast
  have c': "DO_OR_FAIL (sect_head_cmprs_lip sizeof_Entity) (\<lambda>_. DO_OR_FAIL sect_head_cmprs_frp (\<lambda>_.
      DO_OR_FAIL sect_head_sync (\<lambda>_. ret e))) (h1, f2) = Some (Some e, (h3, f3))"
    using c by (auto simp: DO_OR_FAIL_eq_ok)
  have "sect_ext_delete soff (h, f) = Some (Some e, (h3, f3))"
    using entity_in_reads(1) [OF wf e] b cl(1,2) c'
    by (simp add: sect_ext_delete_def flip: h1_def f2_def)
  moreover have "delete_post h f m e ?len n h3 f3"
  proof -
    have d2: "fdata f2 i = (if ?off + unat (val_ptr e) \<le> i \<and> i < ?off + unat (val_ptr e) + ?len \<or>
        ?off + 32 + 80 * m \<le> i \<and> i < ?off + 32 + 80 * m + 80 then 0 else fdata f1 i)" for i
      by (simp add: f2_def fdata_cleared m add.assoc)
    have step: "sect_step (h, f) (h3, f3)"
      using st1 st2 st3 unfolding h1_def by (blast intro: sect_step_trans)
    have frp: "unat (fst_rec_ptr h1) \<le> 8192" using wf1 by (simp add: sect_wf_def)
    have keep: "k < last_used f2 (?off + 32) 80 (if Suc m = n then m else n)"
      if k: "k < n" "k \<noteq> m" "item_used f h k" for k
    proof -
      obtain i where i: "?off + 32 + 80 * k \<le> i" "i < ?off + 32 + 80 * k + 80" "fdata f i \<noteq> 0"
        using k(3) by (auto simp: item_used_iff)
      have kn: "80 * k + 80 \<le> 80 * n" using k(1) by linarith
      have "32 + 80 * n \<le> unat (val_ptr e)" using n s by (simp add: items_def)
      moreover have "80 * k + 80 \<le> 80 * m \<or> 80 * m + 80 \<le> 80 * k" using k(2) by linarith
      ultimately have "fdata f2 i = fdata f i"
        using i kn by (subst d2) (auto simp: d1)
      with i have "item_used f2 h1 k" unfolding item_used_iff hd by metis
      moreover have "k < (if Suc m = n then m else n)" using k by auto
      ultimately show ?thesis using last_used_covers [of k _ f2 h1] by (simp add: hd)
    qed
    have low: "?off + 32 \<le> ?off + unat (fst_rec_ptr h1)" using fr1 s by simp
    have zero: "fdata f3 i = 0"
      if "?off + unat (fst_rec_ptr h1) \<le> i" "i < ?off + unat (fst_rec_ptr h3)" for i
      using first_used_zero_below [of "unat (fst_rec_ptr h1)" "i - ?off" f2 ?off] that frp fr3 low d3 [of i] by simp
    have gone: "fdata f3 i = 0" if "?off + 32 + 80 * m \<le> i \<and> i < ?off + 32 + 80 * m + 80 \<or>
        ?off + unat (val_ptr e) \<le> i \<and> i < ?off + unat (val_ptr e) + ?len" for i
      using that d2 [of i] d3 [of i] s by auto
    have kept: "fdata f3 i = fdata f i" if "\<not> (?off + 32 + 80 * m \<le> i \<and> i < ?off + 32 + 80 * m + 80 \<or>
        ?off + unat (val_ptr e) \<le> i \<and> i < ?off + unat (val_ptr e) + ?len)" "i < ?off \<or> ?off + 32 \<le> i" for i
      using that d2 [of i] d3 [of i] d1 [of i] by auto
    have up: "unat (fst_rec_ptr h1) \<le> unat (fst_rec_ptr h3)"
      unfolding fr3 using first_used_bounds [OF frp] by blast
    have "last_used f2 (?off + 32) 80 (if Suc m = n then m else n) \<le> n"
      using last_used_le [of f2 "?off + 32" 80 "if Suc m = n then m else n"] by (auto split: if_splits)
    then have itm: "\<exists>n' \<le> n. items h3 n' \<and> (\<forall>k < n. k \<noteq> m \<and> item_used f h k \<longrightarrow> k < n')"
      using n3 keep by blast
    have stop: "unat (fst_rec_ptr h3) < 8192 \<longrightarrow> fdata f3 (?off + unat (fst_rec_ptr h3)) \<noteq> 0"
    proof
      assume l: "unat (fst_rec_ptr h3) < 8192"
      have "?off + 32 \<le> ?off + unat (fst_rec_ptr h3)" using up low by simp
      with l first_used_nonzero [OF frp, of f2 ?off] d3 show "fdata f3 (?off + unat (fst_rec_ptr h3)) \<noteq> 0"
        by (simp add: fr3)
    qed
    show ?thesis
      unfolding delete_post_def Let_def fr1 [symmetric] using step gone kept itm up zero stop by blast
  qed
  ultimately show ?thesis by blast
qed

interpretation ext_delete: section_op "sect_ext_delete soff"
    "\<lambda>(h, f). \<exists>A e key val n m. entity_in A f h (unat soff) e key val \<and> items h n \<and> unat soff = 32 + 80 * m"
    for soff
proof unfold_locales
  fix h f
  assume wf: "sect_wf (h, f)" and "case (h, f) of (h, f) \<Rightarrow>
    \<exists>A e key val n m. entity_in A f h (unat soff) e key val \<and> items h n \<and> unat soff = 32 + 80 * m"
  then obtain A e key val n m where "entity_in A f h (unat soff) e key val" "items h n" "unat soff = 32 + 80 * m"
    by auto
  from sect_ext_delete_ok [OF wf this] show "\<exists>r h' f'. sect_ext_delete soff (h, f) = Some (r, (h', f')) \<and>
      sect_step (h, f) (h', f')"
    by (fastforce simp: delete_post_def Let_def)
qed

subsection \<open>Properties\<close>

text \<open>C20: deleting an entity of a well-formed section returns the entity and clears exactly its item and
  record bytes. Every other item that is in use stays below the item pointer, and the record border
  moves over zero bytes only, up to the next non-zero byte, except that the deletion of the last item also
  moves it by the size of that item's record.\<close>

theorem ext_delete_effect:
  assumes "sect_wf (h, f)" "entity_in A f h (unat soff) e key val" "items h n" "unat soff = 32 + 80 * m"
  shows "\<exists>h' f'. sect_ext_delete soff (h, f) = Some (Some e, (h', f')) \<and>
    delete_post h f m e (length key + length val) n h' f'"
  by (rule sect_ext_delete_ok [OF assms])

definition full_head :: Sect_head where
  "full_head = head_after sample_head [107] (enc64 5)"

definition full_stream :: FILE where
  "full_stream = file_after sample_head sample_stream [107] (enc64 5) sample_entity"

lemma full_sect:
  "sect_wf (full_head, full_stream)" "items full_head 1"
  "entity_in (sect_alloc full_head - sect_alloc sample_head) full_stream full_head (unat (32 :: u64))
     (placed sample_head [107] (enc64 5) sample_entity) [107] (enc64 5)"
proof -
  have fits: "fits sample_head [107] (enc64 5)" by (simp add: fits_def)
  have sz: "key_size sample_entity = cnt [107]" "val_size sample_entity = cnt (enc64 5)"
    by (simp_all add: sample_entity_def cnt_def)
  show "sect_wf (full_head, full_stream)"
    unfolding full_head_def full_stream_def by (rule sect_wf_after [OF sample_sect_wf fits])
  show "items full_head 1"
    using head_after_fields(2) [OF sample_sect_wf fits] by (simp add: items_def full_head_def)
  show "entity_in (sect_alloc full_head - sect_alloc sample_head) full_stream full_head (unat (32 :: u64))
     (placed sample_head [107] (enc64 5) sample_entity) [107] (enc64 5)"
    using entity_in_after [OF sample_sect_wf fits sz] by (simp add: full_head_def full_stream_def)
qed

theorem ext_delete_effect_witness:
  "\<exists>h' f'. sect_ext_delete 32 (full_head, full_stream) =
      Some (Some (placed sample_head [107] (enc64 5) sample_entity), (h', f')) \<and>
    delete_post full_head full_stream 0 (placed sample_head [107] (enc64 5) sample_entity)
      (length [107 :: u8] + length (enc64 5)) 1 h' f'"
  by (rule ext_delete_effect [OF full_sect(1,3,2)]) simp

text \<open>An entity written over an item of a well-formed section is read back field by field.\<close>

theorem item_round_trip:
  assumes "sect_wf (h, f)" "32 \<le> unat soff" "unat soff + 80 \<le> unat (lst_itm_ptr h)"
  shows "\<exists>f'. sect_ext_wrt_itm soff e (h, f) = Some (Some (), (h, f')) \<and> sect_step (h, f) (h, f') \<and>
    sect_ext_rd_itm soff (h, f') = Some (Some e, (h, f'))"
proof -
  let ?f = "fput f (unat (file_offset h) + unat soff) (entity_bytes e)"
  note w = sect_ext_wrt_itm_ok [OF assms, of e]
  have wf: "file_ok ?f" "unat (file_offset h) + unat soff + 80 \<le> fsize ?f"
    using sect_stepD(1) [OF w(2)] assms(3) by (auto simp: sect_wf_def)
  then have "sect_ext_rd_itm soff (h, ?f) = Some (Some e, (h, ?f))"
    by (simp add: sect_ext_rd_itm_ok)
  with w show ?thesis by blast
qed

theorem item_round_trip_witness:
  "\<exists>f'. sect_ext_wrt_itm 32 sample_entity (full_head, full_stream) = Some (Some (), (full_head, f')) \<and>
    sect_step (full_head, full_stream) (full_head, f') \<and>
    sect_ext_rd_itm 32 (full_head, f') = Some (Some sample_entity, (full_head, f'))"
  using full_sect(2) by (intro item_round_trip [OF full_sect(1)]) (simp_all add: items_def)

end
