(* ===== verification/Delete_Damage.thy ===== *)
theory Delete_Damage
  imports Extents_Delete
begin

text \<open>
  What a deletion can do to a document that was not deleted. \<^verbatim>\<open>sect_head_cmprs_frp\<close> moves the record
  border over zero bytes, and a live record at the border may begin with them: a number divisible by
  256, most short floats, \<^verbatim>\<open>false\<close>. The border then lies inside the record, and the next write
  into the section overwrites it.
\<close>

text \<open>A record at the border that begins with a zero byte: a deletion moves the border into it.\<close>

lemma border_moves_in:
  assumes wf: "sect_wf (h, f)" and e2: "entity_in B f h (unat soff2) e2 key2 val2" and b: "val_ptr e2 = fst_rec_ptr h"
    and z: "val2 @ key2 \<noteq> []" "hd (val2 @ key2) = 0" "\<exists>x \<in> set (val2 @ key2). x \<noteq> 0"
    and post: "delete_post h f m e len n h' f'" and last: "Suc m \<noteq> n"
    and gone: "\<And>i. unat (val_ptr e2) \<le> i \<Longrightarrow> i < unat (val_ptr e2) + length (val2 @ key2) \<Longrightarrow>
      \<not> (32 + 80 * m \<le> i \<and> i < 32 + 80 * m + 80 \<or> unat (val_ptr e) \<le> i \<and> i < unat (val_ptr e) + len)"
  shows "unat (val_ptr e2) < unat (fst_rec_ptr h')" "unat (fst_rec_ptr h') < unat (val_ptr e2) + length (val2 @ key2)"
    "fget f (unat (file_offset h) + unat (val_ptr e2)) (length (val2 @ key2)) = val2 @ key2"
    "fdata f (unat (file_offset h) + (unat (fst_rec_ptr h') - 1)) = 0"
proof -
  let ?off = "unat (file_offset h)" and ?vp = "unat (val_ptr e2)" and ?r = "val2 @ key2" and ?frp = "unat (fst_rec_ptr h')"
  have e: "unat (key_ptr e2) = ?vp + length val2" "32 \<le> ?vp" "?vp + length ?r \<le> 8192"
    "fget f (?off + ?vp) (length val2) = val2" "fget f (?off + unat (key_ptr e2)) (length key2) = key2"
    using e2 wf b by (auto simp: entity_in_def sect_wf_def Let_def)
  show rec: "fget f (?off + ?vp) (length ?r) = ?r"
    using e(4,5) by (simp add: fget_add e(1) add.assoc)
  then have byte: "fdata f (?off + (?vp + i)) = ?r ! i" if "i < length ?r" for i
    using nth_fget [OF that, of f "?off + ?vp"] rec by (simp add: add.assoc)
  have p: "?vp \<le> ?frp" "\<And>i. ?off + ?vp \<le> i \<Longrightarrow> i < ?off + ?frp \<Longrightarrow> fdata f' i = 0"
    "?frp < 8192 \<Longrightarrow> fdata f' (?off + ?frp) \<noteq> 0"
    using post last by (simp_all add: delete_post_def Let_def b)
  have same: "fdata f' (?off + i) = fdata f (?off + i)" if i: "?vp \<le> i" "i < ?vp + length ?r" for i
  proof -
    have "\<not> (?off + 32 + 80 * m \<le> ?off + i \<and> ?off + i < ?off + 32 + 80 * m + 80 \<or>
        ?off + unat (val_ptr e) \<le> ?off + i \<and> ?off + i < ?off + unat (val_ptr e) + len)"
      using gone [OF i] by simp
    moreover have "?off + 32 \<le> ?off + i" using e(2) i(1) by simp
    ultimately show ?thesis using post unfolding delete_post_def Let_def by blast
  qed
  have l: "0 < length ?r" using z(1) by simp
  have "fdata f' (?off + ?vp) = 0"
    using same [of ?vp] byte [OF l] z(1,2) l by (simp add: hd_conv_nth)
  moreover have "?vp < 8192" using e(3) l by linarith
  ultimately have ne: "?frp \<noteq> ?vp" using p(3) by auto
  with p(1) show lt: "?vp < ?frp" by simp
  show up: "?frp < ?vp + length ?r"
  proof (rule ccontr)
    assume "\<not> ?frp < ?vp + length ?r"
    then have "?r ! i = 0" if "i < length ?r" for i
      using that p(2) [of "?off + (?vp + i)"] same [of "?vp + i"] byte [OF that] by simp
    with z(3) show False by (metis in_set_conv_nth)
  qed
  show "fdata f (?off + (?frp - 1)) = 0"
    using same [of "?frp - 1"] p(2) [of "?off + (?frp - 1)"] lt up by simp
qed

lemma used_item:
  assumes e: "entity_in A f h (unat soff) e key val" and m: "unat soff = 32 + 80 * m" and ne: "val @ key \<noteq> []"
  shows "item_used f h m"
proof (rule ccontr)
  assume "\<not> item_used f h m"
  moreover have it: "fget f (unat (file_offset h) + 32 + 80 * m) 80 = entity_bytes e"
    and sz: "unat (key_size e) = length key" "unat (val_size e) = length val"
    using e by (simp_all add: entity_in_def Let_def m add.assoc)
  ultimately have z: "\<forall>b \<in> set (entity_bytes e). b = 0" by (simp add: item_used_def)
  have "length (entity_bytes e) = 80" using it length_fget by metis
  with z have "entity_bytes e = replicate 80 0" using replicate_zero_iff [of "entity_bytes e"] by simp
  then have "e = entity_clear e" using entity_bytes_clear [of e] by (metis entity_bytes_inject)
  then have "key_size e = 0" "val_size e = 0" by (simp_all add: entity_clear_def entity_new_def)
  with sz ne show False by simp
qed

subsection \<open>Properties\<close>

text \<open>C14: a deletion can damage a document it was not about. When the record at the border of the section
  begins with a zero byte (and is not all zero), deleting another item of the section leaves the
  neighbour's item in place but moves the border into its record, and every later write that fits and
  whose key does not end in a zero byte overwrites part of that record.\<close>

theorem delete_damages_neighbour:
  assumes wf: "sect_wf (h, f)" and e: "entity_in A f h (unat soff) e key val" and n: "items h n"
    and m: "unat soff = 32 + 80 * m" "Suc m \<noteq> n"
    and e2: "entity_in B f h (unat soff2) e2 key2 val2" and m2: "unat soff2 = 32 + 80 * m2" "m2 \<noteq> m"
    and b: "val_ptr e2 = fst_rec_ptr h" and above: "unat (key_ptr e2) + length key2 \<le> unat (val_ptr e)"
    and z: "val2 @ key2 \<noteq> []" "hd (val2 @ key2) = 0" "\<exists>x \<in> set (val2 @ key2). x \<noteq> 0"
  shows "\<exists>h1 f1. sect_ext_delete soff (h, f) = Some (Some e, (h1, f1)) \<and>
    fget f1 (unat (file_offset h) + unat soff2) 80 = entity_bytes e2 \<and>
    (\<forall>key3 val3 ent. fits h1 key3 val3 \<longrightarrow> key3 \<noteq> [] \<longrightarrow> last key3 \<noteq> 0 \<longrightarrow>
      (\<exists>e3 h2 f2. sect_ext_write key3 val3 ent (h1, f1) = Some (Some (e3, lst_itm_ptr h1), (h2, f2)) \<and>
         fget f2 (unat (file_offset h) + unat soff2) 80 = entity_bytes e2 \<and>
         fget f2 (unat (file_offset h) + unat (val_ptr e2)) (length (val2 @ key2)) \<noteq> val2 @ key2))"
proof -
  let ?off = "unat (file_offset h)" and ?len = "length key + length val"
  obtain h1 f1 where d: "sect_ext_delete soff (h, f) = Some (Some e, (h1, f1))" and p: "delete_post h f m e ?len n h1 f1"
    using sect_ext_delete_ok [OF wf e n m(1)] by blast
  have st: "sect_step (h, f) (h1, f1)" using p by (simp add: delete_post_def Let_def)
  have wf1: "sect_wf (h1, f1)" and o1: "file_offset h1 = file_offset h" using sect_stepD [OF st] by simp_all
  have q: "unat soff2 + 80 \<le> unat (lst_itm_ptr h)" "32 + 80 * n \<le> unat (val_ptr e2)"
    "unat (val_ptr e2) + length val2 = unat (key_ptr e2)" "fget f (?off + unat soff2) 80 = entity_bytes e2"
    "32 + 80 * n \<le> unat (val_ptr e)" "unat soff + 80 \<le> 32 + 80 * n"
    using e e2 wf n by (auto simp: entity_in_def sect_wf_def items_def Let_def)
  have gone: "\<not> (32 + 80 * m \<le> i \<and> i < 32 + 80 * m + 80 \<or> unat (val_ptr e) \<le> i \<and> i < unat (val_ptr e) + ?len)"
    if "unat (val_ptr e2) \<le> i" "i < unat (val_ptr e2) + length (val2 @ key2)" for i
    using that q(2,3,6) above m(1) by auto
  note mv = border_moves_in [OF wf e2 b z p m(2) gone]
  have m2n: "m2 < n" using q(1) n m2(1) by (simp add: items_def)
  have item: "fget f1 (?off + unat soff2) 80 = entity_bytes e2"
  proof -
    have "fget f1 (?off + unat soff2) 80 = fget f (?off + unat soff2) 80"
    proof (rule fget_cong)
      fix i assume i: "?off + unat soff2 \<le> i" "i < ?off + unat soff2 + 80"
      have "80 * m2 + 80 \<le> 80 * m \<or> 80 * m + 80 \<le> 80 * m2" using m2(2) by linarith
      then have "\<not> (?off + 32 + 80 * m \<le> i \<and> i < ?off + 32 + 80 * m + 80 \<or>
          ?off + unat (val_ptr e) \<le> i \<and> i < ?off + unat (val_ptr e) + ?len)"
        using i m2(1) q(1,5) n by (auto simp: items_def)
      moreover have "?off + 32 \<le> i" using i(1) m2(1) by simp
      ultimately show "fdata f1 i = fdata f i" using p unfolding delete_post_def Let_def by blast
    qed
    with q(4) show ?thesis by simp
  qed
  obtain n' where n': "items h1 n'" "\<And>k. k < n \<Longrightarrow> k \<noteq> m \<Longrightarrow> item_used f h k \<Longrightarrow> k < n'"
    using p unfolding delete_post_def Let_def by blast
  have "m2 < n'" by (rule n'(2) [OF m2n m2(2) used_item [OF e2 m2(1) z(1)]])
  then have below: "unat soff2 + 80 \<le> unat (lst_itm_ptr h1)" using n'(1) m2(1) by (simp add: items_def)
  have "\<exists>e3 h2 f2. sect_ext_write key3 val3 ent (h1, f1) = Some (Some (e3, lst_itm_ptr h1), (h2, f2)) \<and>
      fget f2 (?off + unat soff2) 80 = entity_bytes e2 \<and>
      fget f2 (?off + unat (val_ptr e2)) (length (val2 @ key2)) \<noteq> val2 @ key2"
    if fits: "fits h1 key3 val3" and ne: "key3 \<noteq> []" "last key3 \<noteq> 0" for key3 val3 ent
  proof -
    let ?f2 = "file_after h1 f1 key3 val3 ent"
    note w = sect_ext_write_eq [OF wf1 fits, of ent]
    have "fget ?f2 (?off + unat soff2) 80 = fget f1 (?off + unat soff2) 80"
      by (rule fget_cong, rule file_after_frame [OF wf1 fits]) (use below m2(1) in \<open>auto simp: o1\<close>)
    then have i2: "fget ?f2 (?off + unat soff2) 80 = entity_bytes e2" using item by simp
    have l: "length key3 \<le> unat (fst_rec_ptr h1)" "0 < length key3" using fits ne(1) by (auto simp: fits_def)
    then have pos: "?off + (unat (fst_rec_ptr h1) - length key3) + (length key3 - 1) = ?off + (unat (fst_rec_ptr h1) - 1)"
      by linarith
    have "fget ?f2 (?off + (unat (fst_rec_ptr h1) - length key3)) (length key3) = key3"
      using file_after_key [OF wf1 fits, of ent] by (simp only: o1)
    moreover have "length key3 - 1 < length key3" using l(2) by simp
    ultimately have "key3 ! (length key3 - 1) =
        fdata ?f2 (?off + (unat (fst_rec_ptr h1) - length key3) + (length key3 - 1))"
      using nth_fget by metis
    then have "fdata ?f2 (?off + (unat (fst_rec_ptr h1) - 1)) = last key3"
      unfolding pos last_conv_nth [OF ne(1)] by (rule sym)
    then have diff: "fdata ?f2 (?off + (unat (fst_rec_ptr h1) - 1)) \<noteq> fdata f (?off + (unat (fst_rec_ptr h1) - 1))"
      using mv(4) ne(2) by simp
    have "fget ?f2 (?off + unat (val_ptr e2)) (length (val2 @ key2)) \<noteq> val2 @ key2"
    proof
      assume "fget ?f2 (?off + unat (val_ptr e2)) (length (val2 @ key2)) = val2 @ key2"
      with mv(3) have "fget ?f2 (?off + unat (val_ptr e2)) (length (val2 @ key2)) =
          fget f (?off + unat (val_ptr e2)) (length (val2 @ key2))" by simp
      then have "fdata ?f2 (?off + (unat (fst_rec_ptr h1) - 1)) = fdata f (?off + (unat (fst_rec_ptr h1) - 1))"
        by (rule fget_eqD) (use mv(1,2) in simp_all)
      with diff show False by simp
    qed
    with w i2 show ?thesis by blast
  qed
  with d item show ?thesis by blast
qed

text \<open>A section with two documents, the second of value 0.\<close>

definition two_head :: Sect_head where
  "two_head = head_after full_head [110] (enc64 0)"

definition two_stream :: FILE where
  "two_stream = file_after full_head full_stream [110] (enc64 0) sample_entity"

lemma two_sect:
  "sect_wf (two_head, two_stream)" "items two_head 2" "file_offset two_head = file_offset full_head"
  "entity_in (sect_alloc full_head - sect_alloc sample_head) two_stream two_head (unat (32 :: u64))
     (placed sample_head [107] (enc64 5) sample_entity) [107] (enc64 5)"
  "entity_in (sect_alloc two_head - sect_alloc full_head) two_stream two_head (unat (112 :: u64))
     (placed full_head [110] (enc64 0) sample_entity) [110] (enc64 0)"
  "val_ptr (placed full_head [110] (enc64 0) sample_entity) = fst_rec_ptr two_head"
  "unat (key_ptr (placed full_head [110] (enc64 0) sample_entity)) + length [110 :: u8] \<le>
     unat (val_ptr (placed sample_head [107] (enc64 5) sample_entity))"
proof -
  have f1: "fits sample_head [107] (enc64 5)" by (simp add: fits_def)
  note h1 = head_after_fields [OF sample_sect_wf f1, folded full_head_def]
  have f2: "fits full_head [110] (enc64 0)" using h1 by (simp add: fits_def)
  have sz: "key_size sample_entity = cnt [110]" "val_size sample_entity = cnt (enc64 0)"
    by (simp_all add: sample_entity_def cnt_def)
  note h2 = head_after_fields [OF full_sect(1) f2, folded two_head_def]
  show "sect_wf (two_head, two_stream)"
    unfolding two_head_def two_stream_def by (rule sect_wf_after [OF full_sect(1) f2])
  show "items two_head 2" using h1(2) h2(2) by (simp add: items_def)
  show "file_offset two_head = file_offset full_head" by (rule h2(1))
  show "entity_in (sect_alloc full_head - sect_alloc sample_head) two_stream two_head (unat (32 :: u64))
     (placed sample_head [107] (enc64 5) sample_entity) [107] (enc64 5)"
    using full_sect(3) head_after_grows [OF full_sect(1) f2, folded two_head_def]
    by (rule entity_in_transfer) (use file_after_alloc [OF full_sect(1) f2] in \<open>simp add: two_stream_def\<close>)
  have "unat (lst_itm_ptr full_head) = 112" using h1(2) by simp
  then show "entity_in (sect_alloc two_head - sect_alloc full_head) two_stream two_head (unat (112 :: u64))
     (placed full_head [110] (enc64 0) sample_entity) [110] (enc64 0)"
    using entity_in_after [OF full_sect(1) f2 sz] by (simp add: two_head_def two_stream_def)
  show "val_ptr (placed full_head [110] (enc64 0) sample_entity) = fst_rec_ptr two_head"
    by (simp add: placed_def two_head_def head_after_def)
  have "fst_rec_ptr full_head = val_ptr (placed sample_head [107] (enc64 5) sample_entity)"
    by (simp add: placed_def full_head_def head_after_def)
  moreover have "unat (key_ptr (placed full_head [110] (enc64 0) sample_entity)) = unat (fst_rec_ptr full_head) - 1"
    using fits_cnt(3) [OF full_sect(1) f2] by (simp add: placed_def)
  moreover have "unat (fst_rec_ptr full_head) = 8183" using h1(3) by simp
  ultimately show "unat (key_ptr (placed full_head [110] (enc64 0) sample_entity)) + length [110 :: u8] \<le>
     unat (val_ptr (placed sample_head [107] (enc64 5) sample_entity))" by simp
qed

theorem delete_damages_neighbour_witness:
  "\<exists>h1 f1. sect_ext_delete 32 (two_head, two_stream) =
      Some (Some (placed sample_head [107] (enc64 5) sample_entity), (h1, f1)) \<and>
    fget f1 (unat (file_offset two_head) + unat (112 :: u64)) 80 =
      entity_bytes (placed full_head [110] (enc64 0) sample_entity) \<and>
    (\<forall>key3 val3 ent. fits h1 key3 val3 \<longrightarrow> key3 \<noteq> [] \<longrightarrow> last key3 \<noteq> 0 \<longrightarrow>
      (\<exists>e3 h2 f2. sect_ext_write key3 val3 ent (h1, f1) = Some (Some (e3, lst_itm_ptr h1), (h2, f2)) \<and>
         fget f2 (unat (file_offset two_head) + unat (112 :: u64)) 80 =
           entity_bytes (placed full_head [110] (enc64 0) sample_entity) \<and>
         fget f2 (unat (file_offset two_head) + unat (val_ptr (placed full_head [110] (enc64 0) sample_entity)))
           (length (enc64 0 @ [110])) \<noteq> enc64 0 @ [110]))"
proof -
  have "enc64 0 = replicate 8 0" by (simp add: enc64_def upt8 eval_nat_numeral)
  moreover have "(110 :: u8) \<noteq> 0" by simp
  moreover have "replicate 8 0 = (0 :: u8) # replicate 7 0" by (simp add: eval_nat_numeral)
  ultimately have "enc64 0 @ [110] \<noteq> []" "hd (enc64 0 @ [110]) = 0" "\<exists>x \<in> set (enc64 0 @ [110]). x \<noteq> 0"
    by simp_all
  from delete_damages_neighbour [OF two_sect(1,4,2) _ _ two_sect(5) _ _ two_sect(6,7) this, of 0 1] show ?thesis
    by simp
qed

end
