(* ===== verification/Tidy.thy ===== *)
theory Tidy
  imports Delete_Damage
begin

text \<open>
  Sections in which a deletion is harmless. The item area of a tidy section is a row of entities; those
  in use have records that do not overlap, lie in the order in which they were written, and begin with a
  byte other than zero. Writing such a record, rewriting an item and deleting an item keep a section tidy,
  and a deletion then leaves every other item with its record as it was: theory \<open>Delete_Damage\<close> shows
  what happens without the last condition.
\<close>

subsection \<open>Items\<close>

definition item_ent :: "FILE \<Rightarrow> Sect_head \<Rightarrow> nat \<Rightarrow> Entity" where
  "item_ent f h k = entity_of (fget f (unat (file_offset h) + 32 + 80 * k) 80)"

lemma item_bytes: "fget f (unat (file_offset h) + 32 + 80 * k) 80 = entity_bytes (item_ent f h k)"
  by (simp add: item_ent_def entity_bytes_of)

lemma item_ent_eq: "fget f (unat (file_offset h) + 32 + 80 * k) 80 = entity_bytes e \<Longrightarrow> item_ent f h k = e"
  by (simp add: item_ent_def)

lemma item_used_ent: "item_used f h k \<longleftrightarrow> item_ent f h k \<noteq> entity_new"
proof -
  have z: "entity_bytes entity_new = replicate 80 0"
    using entity_bytes_clear [of entity_new] by (simp add: entity_clear_def)
  have "\<not> item_used f h k \<longleftrightarrow> entity_bytes (item_ent f h k) = replicate 80 0"
    using replicate_zero_iff [of "entity_bytes (item_ent f h k)"] by (simp add: item_used_def item_bytes)
  then show ?thesis unfolding z [symmetric] by auto
qed

definition rec_end :: "Entity \<Rightarrow> nat" where
  "rec_end e = unat (key_ptr e) + unat (key_size e)"

definition rec_ok :: "FILE \<Rightarrow> Sect_head \<Rightarrow> Entity \<Rightarrow> bool" where
  "rec_ok f h e \<longleftrightarrow> unat (fst_rec_ptr h) \<le> unat (val_ptr e) \<and> unat (key_ptr e) = unat (val_ptr e) + unat (val_size e) \<and>
     rec_end e \<le> 8192 \<and> unat (val_ptr e) < rec_end e \<and> fdata f (unat (file_offset h) + unat (val_ptr e)) \<noteq> 0"

definition tidy :: "sect \<Rightarrow> bool" where
  "tidy = (\<lambda>(h, f). \<exists>n. items h n \<and> (\<forall>k < n. item_used f h k \<longrightarrow> rec_ok f h (item_ent f h k)) \<and>
     (\<forall>k < n. \<forall>l < k. item_used f h k \<longrightarrow> item_used f h l \<longrightarrow>
        rec_end (item_ent f h k) \<le> unat (val_ptr (item_ent f h l))))"

lemma items_unique: "items h n \<Longrightarrow> items h n' \<Longrightarrow> n' = n"
  by (simp add: items_def)

lemma tidyI:
  assumes "items h n" "\<And>k. k < n \<Longrightarrow> item_used f h k \<Longrightarrow> rec_ok f h (item_ent f h k)"
    and "\<And>k l. k < n \<Longrightarrow> l < k \<Longrightarrow> item_used f h k \<Longrightarrow> item_used f h l \<Longrightarrow>
      rec_end (item_ent f h k) \<le> unat (val_ptr (item_ent f h l))"
  shows "tidy (h, f)"
  using assms unfolding tidy_def by blast

lemma tidyD:
  assumes "tidy (h, f)" "items h n"
  shows "k < n \<Longrightarrow> item_used f h k \<Longrightarrow> rec_ok f h (item_ent f h k)"
    "k < n \<Longrightarrow> l < k \<Longrightarrow> item_used f h k \<Longrightarrow> item_used f h l \<Longrightarrow>
      rec_end (item_ent f h k) \<le> unat (val_ptr (item_ent f h l))"
proof -
  obtain n' where n': "items h n'" "\<And>k. k < n' \<Longrightarrow> item_used f h k \<Longrightarrow> rec_ok f h (item_ent f h k)"
    "\<And>k l. k < n' \<Longrightarrow> l < k \<Longrightarrow> item_used f h k \<Longrightarrow> item_used f h l \<Longrightarrow>
      rec_end (item_ent f h k) \<le> unat (val_ptr (item_ent f h l))"
    using assms(1) unfolding tidy_def by blast
  have "n' = n" using items_unique [OF assms(2) n'(1)] .
  then show "k < n \<Longrightarrow> item_used f h k \<Longrightarrow> rec_ok f h (item_ent f h k)"
    "k < n \<Longrightarrow> l < k \<Longrightarrow> item_used f h k \<Longrightarrow> item_used f h l \<Longrightarrow>
      rec_end (item_ent f h k) \<le> unat (val_ptr (item_ent f h l))"
    using n'(2,3) by blast+
qed

lemma tidy_items: "tidy (h, f) \<Longrightarrow> \<exists>n. items h n"
  unfolding tidy_def by blast

text \<open>The bytes of an item and of its record.\<close>

definition item_area :: "Sect_head \<Rightarrow> nat \<Rightarrow> Entity \<Rightarrow> nat set" where
  "item_area h k e = {unat (file_offset h) + 32 + 80 * k ..< unat (file_offset h) + 32 + 80 * k + 80} \<union>
     {unat (file_offset h) + unat (val_ptr e) ..< unat (file_offset h) + rec_end e}"

lemma tidy_apart:
  assumes "sect_wf (h, f)" "tidy (h, f)" "items h n" "k < n" "l < n" "k \<noteq> l" "item_used f h k" "item_used f h l"
  shows "item_area h k (item_ent f h k) \<inter> item_area h l (item_ent f h l) = {}"
proof -
  note t = tidyD [OF assms(2,3)]
  have "unat (lst_itm_ptr h) \<le> unat (fst_rec_ptr h)" using assms(1) by (simp add: sect_wf_def)
  then have f: "32 + 80 * n \<le> unat (val_ptr (item_ent f h k))" "32 + 80 * n \<le> unat (val_ptr (item_ent f h l))"
    using t(1) [OF assms(4,7)] t(1) [OF assms(5,8)] assms(3) by (simp_all add: rec_ok_def items_def)
  have kl: "32 + 80 * k + 80 \<le> 32 + 80 * n" "32 + 80 * l + 80 \<le> 32 + 80 * n" using assms(4,5) by linarith+
  have o: "80 * k + 80 \<le> 80 * l \<or> 80 * l + 80 \<le> 80 * k" using assms(6) by linarith
  have r: "rec_end (item_ent f h k) \<le> unat (val_ptr (item_ent f h l)) \<or> rec_end (item_ent f h l) \<le> unat (val_ptr (item_ent f h k))"
  proof (cases "l < k")
    case True
    then show ?thesis using t(2) [OF assms(4) True assms(7,8)] by simp
  next
    case False
    then have "k < l" using assms(6) by simp
    then show ?thesis using t(2) [OF assms(5) _ assms(8,7)] by blast
  qed
  show ?thesis
    using f kl o r by (auto simp: item_area_def)
qed

text \<open>What depends on the bytes of an item and its record only.\<close>

lemma item_same:
  assumes "\<And>b. b \<in> item_area h k e \<Longrightarrow> fdata f' b = fdata f b" "file_offset h' = file_offset h"
  shows "item_ent f' h' k = item_ent f h k" "item_used f' h' k \<longleftrightarrow> item_used f h k"
proof -
  have "fget f' (unat (file_offset h') + 32 + 80 * k) 80 = fget f (unat (file_offset h) + 32 + 80 * k) 80"
    unfolding assms(2) by (rule fget_cong, rule assms(1)) (simp add: item_area_def)
  then show "item_ent f' h' k = item_ent f h k" by (simp add: item_ent_def)
  then show "item_used f' h' k \<longleftrightarrow> item_used f h k" by (simp add: item_used_ent)
qed

lemma rec_ok_same:
  assumes "rec_ok f h e" "unat (fst_rec_ptr h') \<le> unat (val_ptr e)" "file_offset h' = file_offset h"
    and "\<And>b. b \<in> item_area h k e \<Longrightarrow> fdata f' b = fdata f b"
  shows "rec_ok f' h' e"
proof -
  have "fdata f' (unat (file_offset h) + unat (val_ptr e)) = fdata f (unat (file_offset h) + unat (val_ptr e))"
    using assms(1) by (intro assms(4)) (simp add: item_area_def rec_ok_def)
  with assms(1-3) show ?thesis by (simp add: rec_ok_def)
qed

text \<open>An item in use is an entity with the key and the value its record holds.\<close>

definition rec_val :: "FILE \<Rightarrow> Sect_head \<Rightarrow> Entity \<Rightarrow> u8 list" where
  "rec_val f h e = fget f (unat (file_offset h) + unat (val_ptr e)) (unat (val_size e))"

definition rec_key :: "FILE \<Rightarrow> Sect_head \<Rightarrow> Entity \<Rightarrow> String" where
  "rec_key f h e = fget f (unat (file_offset h) + unat (key_ptr e)) (unat (key_size e))"

lemma tidy_entity:
  assumes "tidy (h, f)" "items h n" "k < n" "item_used f h k" "item_area h k (item_ent f h k) \<subseteq> A"
  shows "entity_in A f h (32 + 80 * k) (item_ent f h k) (rec_key f h (item_ent f h k)) (rec_val f h (item_ent f h k))"
proof -
  note r = tidyD(1) [OF assms(1-4)]
  have "32 + 80 * k + 80 \<le> unat (lst_itm_ptr h)" using assms(2,3) unfolding items_def by linarith
  with r assms(5) item_bytes [of f h k] show ?thesis
    by (simp add: entity_in_def Let_def rec_ok_def item_area_def rec_end_def rec_key_def rec_val_def add.assoc)
qed

lemma entity_in_item:
  assumes "entity_in A f h (32 + 80 * k) e key val"
  shows "item_ent f h k = e" "rec_key f h e = key" "rec_val f h e = val"
  using assms by (auto simp: entity_in_def Let_def rec_key_def rec_val_def add.assoc intro!: item_ent_eq)

subsection \<open>Deleting\<close>

text \<open>What a deletion keeps: every other item in use, where it was, and no more.\<close>

definition deleted :: "nat \<Rightarrow> sect \<Rightarrow> sect \<Rightarrow> bool" where
  "deleted m = (\<lambda>(h, f) (h', f'). \<exists>n n'. items h n \<and> items h' n' \<and> n' \<le> n \<and>
     (\<forall>k < n. k \<noteq> m \<longrightarrow> item_used f h k \<longrightarrow> k < n' \<and> (\<forall>b \<in> item_area h k (item_ent f h k). fdata f' b = fdata f b)) \<and>
     (\<forall>k < n'. item_used f' h' k \<longrightarrow> k \<noteq> m \<and> item_used f h k))"

lemma deletedD:
  assumes "deleted m (h, f) (h', f')" "items h n"
  shows "\<exists>n' \<le> n. items h' n'"
    "k < n \<Longrightarrow> k \<noteq> m \<Longrightarrow> item_used f h k \<Longrightarrow> items h' n' \<Longrightarrow> k < n'"
    "k < n \<Longrightarrow> k \<noteq> m \<Longrightarrow> item_used f h k \<Longrightarrow> b \<in> item_area h k (item_ent f h k) \<Longrightarrow> fdata f' b = fdata f b"
    "items h' n' \<Longrightarrow> k < n' \<Longrightarrow> item_used f' h' k \<Longrightarrow> k \<noteq> m \<and> item_used f h k"
proof -
  obtain n0 n1 where n: "items h n0" "items h' n1" "n1 \<le> n0"
    and k: "\<And>k. k < n0 \<Longrightarrow> k \<noteq> m \<Longrightarrow> item_used f h k \<Longrightarrow>
        k < n1 \<and> (\<forall>b \<in> item_area h k (item_ent f h k). fdata f' b = fdata f b)"
    and g: "\<And>k. k < n1 \<Longrightarrow> item_used f' h' k \<Longrightarrow> k \<noteq> m \<and> item_used f h k"
    using assms(1) unfolding deleted_def by blast
  have e: "n = n0" using items_unique [OF n(1) assms(2)] .
  show "\<exists>n' \<le> n. items h' n'" using n e by blast
  show "k < n \<Longrightarrow> k \<noteq> m \<Longrightarrow> item_used f h k \<Longrightarrow> items h' n' \<Longrightarrow> k < n'"
    using k [of k] items_unique [OF n(2), of n'] e by simp
  show "k < n \<Longrightarrow> k \<noteq> m \<Longrightarrow> item_used f h k \<Longrightarrow> b \<in> item_area h k (item_ent f h k) \<Longrightarrow> fdata f' b = fdata f b"
    using k [of k] e by simp
  show "items h' n' \<Longrightarrow> k < n' \<Longrightarrow> item_used f' h' k \<Longrightarrow> k \<noteq> m \<and> item_used f h k"
    using g [of k] items_unique [OF n(2), of n'] by simp
qed

text \<open>A border that moves over zero bytes stops at a record that begins with another byte.\<close>

lemma border_stops:
  assumes "p \<le> q" "\<And>i. off + p \<le> i \<Longrightarrow> i < off + q \<Longrightarrow> fdata f i = 0" "fdata f (off + v) \<noteq> 0" "p \<le> v"
  shows "q \<le> (v :: nat)"
  using assms(2) [of "off + v"] assms(3,4) by (cases "v < q") auto

lemma tidy_delete:
  assumes wf: "sect_wf (h, f)" and t: "tidy (h, f)" and n: "items h n" and m: "m < n" "item_used f h m"
    and soff: "unat soff = 32 + 80 * m"
  shows "\<exists>h' f'. sect_ext_delete soff (h, f) = Some (Some (item_ent f h m), (h', f')) \<and>
    sect_step (h, f) (h', f') \<and> tidy (h', f') \<and> deleted m (h, f) (h', f') \<and>
    (\<forall>i. unat (file_offset h) + 32 \<le> i \<longrightarrow> fdata f' i \<noteq> fdata f i \<longrightarrow> i \<in> item_area h m (item_ent f h m))"
proof -
  let ?off = "unat (file_offset h)" and ?e = "item_ent f h m" and ?len = "unat (key_size (item_ent f h m)) + unat (val_size (item_ent f h m))"
  note r = tidyD [OF t n]
  have e: "entity_in UNIV f h (unat soff) ?e (rec_key f h ?e) (rec_val f h ?e)"
    unfolding soff by (rule tidy_entity [OF t n m]) simp
  obtain h' f' where d: "sect_ext_delete soff (h, f) = Some (Some ?e, (h', f'))"
    and p: "delete_post h f m ?e ?len n h' f'"
    using sect_ext_delete_ok [OF wf e n soff] by (auto simp: rec_key_def rec_val_def)
  have re: "unat (val_ptr ?e) + ?len = rec_end ?e"
    using r(1) [OF m] by (simp add: rec_ok_def rec_end_def)
  have gone: "?off + 32 + 80 * m \<le> i \<and> i < ?off + 32 + 80 * m + 80 \<or> ?off + unat (val_ptr ?e) \<le> i \<and>
      i < ?off + unat (val_ptr ?e) + ?len \<longleftrightarrow> i \<in> item_area h m ?e" for i
    using re by (auto simp: item_area_def)
  have p': "sect_step (h, f) (h', f')" "\<And>i. i \<in> item_area h m ?e \<Longrightarrow> fdata f' i = 0"
    "\<And>i. i \<notin> item_area h m ?e \<Longrightarrow> ?off + 32 \<le> i \<Longrightarrow> fdata f' i = fdata f i"
    "\<exists>n' \<le> n. items h' n' \<and> (\<forall>k < n. k \<noteq> m \<and> item_used f h k \<longrightarrow> k < n')"
    "unat (fst_rec_ptr h) + (if Suc m = n then ?len else 0) \<le> unat (fst_rec_ptr h')"
    "\<And>i. ?off + (unat (fst_rec_ptr h) + (if Suc m = n then ?len else 0)) \<le> i \<Longrightarrow>
      i < ?off + unat (fst_rec_ptr h') \<Longrightarrow> fdata f' i = 0"
    using p unfolding delete_post_def Let_def gone by blast+
  obtain n' where n': "n' \<le> n" "items h' n'" "\<And>k. k < n \<Longrightarrow> k \<noteq> m \<Longrightarrow> item_used f h k \<Longrightarrow> k < n'"
    using p'(4) by blast
  have o: "file_offset h' = file_offset h" using sect_stepD(2) [OF p'(1)] .
  have low: "32 + 80 * n \<le> unat (fst_rec_ptr h)" using wf n by (simp add: sect_wf_def items_def)
  have same: "fdata f' b = fdata f b" if "k < n" "k \<noteq> m" "item_used f h k" "b \<in> item_area h k (item_ent f h k)" for k b
  proof (rule p'(3))
    show "b \<notin> item_area h m ?e" using tidy_apart [OF wf t n that(1) m(1) that(2,3) m(2)] that(4) by blast
    show "?off + 32 \<le> b" using that(4) r(1) [OF that(1,3)] low by (auto simp: item_area_def rec_ok_def)
  qed
  have stays: "k < n \<and> k \<noteq> m \<and> item_used f h k" if k: "k < n'" "item_used f' h' k" for k
  proof -
    have kn: "k < n" using k(1) n'(1) by simp
    obtain i where i: "?off + 32 + 80 * k \<le> i" "i < ?off + 32 + 80 * k + 80" "fdata f' i \<noteq> 0"
      using k(2) unfolding item_used_iff o by blast
    have out: "i \<notin> item_area h m ?e" using p'(2) i(3) by blast
    have "?off + 32 \<le> i" using i(1) by simp
    with out p'(3) i(3) have "fdata f i \<noteq> 0" by simp
    with i(1,2) have "item_used f h k" unfolding item_used_iff by blast
    moreover have "k \<noteq> m" using out i(1,2) by (auto simp: item_area_def)
    ultimately show ?thesis using kn by blast
  qed
  have ok: "rec_ok f' h' (item_ent f h k)" if k: "k < n" "k \<noteq> m" "item_used f h k" for k
  proof (rule rec_ok_same [OF r(1) [OF k(1,3)] _ o same [OF k]])
    let ?p = "unat (fst_rec_ptr h) + (if Suc m = n then ?len else 0)"
    show "unat (fst_rec_ptr h') \<le> unat (val_ptr (item_ent f h k))"
    proof (rule border_stops [OF p'(5,6)])
      show "fdata f' (?off + unat (val_ptr (item_ent f h k))) \<noteq> 0"
        using same [OF k, of "?off + unat (val_ptr (item_ent f h k))"] r(1) [OF k(1,3)]
        by (simp add: item_area_def rec_ok_def)
      have b: "unat (fst_rec_ptr h) \<le> unat (val_ptr (item_ent f h k))" "unat (fst_rec_ptr h) \<le> unat (val_ptr ?e)"
        using r(1) [OF k(1,3)] r(1) [OF m] by (simp_all add: rec_ok_def)
      show "?p \<le> unat (val_ptr (item_ent f h k))"
      proof (cases "Suc m = n")
        case True
        then have "k < m" using k by simp
        then have "rec_end ?e \<le> unat (val_ptr (item_ent f h k))" by (rule r(2) [OF m(1) _ m(2) k(3)])
        with True b re show ?thesis by simp
      qed (use b in simp)
    qed
  qed
  have it: "item_ent f' h' k = item_ent f h k" "item_used f' h' k"
    if k: "k < n" "k \<noteq> m" "item_used f h k" for k
    using item_same [OF same [OF k] o] k(3) by blast+
  have "tidy (h', f')"
  proof (rule tidyI [OF n'(2)])
    show "rec_ok f' h' (item_ent f' h' k)" if "k < n'" "item_used f' h' k" for k
      using ok it(1) stays [OF that] by simp
    show "rec_end (item_ent f' h' k) \<le> unat (val_ptr (item_ent f' h' l))"
      if "k < n'" "l < k" "item_used f' h' k" "item_used f' h' l" for k l
      using r(2) [of k l] it(1) stays [of k] stays [of l] that by simp
  qed
  moreover have "deleted m (h, f) (h', f')"
    unfolding deleted_def using n n' same stays by blast
  ultimately show ?thesis using d p'(1,3) by blast
qed

subsection \<open>Writing\<close>

text \<open>Keys and values whose record begins with a byte other than zero.\<close>

definition solid :: "u8 list \<Rightarrow> String \<Rightarrow> bool" where
  "solid val key \<longleftrightarrow> val @ key \<noteq> [] \<and> hd (val @ key) \<noteq> 0"

lemma tidy_write:
  assumes wf: "sect_wf (h, f)" and t: "tidy (h, f)" and n: "items h n" and fits: "fits h key val"
    and sz: "key_size ent = cnt key" "val_size ent = cnt val" and solid: "solid val key"
  defines "h' \<equiv> head_after h key val" and "f' \<equiv> file_after h f key val ent"
  shows "tidy (h', f')" "items h' (Suc n)" "item_ent f' h' n = placed h key val ent" "item_used f' h' n"
    "\<And>k. k < n \<Longrightarrow> item_ent f' h' k = item_ent f h k" "\<And>k. k < n \<Longrightarrow> item_used f' h' k \<longleftrightarrow> item_used f h k"
proof -
  let ?off = "unat (file_offset h)" and ?e = "placed h key val ent"
  note r = tidyD [OF t n] and c = fits_cnt [OF wf fits] and hf = head_after_fields [OF wf fits, folded h'_def]
  have lip: "unat (lst_itm_ptr h) = 32 + 80 * n" using n by (simp add: items_def)
  have frp: "unat (fst_rec_ptr h) \<le> 8192" "80 + length key + length val \<le> unat (fst_rec_ptr h) - unat (lst_itm_ptr h)"
    using wf fits by (simp_all add: sect_wf_def fits_def)
  show n': "items h' (Suc n)" using hf(2) lip by (simp add: items_def)
  have "entity_in UNIV f' h' (32 + 80 * n) ?e key val"
    using entity_in_mono [OF entity_in_after [OF wf fits sz]] by (simp add: h'_def f'_def lip)
  note ei = entity_in_item [OF this]
  show en: "item_ent f' h' n = ?e" by (rule ei(1))
  have pt: "unat (val_ptr ?e) = unat (fst_rec_ptr h')" "unat (fst_rec_ptr h') + (length val + length key) = unat (fst_rec_ptr h)"
    "unat (key_ptr ?e) = unat (val_ptr ?e) + unat (val_size ?e)" "unat (val_size ?e) = length val" "unat (key_size ?e) = length key"
    using c frp hf(3) by (simp_all add: placed_def sz)
  have byte: "fdata f' (?off + unat (val_ptr ?e)) \<noteq> 0"
  proof (cases val)
    case Nil
    then have "key \<noteq> []" "hd key \<noteq> 0" using solid by (simp_all add: solid_def)
    moreover have "fget f' (?off + unat (key_ptr ?e)) (length key) = key"
      using ei(2) pt(5) hf(1) by (simp add: rec_key_def)
    ultimately show ?thesis
      using nth_fget [of 0 "length key" f' "?off + unat (key_ptr ?e)"] pt(3,4) Nil by (simp add: hd_conv_nth)
  next
    case (Cons b bs)
    then have "hd val \<noteq> 0" using solid by (simp add: solid_def)
    moreover have "fget f' (?off + unat (val_ptr ?e)) (length val) = val"
      using ei(3) pt(4) hf(1) by (simp add: rec_val_def)
    ultimately show ?thesis
      using nth_fget [of 0 "length val" f' "?off + unat (val_ptr ?e)"] Cons by simp
  qed
  have pos: "0 < length val + length key" using solid by (auto simp: solid_def)
  have ok: "rec_ok f' h' ?e"
    unfolding rec_ok_def rec_end_def using pt byte pos hf(1) frp by simp
  show us: "item_used f' h' n"
  proof -
    have "val_size entity_new = 0" "key_size entity_new = 0" by (simp_all add: entity_new_def)
    then have "?e \<noteq> entity_new" using pt(4,5) pos by auto
    then show ?thesis by (simp add: item_used_ent en)
  qed
  have same: "fdata f' b = fdata f b" if "k < n" "item_used f h k" "b \<in> item_area h k (item_ent f h k)" for k b
  proof -
    have "32 + 80 * k + 80 \<le> unat (lst_itm_ptr h)" using that(1) lip by linarith
    then have "b \<in> sect_alloc h"
      using that(3) r(1) [OF that(1,2)] by (auto simp: item_area_def sect_alloc_def rec_ok_def Let_def)
    then show ?thesis unfolding f'_def by (rule file_after_alloc [OF wf fits])
  qed
  have bytes: "fget f' (?off + 32 + 80 * k) 80 = fget f (?off + 32 + 80 * k) 80" if "k < n" for k
  proof (rule fget_cong)
    fix i assume i: "?off + 32 + 80 * k \<le> i" "i < ?off + 32 + 80 * k + 80"
    have "32 + 80 * k + 80 \<le> unat (lst_itm_ptr h)" using that lip by linarith
    then have "i \<in> sect_alloc h" using i by (auto simp: sect_alloc_def Let_def)
    then show "fdata f' i = fdata f i" unfolding f'_def by (rule file_after_alloc [OF wf fits])
  qed
  show old: "item_ent f' h' k = item_ent f h k" if "k < n" for k
    using bytes [OF that] hf(1) by (simp add: item_ent_def)
  show oldu: "item_used f' h' k \<longleftrightarrow> item_used f h k" if "k < n" for k
    using old [OF that] by (simp add: item_used_ent)
  have up: "unat (fst_rec_ptr h') \<le> unat (fst_rec_ptr h)" using pt(2) by simp
  show "tidy (h', f')"
  proof (rule tidyI [OF n'])
    fix k assume k: "k < Suc n" "item_used f' h' k"
    show "rec_ok f' h' (item_ent f' h' k)"
    proof (cases "k = n")
      case False
      then have k': "k < n" "item_used f h k" using k oldu by simp_all
      have "rec_ok f' h' (item_ent f h k)"
      proof (rule rec_ok_same [OF r(1) [OF k'] _ hf(1) same [OF k']])
        show "unat (fst_rec_ptr h') \<le> unat (val_ptr (item_ent f h k))"
          using r(1) [OF k'] up by (simp add: rec_ok_def)
      qed
      then show ?thesis using old [OF k'(1)] by simp
    qed (use ok en in simp)
  next
    fix k l assume kl: "k < Suc n" "l < k" "item_used f' h' k" "item_used f' h' l"
    have l: "l < n" "item_used f h l" using kl oldu by simp_all
    show "rec_end (item_ent f' h' k) \<le> unat (val_ptr (item_ent f' h' l))"
    proof (cases "k = n")
      case True
      have "rec_end ?e = unat (fst_rec_ptr h)" using pt by (simp add: rec_end_def)
      with True en old [OF l(1)] r(1) [OF l] show ?thesis by (simp add: rec_ok_def)
    next
      case False
      then have "k < n" "item_used f h k" using kl oldu by simp_all
      with r(2) kl(2) l(2) old l(1) show ?thesis by simp
    qed
  qed
qed

text \<open>Rewriting an item in use with the same record.\<close>

lemma tidy_rewrite:
  assumes wf: "sect_wf (h, f)" and t: "tidy (h, f)" and n: "items h n" and m: "m < n" "item_used f h m"
    and e: "key_ptr e = key_ptr (item_ent f h m)" "key_size e = key_size (item_ent f h m)"
      "val_ptr e = val_ptr (item_ent f h m)" "val_size e = val_size (item_ent f h m)"
  defines "f' \<equiv> fput f (unat (file_offset h) + (32 + 80 * m)) (entity_bytes e)"
  shows "tidy (h, f')" "item_ent f' h m = e" "item_used f' h m"
    "\<And>k. k < n \<Longrightarrow> k \<noteq> m \<Longrightarrow> item_ent f' h k = item_ent f h k"
    "\<And>k. k < n \<Longrightarrow> k \<noteq> m \<Longrightarrow> item_used f' h k \<longleftrightarrow> item_used f h k"
proof -
  let ?off = "unat (file_offset h)"
  note r = tidyD [OF t n]
  have rl: "32 + 80 * n \<le> unat (fst_rec_ptr h)" using wf n by (simp add: sect_wf_def items_def)
  have kn: "32 + 80 * k + 80 \<le> 32 + 80 * n" if "k < n" for k using that by linarith
  have out: "fdata f' i = fdata f i" if "i < ?off + 32 + 80 * m \<or> ?off + 32 + 80 * m + 80 \<le> i" for i
    using that by (auto simp: f'_def fdata_fput)
  have "fget f' (?off + 32 + 80 * m) 80 = entity_bytes e"
    by (simp add: f'_def add.assoc)
  then show em: "item_ent f' h m = e" by (rule item_ent_eq)
  show um: "item_used f' h m"
  proof -
    have "val_size entity_new = 0" "key_size entity_new = 0" by (simp_all add: entity_new_def)
    moreover have "unat (val_size e) + unat (key_size e) > 0"
      using r(1) [OF m] unfolding rec_ok_def rec_end_def e by linarith
    ultimately have "e \<noteq> entity_new" by auto
    then show ?thesis by (simp add: item_used_ent em)
  qed
  have bytes: "fget f' (?off + 32 + 80 * k) 80 = fget f (?off + 32 + 80 * k) 80" if "k \<noteq> m" for k
  proof (rule fget_cong, rule out)
    fix i assume i: "?off + 32 + 80 * k \<le> i" "i < ?off + 32 + 80 * k + 80"
    have "80 * k + 80 \<le> 80 * m \<or> 80 * m + 80 \<le> 80 * k" using that by linarith
    with i show "i < ?off + 32 + 80 * m \<or> ?off + 32 + 80 * m + 80 \<le> i" by auto
  qed
  show other: "item_ent f' h k = item_ent f h k" if "k < n" "k \<noteq> m" for k
    using bytes [OF that(2)] by (simp add: item_ent_def)
  show otheru: "item_used f' h k \<longleftrightarrow> item_used f h k" if "k < n" "k \<noteq> m" for k
    using other [OF that] by (simp add: item_used_ent)
  have used: "item_used f h k" if "k < n" "item_used f' h k" for k
    using that otheru [of k] m(2) by (cases "k = m") auto
  have fields: "val_ptr (item_ent f' h k) = val_ptr (item_ent f h k)" "rec_end (item_ent f' h k) = rec_end (item_ent f h k)"
    "key_ptr (item_ent f' h k) = key_ptr (item_ent f h k)" "val_size (item_ent f' h k) = val_size (item_ent f h k)"
    if "k < n" for k
    using e em other [OF that] by (cases "k = m"; simp add: rec_end_def)+
  show "tidy (h, f')"
  proof (rule tidyI [OF n])
    fix k assume k: "k < n" "item_used f' h k"
    have ok: "rec_ok f h (item_ent f h k)" using r(1) [OF k(1) used [OF k]] .
    have "fdata f' (?off + unat (val_ptr (item_ent f h k))) = fdata f (?off + unat (val_ptr (item_ent f h k)))"
      using ok rl kn [OF m(1)] by (intro out disjI2) (simp add: rec_ok_def)
    with ok fields [OF k(1)] show "rec_ok f' h (item_ent f' h k)" by (simp add: rec_ok_def)
  next
    fix k l assume "k < n" "l < k" "item_used f' h k" "item_used f' h l"
    with r(2) [of k l] used fields show "rec_end (item_ent f' h k) \<le> unat (val_ptr (item_ent f' h l))" by simp
  qed
qed

end
