(* ===== verification/Places.thy ===== *)
theory Places
  imports Slots Tidy
begin

text \<open>
  The items in use of all sections of documents, by section and position. \<open>tidy_file\<close> says that all
  sections are tidy; \<open>refs\<close> are the brother and the son an entity links to. Writing a document adds
  items that link among themselves only, each item is linked to at most once, and the root of the document
  not at all (\<open>links_post\<close>): so the items form a forest (\<open>linked\<close>).
\<close>

type_synonym place = "nat \<times> nat"

subsection \<open>Items of a file\<close>

definition tidy_file :: "File \<Rightarrow> bool" where
  "tidy_file F \<longleftrightarrow> (\<forall>h \<in> set (f_extent F). tidy (h, filp F))"

definition used :: "File \<Rightarrow> place set" where
  "used F = {(i, k). i < length (f_extent F) \<and> 32 + 80 * k < unat (lst_itm_ptr (f_extent F ! i)) \<and>
     item_used (filp F) (f_extent F ! i) k}"

definition pent :: "File \<Rightarrow> place \<Rightarrow> Entity" where
  "pent F = (\<lambda>(i, k). item_ent (filp F) (f_extent F ! i) k)"

definition paddr :: "File \<Rightarrow> place \<Rightarrow> Fileoff" where
  "paddr F = (\<lambda>(i, k). slot_addr F i k)"

definition parea :: "File \<Rightarrow> place \<Rightarrow> nat set" where
  "parea F = (\<lambda>(i, k). item_area (f_extent F ! i) k (pent F (i, k)))"

lemma tidy_fileD: "tidy_file F \<Longrightarrow> i < length (f_extent F) \<Longrightarrow> tidy (f_extent F ! i, filp F)"
  by (simp add: tidy_file_def)

lemma used_iff:
  assumes "items (f_extent F ! i) n" "i < length (f_extent F)"
  shows "(i, k) \<in> used F \<longleftrightarrow> k < n \<and> item_used (filp F) (f_extent F ! i) k"
  using assms by (simp add: used_def items_def)

lemma used_items:
  assumes "tidy_file F" "(i, k) \<in> used F"
  shows "i < length (f_extent F)" "\<exists>n. items (f_extent F ! i) n \<and> k < n" "item_used (filp F) (f_extent F ! i) k"
proof -
  show i: "i < length (f_extent F)" "item_used (filp F) (f_extent F ! i) k" using assms(2) by (simp_all add: used_def)
  obtain n where "items (f_extent F ! i) n" using tidy_items [OF tidy_fileD [OF assms(1) i(1)]] by blast
  with assms(2) show "\<exists>n. items (f_extent F ! i) n \<and> k < n" by (auto simp: used_def items_def)
qed

lemma used_bound:
  assumes "file_inv F" "tidy_file F" "(i, k) \<in> used F"
  shows "32 + 80 * k + 80 \<le> 8192"
proof -
  obtain n where n: "items (f_extent F ! i) n" "k < n" and i: "i < length (f_extent F)"
    using used_items [OF assms(2,3)] by blast
  have "sect_wf (f_extent F ! i, filp F)" using file_invD(2) [OF assms(1)] i by simp
  then have "unat (lst_itm_ptr (f_extent F ! i)) \<le> 8192" by (auto simp: sect_wf_def)
  with n show ?thesis unfolding items_def by linarith
qed

lemma finite_used: "finite (used F)"
proof -
  have "used F \<subseteq> (\<Union>i < length (f_extent F). {i} \<times> {..< unat (lst_itm_ptr (f_extent F ! i))})"
    by (auto simp: used_def)
  then show ?thesis by (rule finite_subset) blast
qed

lemma paddr_at:
  assumes inv: "file_inv F" and i: "i < length (f_extent F)" and k: "32 + 80 * k < 8192"
  shows "unat (paddr F (i, k)) = unat (file_offset (f_extent F ! i)) + (32 + 80 * k)"
    "get_sect_ext F (paddr F (i, k)) = Some i"
    "unat (sect_head_get_sectoff (f_extent F ! i) (paddr F (i, k))) = 32 + 80 * k"
    "sect_head_get_sectoff (f_extent F ! i) (paddr F (i, k)) = word_of_nat (32 + 80 * k)"
proof -
  let ?h = "f_extent F ! i"
  have wf: "sect_wf (?h, filp F)" using file_invD(2) [OF inv] i by simp
  have u: "unat (word_of_nat (32 + 80 * k) :: u64) = 32 + 80 * k" using k by (intro unat_of_nat_small) simp
  note a = fileoff_in_sect [OF wf, of "word_of_nat (32 + 80 * k)", unfolded u, OF k]
  show ua: "unat (paddr F (i, k)) = unat (file_offset ?h) + (32 + 80 * k)"
    using a(1) by (simp add: paddr_def slot_addr_def)
  then show "get_sect_ext F (paddr F (i, k)) = Some i"
    using k by (intro get_sect_ext_hit [OF inv i]) simp_all
  show s: "sect_head_get_sectoff ?h (paddr F (i, k)) = word_of_nat (32 + 80 * k)"
    using a(2) by (simp add: paddr_def slot_addr_def)
  show "unat (sect_head_get_sectoff ?h (paddr F (i, k))) = 32 + 80 * k" unfolding s by (rule u)
qed

lemma paddr_used:
  assumes "file_inv F" "tidy_file F" "(i, k) \<in> used F"
  shows "unat (paddr F (i, k)) = unat (file_offset (f_extent F ! i)) + (32 + 80 * k)"
    "get_sect_ext F (paddr F (i, k)) = Some i"
    "unat (sect_head_get_sectoff (f_extent F ! i) (paddr F (i, k))) = 32 + 80 * k"
    "paddr F (i, k) \<noteq> 0"
proof -
  have k: "32 + 80 * k < 8192" using used_bound [OF assms] by simp
  note a = paddr_at [OF assms(1) used_items(1) [OF assms(2,3)] k]
  show u: "unat (paddr F (i, k)) = unat (file_offset (f_extent F ! i)) + (32 + 80 * k)"
    and "get_sect_ext F (paddr F (i, k)) = Some i"
    "unat (sect_head_get_sectoff (f_extent F ! i) (paddr F (i, k))) = 32 + 80 * k"
    using a by blast+
  from u show "paddr F (i, k) \<noteq> 0" by auto
qed

lemma paddr_inj:
  assumes inv: "file_inv F" and t: "tidy_file F" and s: "s \<in> used F" "s' \<in> used F" and eq: "paddr F s = paddr F s'"
  shows "s = s'"
proof -
  obtain i k i' k' where p: "s = (i, k)" "s' = (i', k')" by (cases s; cases s')
  note a = paddr_used [OF inv t s(1) [unfolded p]] and b = paddr_used [OF inv t s(2) [unfolded p]]
  have "i = i'" using a(2) b(2) eq [unfolded p] by (metis option.inject)
  moreover have "unat (file_offset (f_extent F ! i)) + (32 + 80 * k) = unat (file_offset (f_extent F ! i')) + (32 + 80 * k')"
    using a(1) b(1) eq [unfolded p] by metis
  ultimately show ?thesis unfolding p by simp
qed

subsection \<open>Changes of one section\<close>

text \<open>What of a section depends on the bytes it has given away only.\<close>

lemma item_same_bytes:
  assumes same: "\<And>b. b \<in> sect_alloc h \<Longrightarrow> fdata f' b = fdata f b" and k: "items h n" "k < n"
  shows "item_ent f' h k = item_ent f h k" "item_used f' h k \<longleftrightarrow> item_used f h k"
proof -
  have l: "32 + 80 * k + 80 \<le> unat (lst_itm_ptr h)" using k unfolding items_def by linarith
  have "fget f' (unat (file_offset h) + 32 + 80 * k) 80 = fget f (unat (file_offset h) + 32 + 80 * k) 80"
    by (rule fget_cong, rule same) (use l in \<open>auto simp: sect_alloc_def Let_def\<close>)
  then show "item_ent f' h k = item_ent f h k" by (simp add: item_ent_def)
  then show "item_used f' h k \<longleftrightarrow> item_used f h k" by (simp add: item_used_ent)
qed

lemma tidy_same_bytes:
  assumes t: "tidy (h, f)" and same: "\<And>b. b \<in> sect_alloc h \<Longrightarrow> fdata f' b = fdata f b"
  shows "tidy (h, f')"
proof -
  obtain n where n: "items h n" using tidy_items [OF t] by blast
  note r = tidyD [OF t n]
  have it: "item_ent f' h k = item_ent f h k" "item_used f' h k \<longleftrightarrow> item_used f h k" if "k < n" for k
    using item_same_bytes [of h f' f n k, OF same n that] by blast+
  have "fdata f' (unat (file_offset h) + unat (val_ptr e)) = fdata f (unat (file_offset h) + unat (val_ptr e))"
    if "rec_ok f h e" for e
    using that by (intro same) (simp add: rec_ok_def sect_alloc_def Let_def)
  then have ok: "rec_ok f' h e" if "rec_ok f h e" for e using that by (simp add: rec_ok_def)
  show ?thesis using n by (rule tidyI) (use r ok it in simp_all)
qed

text \<open>Sections that were there keep their headers and their bytes; others may be added.\<close>

lemma same_sects:
  assumes t: "tidy_file F" and l: "length (f_extent F) \<le> length (f_extent F')"
    and h: "\<And>i. i < length (f_extent F) \<Longrightarrow> f_extent F' ! i = f_extent F ! i"
    and same: "\<And>b. b \<in> ext_alloc F \<Longrightarrow> fdata (filp F') b = fdata (filp F) b" and i: "i < length (f_extent F)"
  shows "tidy (f_extent F' ! i, filp F')" "(i, k) \<in> used F' \<longleftrightarrow> (i, k) \<in> used F"
    "(i, k) \<in> used F \<Longrightarrow> pent F' (i, k) = pent F (i, k)" "paddr F' (i, k) = paddr F (i, k)"
proof -
  have b: "fdata (filp F') b = fdata (filp F) b" if "b \<in> sect_alloc (f_extent F ! i)" for b
    using that i by (intro same) (auto simp: ext_alloc_def)
  show "tidy (f_extent F' ! i, filp F')"
    unfolding h [OF i] by (rule tidy_same_bytes [OF tidy_fileD [OF t i] b])
  obtain n where n: "items (f_extent F ! i) n" using tidy_items [OF tidy_fileD [OF t i]] by blast
  note it = item_same_bytes [of "f_extent F ! i" "filp F'" "filp F" n k, OF b n]
  have i': "i < length (f_extent F')" using i l by simp
  have n': "items (f_extent F' ! i) n" using n h [OF i] by simp
  show u: "(i, k) \<in> used F' \<longleftrightarrow> (i, k) \<in> used F"
    unfolding used_iff [OF n i] used_iff [OF n' i'] using it(2) h [OF i] by auto
  show "pent F' (i, k) = pent F (i, k)" if "(i, k) \<in> used F"
    using that it(1) h [OF i] unfolding used_iff [OF n i] by (simp add: pent_def)
  show "paddr F' (i, k) = paddr F (i, k)" using h [OF i] by (simp add: paddr_def slot_addr_def)
qed

definition with_sect :: "File \<Rightarrow> nat \<Rightarrow> sect \<Rightarrow> File" where
  "with_sect F i = (\<lambda>(h', f'). F\<lparr>filp := f', f_extent := (f_extent F)[i := h']\<rparr>)"

lemma with_sect_fields [simp]:
  "filp (with_sect F i (h', f')) = f'" "f_extent (with_sect F i (h', f')) = (f_extent F)[i := h']"
  "f_types (with_sect F i s) = f_types F" "lst_sect_ptr (with_sect F i s) = lst_sect_ptr F"
  by (simp_all add: with_sect_def split: prod.split)

lemma with_sect_others:
  assumes inv: "file_inv F" and t: "tidy_file F" and i: "i < length (f_extent F)"
    and st: "sect_step (f_extent F ! i, filp F) (h', f')" and t': "tidy (h', f')"
  defines "F' \<equiv> with_sect F i (h', f')"
  shows "file_inv F'" "tidy_file F'" "\<And>j k. j \<noteq> i \<Longrightarrow> (j, k) \<in> used F' \<longleftrightarrow> (j, k) \<in> used F"
    "\<And>j k. j \<noteq> i \<Longrightarrow> (j, k) \<in> used F \<Longrightarrow> pent F' (j, k) = pent F (j, k)"
    "\<And>s. fst s < length (f_extent F) \<Longrightarrow> paddr F' s = paddr F s"
    "\<And>j b. j < length (f_extent F) \<Longrightarrow> j \<noteq> i \<Longrightarrow> b \<in> sect_bytes (f_extent F ! j) \<Longrightarrow> fdata f' b = fdata (filp F) b"
proof -
  note s = sect_stepD [OF st]
  have other: "fdata f' b = fdata (filp F) b"
    if "j < length (f_extent F)" "j \<noteq> i" "unat (file_offset (f_extent F ! j)) \<le> b" "b < unat (file_offset (f_extent F ! j)) + 8192" for j b
  proof (rule s(5))
    have "apart (unat (file_offset (f_extent F ! j))) (unat (file_offset (f_extent F ! i)))"
      using sects_apart [OF inv, of j i] that(1,2) i by (simp add: sects_def nth_append)
    with that(3,4) show "b < unat (file_offset (f_extent F ! i)) \<or> unat (file_offset (f_extent F ! i)) + 8192 \<le> b"
      unfolding apart_def by linarith
  qed
  have alloc: "fdata f' b = fdata (filp F) b"
    if "j < length (f_extent F)" "j \<noteq> i" "b \<in> sect_alloc (f_extent F ! j)" for j b
  proof -
    have "sect_wf (f_extent F ! j, filp F)" using file_invD(2) [OF inv] that(1) by simp
    from sect_alloc_bytes [OF this] that other [OF that(1,2)] show ?thesis by (auto simp: sect_bytes_def)
  qed
  show "file_inv F'" unfolding F'_def with_sect_def prod.case by (rule file_inv_ext [OF inv i st])
  show "tidy_file F'"
    unfolding tidy_file_def
  proof
    fix g assume "g \<in> set (f_extent F')"
    then obtain j where j: "j < length (f_extent F)" "g = (f_extent F)[i := h'] ! j"
      by (auto simp: F'_def in_set_conv_nth)
    show "tidy (g, filp F')"
    proof (cases "j = i")
      case True
      then show ?thesis using t' j i by (simp add: F'_def)
    next
      case False
      have "tidy (f_extent F ! j, f')"
        using tidy_fileD [OF t j(1)] alloc [OF j(1) False] by (rule tidy_same_bytes)
      then show ?thesis using j False by (simp add: F'_def)
    qed
  qed
  have same: "item_ent f' (f_extent F ! j) k = item_ent (filp F) (f_extent F ! j) k \<and>
      (item_used f' (f_extent F ! j) k \<longleftrightarrow> item_used (filp F) (f_extent F ! j) k)"
    if j: "j < length (f_extent F)" "j \<noteq> i" "32 + 80 * k < unat (lst_itm_ptr (f_extent F ! j))" for j k
  proof -
    obtain n where n: "items (f_extent F ! j) n" using tidy_items [OF tidy_fileD [OF t j(1)]] by blast
    have "k < n" using j(3) n by (simp add: items_def)
    from item_same_bytes [OF alloc [OF j(1,2)] n this] show ?thesis by blast
  qed
  show "(j, k) \<in> used F' \<longleftrightarrow> (j, k) \<in> used F" if "j \<noteq> i" for j k
    using same [of j k] that by (auto simp: used_def F'_def)
  show "pent F' (j, k) = pent F (j, k)" if "j \<noteq> i" "(j, k) \<in> used F" for j k
    using same [of j k] that by (simp add: used_def F'_def pent_def)
  show "paddr F' s = paddr F s" if "fst s < length (f_extent F)" for s
    using that s(2) i
    by (cases "fst s = i") (auto simp: paddr_def slot_addr_def sect_head_get_fileoff_def F'_def split: prod.split)
  show "fdata f' b = fdata (filp F) b"
    if "j < length (f_extent F)" "j \<noteq> i" "b \<in> sect_bytes (f_extent F ! j)" for j b
    using other [OF that(1,2)] that(3) by (simp add: sect_bytes_def)
qed

subsection \<open>Links\<close>

definition refs :: "Entity \<Rightarrow> Fileoff set" where
  "refs e = {bro_ptr (fam_addr e), son_ptr (fam_addr e)} - {0}"

definition once :: "Entity \<Rightarrow> bool" where
  "once e \<longleftrightarrow> (bro_ptr (fam_addr e) = son_ptr (fam_addr e) \<longrightarrow> bro_ptr (fam_addr e) = 0)"

text \<open>
  The items \<open>N\<close> link among themselves, each is linked to at most once, those at \<open>R\<close> not at all, and
  only those at \<open>T\<close> have a type.
\<close>

definition forest :: "File \<Rightarrow> place set \<Rightarrow> Fileoff set \<Rightarrow> Fileoff set \<Rightarrow> bool" where
  "forest F N R T \<longleftrightarrow> R \<subseteq> paddr F ` N \<and> T \<subseteq> R \<and>
     (\<forall>s \<in> N. refs (pent F s) \<subseteq> paddr F ` N - R \<and> once (pent F s) \<and>
        (type_ptr (pent F s) \<noteq> 0 \<longrightarrow> paddr F s \<in> T)) \<and>
     (\<forall>s \<in> N. \<forall>t \<in> N. s \<noteq> t \<longrightarrow> refs (pent F s) \<inter> refs (pent F t) = {})"

lemma forestD:
  assumes "forest F N R T"
  shows "R \<subseteq> paddr F ` N" "T \<subseteq> R" "s \<in> N \<Longrightarrow> refs (pent F s) \<subseteq> paddr F ` N - R" "s \<in> N \<Longrightarrow> once (pent F s)"
    "s \<in> N \<Longrightarrow> type_ptr (pent F s) \<noteq> 0 \<Longrightarrow> paddr F s \<in> T"
    "s \<in> N \<Longrightarrow> t \<in> N \<Longrightarrow> s \<noteq> t \<Longrightarrow> refs (pent F s) \<inter> refs (pent F t) = {}"
  using assms unfolding forest_def by blast+

lemma forestI:
  assumes "R \<subseteq> paddr F ` N" "T \<subseteq> R" "\<And>s. s \<in> N \<Longrightarrow> refs (pent F s) \<subseteq> paddr F ` N - R" "\<And>s. s \<in> N \<Longrightarrow> once (pent F s)"
    "\<And>s. s \<in> N \<Longrightarrow> type_ptr (pent F s) \<noteq> 0 \<Longrightarrow> paddr F s \<in> T"
    "\<And>s t. s \<in> N \<Longrightarrow> t \<in> N \<Longrightarrow> s \<noteq> t \<Longrightarrow> refs (pent F s) \<inter> refs (pent F t) = {}"
  shows "forest F N R T"
  using assms by (simp add: forest_def)

lemma forest_empty: "forest F {} {} {}"
  by (simp add: forest_def)

lemma forest_same:
  assumes "forest F N R T" "\<And>s. s \<in> N \<Longrightarrow> pent F' s = pent F s" "\<And>s. s \<in> N \<Longrightarrow> paddr F' s = paddr F s"
  shows "forest F' N R T"
proof -
  have "paddr F' ` N = paddr F ` N" using assms(3) by (rule image_cong [OF refl])
  with assms show ?thesis by (simp add: forest_def)
qed

lemma forest_Un:
  assumes "forest F N R T" "forest F M S U" and apart: "paddr F ` N \<inter> paddr F ` M = {}"
  shows "forest F (N \<union> M) (R \<union> S) (T \<union> U)"
proof -
  note a = forestD [OF assms(1)] and b = forestD [OF assms(2)]
  have n: "refs (pent F s) \<subseteq> paddr F ` (N \<union> M) - (R \<union> S)" if "s \<in> N" for s
    using a(3) [OF that] b(1) apart by blast
  have m: "refs (pent F s) \<subseteq> paddr F ` (N \<union> M) - (R \<union> S)" if "s \<in> M" for s
    using b(3) [OF that] a(1) apart by blast
  have nm: "refs (pent F s) \<inter> refs (pent F t) = {}" if "s \<in> N" "t \<in> M" for s t
    using a(3) [OF that(1)] b(3) [OF that(2)] apart by blast
  have d: "refs (pent F s) \<inter> refs (pent F t) = {}" if "s \<in> N \<union> M" "t \<in> N \<union> M" "s \<noteq> t" for s t
  proof (cases "s \<in> N")
    case True
    then show ?thesis using a(6) nm that by blast
  next
    case False
    then have "s \<in> M" using that(1) by blast
    then show ?thesis using b(6) nm [of t s] that by blast
  qed
  show ?thesis
  proof (rule forestI)
    show "R \<union> S \<subseteq> paddr F ` (N \<union> M)" "T \<union> U \<subseteq> R \<union> S" using a(1,2) b(1,2) by blast+
    show "refs (pent F s) \<subseteq> paddr F ` (N \<union> M) - (R \<union> S)" if "s \<in> N \<union> M" for s
      using that by (rule UnE) (rule n, assumption, rule m, assumption)
    show "once (pent F s)" if "s \<in> N \<union> M" for s using that a(4) b(4) by blast
    show "paddr F s \<in> T \<union> U" if "s \<in> N \<union> M" "type_ptr (pent F s) \<noteq> 0" for s using that a(5) b(5) by blast
    show "refs (pent F s) \<inter> refs (pent F t) = {}" if "s \<in> N \<union> M" "t \<in> N \<union> M" "s \<noteq> t" for s t
      by (rule d [OF that])
  qed
qed

text \<open>A new item without links, and an item that receives links to unlinked items without a type.\<close>

lemma forest_single:
  assumes "refs (pent F s) = {}" "once (pent F s)"
  shows "forest F {s} {paddr F s} {a. a = paddr F s \<and> type_ptr (pent F s) \<noteq> 0}"
  using assms by (auto simp: forest_def)

lemma forest_link:
  assumes f: "forest F N (insert (paddr F s) L) T" and s: "s \<in> N" "refs (pent F s) = {}" and inj: "inj_on (paddr F) N"
    and T: "T \<subseteq> {paddr F s}" and n: "paddr F s \<notin> L"
    and F': "\<And>t. t \<in> N \<Longrightarrow> paddr F' t = paddr F t" "\<And>t. t \<in> N \<Longrightarrow> t \<noteq> s \<Longrightarrow> pent F' t = pent F t"
    and e: "refs (pent F' s) = L" "once (pent F' s)" "type_ptr (pent F' s) = type_ptr (pent F s)"
  shows "forest F' N {paddr F s} T"
proof -
  note a = forestD [OF f]
  have im: "paddr F' ` N = paddr F ` N" using F'(1) by (rule image_cong [OF refl])
  have r: "refs (pent F' t) \<subseteq> paddr F ` N - {paddr F s}" if "t \<in> N" for t
    using a(1) a(3) [OF that] n e(1) F'(2) [OF that] by (cases "t = s") auto
  have d: "refs (pent F' t) \<inter> refs (pent F' u) = {}" if "t \<in> N" "u \<in> N" "t \<noteq> u" for t u
  proof -
    have L: "refs (pent F x) \<inter> L = {}" if "x \<in> N" for x using a(3) [OF that] by blast
    show ?thesis
    proof (cases "t = s")
      case True
      then show ?thesis using L [OF that(2)] e(1) F'(2) [OF that(2)] that(3) by auto
    next
      case False
      note t = F'(2) [OF that(1) False]
      show ?thesis
      proof (cases "u = s")
        case True
        then show ?thesis using L [OF that(1)] e(1) t by auto
      next
        case False
        then show ?thesis using a(6) [OF that] F'(2) [OF that(2) False] t by simp
      qed
    qed
  qed
  have o: "once (pent F' t)" "type_ptr (pent F' t) \<noteq> 0 \<Longrightarrow> paddr F' t \<in> T" if "t \<in> N" for t
    using a(4,5) [OF that] e(2,3) F' that s(1) by (cases "t = s"; simp)+
  show ?thesis
    by (rule forestI) (use s(1) F'(1) [OF s(1)] T r o d im in auto)
qed

text \<open>All items of the file form a forest without links to items with types.\<close>

definition linked :: "File \<Rightarrow> bool" where
  "linked F \<longleftrightarrow> (\<exists>R T. forest F (used F) R T)"

text \<open>What an operation that only adds items does to them.\<close>

definition links_post :: "Fileoff set \<Rightarrow> Fileoff set \<Rightarrow> File \<Rightarrow> File \<Rightarrow> bool" where
  "links_post R T F F' \<longleftrightarrow> used F \<subseteq> used F' \<and>
     (\<forall>s \<in> used F. pent F' s = pent F s \<and> paddr F' s = paddr F s) \<and> forest F' (used F' - used F) R T"

lemma links_post_refl: "links_post {} {} F F"
  by (simp add: links_post_def forest_empty)

lemma links_postD:
  assumes "links_post R T F F'"
  shows "used F \<subseteq> used F'" "s \<in> used F \<Longrightarrow> pent F' s = pent F s" "s \<in> used F \<Longrightarrow> paddr F' s = paddr F s"
    "forest F' (used F' - used F) R T"
  using assms unfolding links_post_def by blast+

lemma disjoint_addrs:
  assumes "file_inv F" "tidy_file F" "N \<subseteq> used F" "M \<subseteq> used F" "N \<inter> M = {}"
  shows "paddr F ` N \<inter> paddr F ` M = {}"
proof -
  have "s = t" if "s \<in> N" "t \<in> M" "paddr F s = paddr F t" for s t
    using paddr_inj [OF assms(1,2), of s t] that assms(3,4) by blast
  with assms(5) show ?thesis by blast
qed

lemma links_post_trans:
  assumes a: "links_post R T F F1" and b: "links_post S U F1 F2" and inv: "file_inv F2" "tidy_file F2"
  shows "links_post (R \<union> S) (T \<union> U) F F2"
proof -
  note p = links_postD [OF a] and q = links_postD [OF b]
  have new: "used F2 - used F = (used F1 - used F) \<union> (used F2 - used F1)" using p(1) q(1) by blast
  have "forest F2 (used F1 - used F) R T"
    using p(4) by (rule forest_same) (use q(2,3) in blast)+
  moreover have "paddr F2 ` (used F1 - used F) \<inter> paddr F2 ` (used F2 - used F1) = {}"
    using q(1) by (intro disjoint_addrs [OF inv]) blast+
  ultimately have "forest F2 (used F2 - used F) (R \<union> S) (T \<union> U)"
    unfolding new using q(4) by (intro forest_Un)
  moreover have "pent F2 s = pent F s \<and> paddr F2 s = paddr F s" if "s \<in> used F" for s
    using that p(1) p(2,3) [OF that] q(2,3) [of s] by auto
  ultimately show ?thesis using p(1) q(1) unfolding links_post_def by blast
qed

lemma linked_post:
  assumes l: "linked F" and p: "links_post R T F F'" and inv: "file_inv F'" "tidy_file F'"
  shows "linked F'"
proof -
  obtain R0 T0 where f: "forest F (used F) R0 T0" using l by (auto simp: linked_def)
  note q = links_postD [OF p]
  have "forest F' (used F) R0 T0" using f q(2,3) by (rule forest_same)
  moreover have "paddr F' ` used F \<inter> paddr F' ` (used F' - used F) = {}"
    using q(1) by (intro disjoint_addrs [OF inv]) blast+
  ultimately have "forest F' (used F \<union> (used F' - used F)) (R0 \<union> R) (T0 \<union> T)" using q(4) by (intro forest_Un)
  moreover have "used F \<union> (used F' - used F) = used F'" using q(1) by blast
  ultimately show ?thesis unfolding linked_def by auto
qed

subsection \<open>Writing one item\<close>

lemma ext_after_places:
  assumes inv: "file_inv F" and t: "tidy_file F" and i: "i < length (f_extent F)" and fits: "fits (f_extent F ! i) key val"
    and sz: "key_size ent = cnt key" "val_size ent = cnt val" and solid: "solid val key"
  defines "F' \<equiv> ext_after F i key val ent"
  shows "tidy_file F' \<and> (\<exists>k. unat (lst_itm_ptr (f_extent F ! i)) = 32 + 80 * k \<and> (i, k) \<notin> used F \<and>
    used F' = insert (i, k) (used F) \<and> pent F' (i, k) = placed (f_extent F ! i) key val ent \<and>
    (\<forall>s \<in> used F. pent F' s = pent F s \<and> paddr F' s = paddr F s))"
proof -
  let ?h = "f_extent F ! i"
  have wf: "sect_wf (?h, filp F)" using file_invD(2) [OF inv] i by simp
  have ti: "tidy (?h, filp F)" using t i by (rule tidy_fileD)
  obtain n where n: "items ?h n" using tidy_items [OF ti] by blast
  note w = tidy_write [OF wf ti n fits sz solid] and st = sect_step_after [OF wf fits, of ent]
  have F': "F' = with_sect F i (head_after ?h key val, file_after ?h (filp F) key val ent)"
    by (simp add: F'_def ext_after_def with_sect_def)
  note o = with_sect_others [OF inv t i st w(1), folded F']
  have u: "(i, k) \<in> used F' \<longleftrightarrow> k = n \<or> (i, k) \<in> used F" for k
  proof -
    have n': "items (f_extent F' ! i) (Suc n)" and i': "i < length (f_extent F')" using w(2) i by (simp_all add: F')
    show ?thesis
      unfolding used_iff [OF n i] used_iff [OF n' i'] using w(4,6) i by (auto simp: F' less_Suc_eq)
  qed
  have "used F' = insert (i, n) (used F)"
  proof (rule set_eqI)
    fix s show "s \<in> used F' \<longleftrightarrow> s \<in> insert (i, n) (used F)"
      using u o(3) by (cases s; cases "fst s = i") auto
  qed
  moreover have "(i, n) \<notin> used F" by (simp add: used_iff [OF n i])
  moreover have "pent F' (i, n) = placed ?h key val ent" using w(3) i by (simp add: F' pent_def)
  moreover have "pent F' s = pent F s" if "s \<in> used F" for s
  proof (cases "fst s = i")
    case True
    then obtain k where s: "s = (i, k)" by (cases s) simp
    then have "k < n" using that by (simp add: used_iff [OF n i])
    with w(5) i show ?thesis by (simp add: F' pent_def s)
  next
    case False
    then show ?thesis using o(4) that by (cases s) simp
  qed
  moreover have "paddr F' s = paddr F s" if "s \<in> used F" for s
    using that by (intro o(5)) (auto simp: used_def)
  ultimately show ?thesis using o(2) n unfolding items_def by blast
qed

lemma add_ext_places:
  assumes inv: "file_inv F" and room: "room_for_sect F" and t: "tidy_file F"
  shows "tidy_file (add_ext F)" "used (add_ext F) = used F"
    "s \<in> used F \<Longrightarrow> pent (add_ext F) s = pent F s \<and> paddr (add_ext F) s = paddr F s"
proof -
  have l: "length (f_extent F) \<le> length (f_extent (add_ext F))" by (simp add: add_ext_def)
  have h: "f_extent (add_ext F) ! i = f_extent F ! i" if "i < length (f_extent F)" for i
    using that by (simp add: add_ext_def nth_append)
  have b: "fdata (filp (add_ext F)) b = fdata (filp F) b" if "b \<in> ext_alloc F" for b
    using that add_ext_extends(1) [OF inv room] by (auto simp: extends_def protected_def)
  note s = same_sects [OF t l h b]
  have fr: "items (fresh_head (lst_sect_ptr F)) 0" by (simp add: items_def fresh_head_def)
  then have "tidy (fresh_head (lst_sect_ptr F), added_filp F)" by (rule tidyI) simp_all
  then show "tidy_file (add_ext F)"
    unfolding tidy_file_def using s(1) by (auto simp: add_ext_def in_set_conv_nth nth_append less_Suc_eq)
  have new: "(length (f_extent F), k) \<notin> used (add_ext F)" for k
    by (simp add: used_def add_ext_def fresh_head_def)
  have "(i, k) \<in> used (add_ext F) \<longleftrightarrow> (i, k) \<in> used F" for i k
  proof (cases "i < length (f_extent F)")
    case True
    then show ?thesis using s(2) by blast
  next
    case False
    then have "(i, k) \<notin> used F" by (simp add: used_def)
    moreover have "i < Suc (length (f_extent F))" if "(i, k) \<in> used (add_ext F)" using that by (simp add: used_def add_ext_def)
    ultimately show ?thesis using False new [of k] by (cases "i = length (f_extent F)") auto
  qed
  then show "used (add_ext F) = used F" by auto
  show "pent (add_ext F) s = pent F s \<and> paddr (add_ext F) s = paddr F s" if "s \<in> used F"
    using that same_sects(3,4) [OF t l h b] by (cases s) (simp add: used_def)
qed

lemma place_entity_places:
  assumes inv: "file_inv F" and t: "tidy_file F" and room: "room_for_sect F" and len: "length key + length val \<le> 8080"
    and sz: "key_size ent = cnt key" "val_size ent = cnt val" and solid: "solid val key"
    and p: "place_entity key val ent F = Some (Some (i, e, soff), F')"
  shows "tidy_file F' \<and> (\<exists>k. unat soff = 32 + 80 * k \<and> (i, k) \<notin> used F \<and> used F' = insert (i, k) (used F) \<and>
    pent F' (i, k) = e \<and> (\<forall>s \<in> used F. pent F' s = pent F s \<and> paddr F' s = paddr F s))"
proof -
  have l: "length key + length val + 80 < 18446744073709551616" using len by simp
  consider (hit) m where "m < length (f_extent F)" "fits (f_extent F ! m) key val"
      "write_in [0..<length (f_extent F)] key val ent F =
        Some (Some (Some (m, placed (f_extent F ! m) key val ent, lst_itm_ptr (f_extent F ! m))), ext_after F m key val ent)"
    | (new) "write_in [0..<length (f_extent F)] key val ent F = Some (Some None, F)"
    using write_in_cases [OF inv l, of "[0..<length (f_extent F)]" ent] by auto
  then show ?thesis
  proof cases
    case hit
    have "place_entity key val ent F =
        Some (Some (m, placed (f_extent F ! m) key val ent, lst_itm_ptr (f_extent F ! m)), ext_after F m key val ent)"
      using hit(3) by (simp add: place_entity_def)
    from trans [OF p [symmetric] this] have eq: "F' = ext_after F m key val ent" "i = m" "e = placed (f_extent F ! m) key val ent"
        "soff = lst_itm_ptr (f_extent F ! m)"
      by auto
    show ?thesis unfolding eq by (rule ext_after_places [OF inv t hit(1,2) sz solid])
  next
    case new
    let ?G = "add_ext F" and ?n = "length (f_extent F)"
    note g = add_ext_inv [OF inv room] and a = add_ext_places [OF inv room t]
    have n: "?n < length (f_extent ?G)" by (simp add: add_ext_def)
    have fits: "fits (f_extent ?G ! ?n) key val"
      using len by (simp add: add_ext_def fits_def fresh_head_def)
    have "place_entity key val ent F = Some (Some (?n, placed (f_extent ?G ! ?n) key val ent,
        lst_itm_ptr (f_extent ?G ! ?n)), ext_after ?G ?n key val ent)"
      using new on_ext_write(2) [OF g n l fits, of ent] file_add_sect_ext_ok [OF inv room]
      by (simp add: place_entity_def)
    from trans [OF p [symmetric] this] have eq: "F' = ext_after ?G ?n key val ent" "i = ?n" "e = placed (f_extent ?G ! ?n) key val ent"
        "soff = lst_itm_ptr (f_extent ?G ! ?n)"
      by simp_all
    have "tidy_file F' \<and> (\<exists>k. unat soff = 32 + 80 * k \<and> (i, k) \<notin> used ?G \<and> used F' = insert (i, k) (used ?G) \<and>
        pent F' (i, k) = e \<and> (\<forall>s \<in> used ?G. pent F' s = pent ?G s \<and> paddr F' s = paddr ?G s))"
      unfolding eq by (rule ext_after_places [OF g a(1) n fits sz solid])
    then show ?thesis unfolding a(2) using a(3) by auto
  qed
qed

lemma rewrite_places:
  assumes inv: "file_inv F" and t: "tidy_file F" and s: "(i, k) \<in> used F" and soff: "unat (soff :: Sectoff) = 32 + 80 * k"
    and e: "key_ptr e = key_ptr (pent F (i, k))" "key_size e = key_size (pent F (i, k))"
      "val_ptr e = val_ptr (pent F (i, k))" "val_size e = val_size (pent F (i, k))"
  defines "F' \<equiv> F\<lparr>filp := fput (filp F) (unat (file_offset (f_extent F ! i)) + unat soff) (entity_bytes e)\<rparr>"
  shows "tidy_file F'" "used F' = used F" "pent F' (i, k) = e" "\<And>s. paddr F' s = paddr F s"
    "\<And>s. s \<in> used F \<Longrightarrow> s \<noteq> (i, k) \<Longrightarrow> pent F' s = pent F s"
proof -
  let ?h = "f_extent F ! i" and ?f' = "fput (filp F) (unat (file_offset (f_extent F ! i)) + (32 + 80 * k)) (entity_bytes e)"
  note u = used_items [OF t s]
  obtain n where n: "items ?h n" "k < n" using u(2) by blast
  have wf: "sect_wf (?h, filp F)" using file_invD(2) [OF inv] u(1) by simp
  have ti: "tidy (?h, filp F)" using t u(1) by (rule tidy_fileD)
  note w = tidy_rewrite [OF wf ti n u(3) e [unfolded pent_def prod.case]]
  have "32 + 80 * k + 80 \<le> unat (lst_itm_ptr ?h)" using n unfolding items_def by linarith
  then have st: "sect_step (?h, filp F) (?h, ?f')"
    using sect_ext_wrt_itm_ok(2) [OF wf, of soff e] by (simp add: soff)
  have F': "F' = with_sect F i (?h, ?f')" by (simp add: F'_def with_sect_def soff)
  note o = with_sect_others [OF inv t u(1) st w(1), folded F']
  show "tidy_file F'" by (rule o(2))
  show "paddr F' s = paddr F s" for s by (simp add: F'_def paddr_def slot_addr_def split: prod.split)
  show "pent F' (i, k) = e" using w(2) by (simp add: F' pent_def)
  have i': "items (f_extent F' ! i) n" "u < length (f_extent F') \<longleftrightarrow> u < length (f_extent F)" for u
    using n(1) by (simp_all add: F'_def)
  have same: "(i, l) \<in> used F' \<longleftrightarrow> (i, l) \<in> used F" for l
    using w(3,5) u(1,3) i'(2) [of i] unfolding used_iff [OF n(1) u(1)] used_iff [OF i'(1) i'(2) [THEN iffD2, OF u(1)]]
    by (cases "l = k") (auto simp: F')
  show "used F' = used F"
  proof (rule set_eqI)
    fix s show "s \<in> used F' \<longleftrightarrow> s \<in> used F" using same o(3) by (cases s; cases "fst s = i") auto
  qed
  show "pent F' s = pent F s" if "s \<in> used F" "s \<noteq> (i, k)" for s
  proof (cases "fst s = i")
    case True
    then obtain l where l: "s = (i, l)" by (cases s) simp
    then have "l < n" "l \<noteq> k" using that by (simp_all add: used_iff [OF n(1) u(1)])
    with w(4) show ?thesis by (simp add: F' pent_def l)
  next
    case False
    then show ?thesis using o(4) that(1) by (cases s) simp
  qed
qed

subsection \<open>Writing a document\<close>

text \<open>A document whose records all begin with a byte other than zero.\<close>

fun solid_doc :: "Json \<Rightarrow> bool" where
  "solid_doc (Json k v t b s n a) \<longleftrightarrow> solid (val_bytes t v) k \<and>
     (case b of None \<Rightarrow> True | Some y \<Rightarrow> solid_doc y) \<and> (case s of None \<Rightarrow> True | Some y \<Rightarrow> solid_doc y)"

text \<open>What writing promises on tidy files, for solid documents.\<close>

definition write_links :: "bool \<Rightarrow> Fileoff set \<Rightarrow> Fileoff set \<Rightarrow> File \<Rightarrow> File \<Rightarrow> bool" where
  "write_links c R T F F' \<longleftrightarrow> (c \<longrightarrow> tidy_file F \<longrightarrow> tidy_file F' \<and> links_post R T F F')"

text \<open>An entity without links has been placed.\<close>

definition placed_at :: "nat \<Rightarrow> nat \<Rightarrow> Entity \<Rightarrow> File \<Rightarrow> File \<Rightarrow> bool" where
  "placed_at i k e F F1 \<longleftrightarrow> (i, k) \<notin> used F \<and> used F1 = insert (i, k) (used F) \<and> pent F1 (i, k) = e \<and>
     (\<forall>s \<in> used F. pent F1 s = pent F s \<and> paddr F1 s = paddr F s)"

lemma placed_links:
  assumes p: "placed_at i k e F F1" and e: "bro_ptr (fam_addr e) = 0" "son_ptr (fam_addr e) = 0"
  shows "links_post {paddr F1 (i, k)} {a. a = paddr F1 (i, k) \<and> type_ptr e \<noteq> 0} F F1"
proof -
  have pe: "pent F1 (i, k) = e" and new: "used F1 - used F = {(i, k)}" "used F \<subseteq> used F1"
    using p by (auto simp: placed_at_def)
  have "refs (pent F1 (i, k)) = {}" "once (pent F1 (i, k))" using e by (simp_all add: pe refs_def once_def)
  then have "forest F1 {(i, k)} {paddr F1 (i, k)} {a. a = paddr F1 (i, k) \<and> type_ptr e \<noteq> 0}"
    using forest_single [of F1 "(i, k)"] by (simp add: pe)
  with new p show ?thesis by (simp add: links_post_def placed_at_def)
qed

lemma node_links:
  assumes inv: "file_inv F3" "tidy_file F3" and inv2: "file_inv F2" "tidy_file F2" and p: "placed_at i k e F F1"
    and e: "bro_ptr (fam_addr e) = 0" "son_ptr (fam_addr e) = 0"
    and lb: "links_post ({bro} - {0}) {} F1 F2" and ls: "links_post ({son} - {0}) {} F2 F3"
    and soff: "unat (soff :: Sectoff) = 32 + 80 * k"
    and F4: "F4 = F3\<lparr>filp := fput (filp F3) (unat (file_offset (f_extent F3 ! i)) + unat soff) (entity_bytes (with_bro_son e bro son))\<rparr>"
  shows "tidy_file F4 \<and> links_post {paddr F1 (i, k)} {a. a = paddr F1 (i, k) \<and> type_ptr e \<noteq> 0} F F4"
proof -
  let ?s = "(i, k)" and ?a = "paddr F1 (i, k)" and ?e = "with_bro_son e bro son" and ?N = "used F3 - used F"
  let ?L = "({bro} - {0}) \<union> ({son} - {0})" and ?T = "{a. a = paddr F1 (i, k) \<and> type_ptr e \<noteq> 0}"
  note b = links_postD [OF lb] and s = links_postD [OF ls]
  have pl: "?s \<notin> used F" "?s \<in> used F1" "pent F1 ?s = e" using p by (simp_all add: placed_at_def)
  have l3: "links_post ({?a} \<union> ({bro} - {0}) \<union> ({son} - {0})) ?T F F3"
    using links_post_trans [OF links_post_trans [OF placed_links [OF p e] lb inv2] ls inv] by simp
  note q = links_postD [OF l3]
  have at2: "?s \<in> used F2" "paddr F2 ?s = ?a" "pent F2 ?s = e" using b(1) b(2,3) [OF pl(2)] pl by auto
  have at3: "?s \<in> used F3" "paddr F3 ?s = ?a" "pent F3 ?s = e" using s(1) s(2,3) [OF at2(1)] at2 by auto
  have bro: "\<exists>u \<in> used F3. u \<noteq> ?s \<and> u \<in> used F2 \<and> paddr F3 u = bro" if nz: "bro \<noteq> 0"
  proof -
    obtain u where u: "u \<in> used F2" "u \<notin> used F1" "paddr F2 u = bro"
      using forestD(1) [OF b(4)] nz by auto
    then have "u \<in> used F3" "u \<noteq> ?s" "paddr F3 u = bro" using s(1) s(3) [OF u(1)] pl(2) by auto
    with u(1) show ?thesis by blast
  qed
  have son: "\<exists>u \<in> used F3. u \<noteq> ?s \<and> u \<notin> used F2 \<and> paddr F3 u = son" if "son \<noteq> 0"
    using forestD(1) [OF s(4)] that at2(1) by auto
  have bs: "bro \<noteq> son" if "bro \<noteq> 0" "son \<noteq> 0"
    using bro [OF that(1)] son [OF that(2)] paddr_inj [OF inv] by metis
  have na: "?a \<notin> ?L"
    using bro son paddr_inj [OF inv at3(1)] at3(2) by (metis Diff_iff Un_iff singletonD singletonI)
  have "key_ptr ?e = key_ptr (pent F3 ?s)" "key_size ?e = key_size (pent F3 ?s)"
    "val_ptr ?e = val_ptr (pent F3 ?s)" "val_size ?e = val_size (pent F3 ?s)"
    by (simp_all add: at3(3) with_bro_son_def)
  note r = rewrite_places [OF inv at3(1) soff this, folded F4]
  have "forest F4 ?N {paddr F3 ?s} ?T"
  proof (rule forest_link [where L = ?L])
    show "forest F3 ?N (insert (paddr F3 ?s) ?L) ?T" using q(4) by (simp add: at3(2))
    show "?s \<in> ?N" "refs (pent F3 ?s) = {}" using at3 pl(1) e by (simp_all add: refs_def)
    show "inj_on (paddr F3) ?N" using paddr_inj [OF inv] by (intro inj_onI) blast
    show "?T \<subseteq> {paddr F3 ?s}" "paddr F3 ?s \<notin> ?L" using na by (auto simp: at3(2))
    show "refs (pent F4 ?s) = ?L" unfolding r(3) by (auto simp: refs_def with_bro_son_def)
    show "once (pent F4 ?s)" unfolding r(3) using bs by (auto simp: once_def with_bro_son_def)
    show "type_ptr (pent F4 ?s) = type_ptr (pent F3 ?s)" unfolding r(3) at3(3) by (simp add: with_bro_son_def)
  qed (use r(4,5) in simp_all)
  moreover have "pent F4 u = pent F u \<and> paddr F4 u = paddr F u" if "u \<in> used F" for u
  proof -
    have "u \<in> used F3" "u \<noteq> ?s" using that q(1) pl(1) by blast+
    then show ?thesis using q(2,3) [OF that] r(4,5) by simp
  qed
  ultimately show ?thesis using r(1,2) q(1) by (simp add: links_post_def at3(2))
qed

end
