(* ===== verification/Round_Trip.thy ===== *)
theory Round_Trip
  imports Places
begin

text \<open>
  Writing documents: \<^verbatim>\<open>file_write\<close> stores a document in bytes that were free, links it to its parent and
  type, and adds its nodes, and nothing else, to the nodes in the file.
\<close>

subsection \<open>Writing a document\<close>

lemma with_bro_son_fields [simp]:
  "key_ptr (with_bro_son e b s) = key_ptr e" "key_size (with_bro_son e b s) = key_size e"
  "val_ptr (with_bro_son e b s) = val_ptr e" "val_size (with_bro_son e b s) = val_size e"
  "ent_type (with_bro_son e b s) = ent_type e" "type_ptr (with_bro_son e b s) = type_ptr e"
  "dad_ptr (fam_addr (with_bro_son e b s)) = dad_ptr (fam_addr e)"
  "bro_ptr (fam_addr (with_bro_son e b s)) = b" "son_ptr (fam_addr (with_bro_son e b s)) = s"
  by (simp_all add: with_bro_son_def)

lemma entity_in_disjoint:
  "entity_in A f h soff e key val \<Longrightarrow> {unat (file_offset h) + soff ..< unat (file_offset h) + soff + 80} \<subseteq> A"
  by (simp add: entity_in_def Let_def)

text \<open>
  The last step of a write: the item of a node that was placed in free bytes is rewritten. Nothing
  outside those bytes changes.
\<close>

lemma rewrite_item:
  assumes inv: "file_inv F" and i: "i < length (f_extent F)"
    and e: "entity_in A (filp F) (f_extent F ! i) (unat soff) e key val"
  shows "\<exists>F'. on_ext i (sect_ext_wrt_itm soff (with_bro_son e bro son)) F = Some (Some (), F') \<and> file_inv F' \<and>
    sects_grow F F' \<and> f_extent F' = f_extent F \<and> lst_sect_ptr F' = lst_sect_ptr F \<and>
    F' = F\<lparr>filp := fput (filp F) (unat (file_offset (f_extent F ! i)) + unat soff) (entity_bytes (with_bro_son e bro son))\<rparr> \<and>
    entity_in A (filp F') (f_extent F ! i) (unat soff) (with_bro_son e bro son) key val \<and>
    (\<forall>b. b \<notin> A \<longrightarrow> fdata (filp F') b = fdata (filp F) b)"
proof -
  let ?h = "f_extent F ! i" and ?e = "with_bro_son e bro son"
  let ?f = "fput (filp F) (unat (file_offset ?h) + unat soff) (entity_bytes ?e)"
  have wf: "sect_wf (?h, filp F)" using file_invD(2) [OF inv] i by simp
  have r: "32 \<le> unat soff" "unat soff + 80 \<le> unat (lst_itm_ptr ?h)"
    using e by (simp_all add: entity_in_def Let_def)
  note w = sect_ext_wrt_itm_ok [OF wf r, of ?e]
  have F': "F\<lparr>filp := ?f, f_extent := (f_extent F)[i := ?h]\<rparr> = F\<lparr>filp := ?f\<rparr>" by simp
  have "on_ext i (sect_ext_wrt_itm soff ?e) F = Some (Some (), F\<lparr>filp := ?f\<rparr>)"
    using w(1) by (simp add: on_ext_def)
  moreover have "file_inv (F\<lparr>filp := ?f\<rparr>)"
    using file_inv_ext [OF inv i w(2)] by (simp only: F')
  moreover have "entity_in A ?f ?h (unat soff) ?e key val"
    using entity_in_rewrite [OF wf e, of ?e] by simp
  moreover have "fdata ?f b = fdata (filp F) b" if "b \<notin> A" for b
    using that entity_in_disjoint [OF e] by (auto simp: fdata_fput)
  ultimately show ?thesis
    by (intro exI [of _ "F\<lparr>filp := ?f\<rparr>"]) (simp add: sects_grow_def ext_grow_def)
qed

text \<open>What \<open>file_write\<close> promises for one document.\<close>

definition write_post :: "Json \<Rightarrow> Fileoff \<Rightarrow> Fileoff \<Rightarrow> File \<Rightarrow> Fileoff \<Rightarrow> File \<Rightarrow> bool" where
  "write_post j dad tp F a F' \<longleftrightarrow>
     file_inv F' \<and> extends F F' \<and> a \<noteq> 0 \<and> stored (ext_alloc F' - ext_alloc F) F' a dad tp j \<and>
     unat (lst_sect_ptr F') \<le> unat (lst_sect_ptr F) + 8192 * json_nodes j \<and>
     write_slots (nodes_of tp j) F F' \<and> write_links (solid_doc j) {a} {x. x = a \<and> tp \<noteq> 0} F F'"

definition solid_opt :: "Json option \<Rightarrow> bool" where
  "solid_opt x = (case x of None \<Rightarrow> True | Some y \<Rightarrow> solid_doc y)"

definition room_for :: "nat \<Rightarrow> File \<Rightarrow> bool" where
  "room_for n F \<longleftrightarrow> unat (lst_sect_ptr F) + 8192 * n \<le> fcap (filp F)"

definition nodes_opt :: "Json option \<Rightarrow> nat" where
  "nodes_opt x = (case x of None \<Rightarrow> 0 | Some y \<Rightarrow> json_nodes y)"

text \<open>A brother or a son, when there is one.\<close>

lemma write_relative:
  assumes inv: "file_inv F" and room: "room_for (nodes_opt x) F"
    and IH: "\<And>y. x = Some y \<Longrightarrow> \<exists>a F'. file_write y dad 0 F = Some (Some a, F') \<and> write_post y dad 0 F a F'"
  shows "\<exists>a F'. (case x of None \<Rightarrow> ret 0 | Some y \<Rightarrow> file_write y dad 0) F = Some (Some a, F') \<and>
    file_inv F' \<and> extends F F' \<and> unat (lst_sect_ptr F') \<le> unat (lst_sect_ptr F) + 8192 * nodes_opt x \<and>
    (case x of None \<Rightarrow> a = 0 | Some y \<Rightarrow> a \<noteq> 0 \<and> stored (ext_alloc F' - ext_alloc F) F' a dad 0 y) \<and>
    write_slots (nodes_of_opt x) F F' \<and> write_links (solid_opt x) ({a} - {0}) {} F F'"
proof (cases x)
  case None
  with inv write_slots_refl links_post_refl show ?thesis by (simp add: nodes_opt_def nodes_of_opt_def write_links_def)
next
  case (Some y)
  obtain a F' where w: "file_write y dad 0 F = Some (Some a, F')" and p: "write_post y dad 0 F a F'"
    using IH [OF Some] by blast
  have "{a} - {0} = {a}" using p by (auto simp: write_post_def)
  with w p Some show ?thesis
    by (intro exI [of _ a] exI [of _ F']) (simp add: write_post_def nodes_opt_def nodes_of_opt_def solid_opt_def)
qed

lemma ENTITY_INIT_val:
  assumes "val_ok t v"
  shows "\<exists>ent. ENTITY_INIT (Json k v t b s n a) dad bro son tp = Some ent \<and> key_size ent = cnt k \<and>
    val_size ent = cnt (val_bytes t v) \<and> ent_type ent = type_code t \<and> type_ptr ent = tp \<and>
    fam_addr ent = \<lparr>dad_ptr = dad, bro_ptr = bro, son_ptr = son\<rparr>"
  unfolding ENTITY_INIT_def val_bytes_size [OF assms]
  by (simp add: entity_ctor_def entity_new_def)

lemma stored_relative:
  assumes "case x of None \<Rightarrow> a = 0 | Some y \<Rightarrow> a \<noteq> 0 \<and> stored A F a dad 0 y"
    and "sects_grow F F'" "\<And>i. i \<in> A \<Longrightarrow> fdata (filp F') i = fdata (filp F) i" "A \<subseteq> B"
  shows "case x of None \<Rightarrow> a = 0 | Some y \<Rightarrow> a \<noteq> 0 \<and> stored B F' a dad 0 y"
  using assms(1) stored_transfer [OF _ sects_grow_ext [OF assms(2)] assms(3,4)] by (auto split: option.splits)

text \<open>The steps after the relatives are written, once for all shapes of documents.\<close>

lemma write_finish:
  assumes inv: "file_inv F3" and g: "extends F F1" "extends F1 F2" "extends F2 F3"
    and i: "i < length (f_extent F1)" and a: "a = sect_head_get_fileoff (f_extent F1 ! i) soff"
    and inv1: "file_inv F1" and inv0: "file_inv F"
    and e: "entity_in (ext_alloc F1 - ext_alloc F) (filp F1) (f_extent F1 ! i) (unat soff) e k (val_bytes t v)"
    and ent: "ent_type e = type_code t" "type_ptr e = tp" "dad_ptr (fam_addr e) = dad"
    and b: "case b of None \<Rightarrow> bro = 0 | Some y \<Rightarrow> bro \<noteq> 0 \<and> stored (ext_alloc F2 - ext_alloc F1) F2 bro dad 0 y"
    and s: "case s of None \<Rightarrow> son = 0 | Some y \<Rightarrow> son \<noteq> 0 \<and> stored (ext_alloc F3 - ext_alloc F2) F3 son a 0 y"
    and lst: "unat (lst_sect_ptr F3) \<le> unat (lst_sect_ptr F) + 8192 * json_nodes (Json k v t b s n x)"
    and j: "json_ok (Json k v t b s n x)" and pl: "placed_slot F F1 i soff"
    and wb: "write_slots (nodes_of_opt b) F1 F2" and ws: "write_slots (nodes_of_opt s) F2 F3"
    and e0: "bro_ptr (fam_addr e) = 0" "son_ptr (fam_addr e) = 0" and inv2: "file_inv F2"
    and lp: "tidy_file F \<Longrightarrow> solid (val_bytes t v) k \<Longrightarrow>
      tidy_file F1 \<and> (\<exists>m. unat soff = 32 + 80 * m \<and> placed_at i m e F F1)"
    and lb: "write_links (solid_opt b) ({bro} - {0}) {} F1 F2" and ls: "write_links (solid_opt s) ({son} - {0}) {} F2 F3"
  shows "\<exists>F4. on_ext i (sect_ext_wrt_itm soff (with_bro_son e bro son)) F3 = Some (Some (), F4) \<and>
    file_head_sync F4 = Some (Some (), F4) \<and> write_post (Json k v t b s n x) dad tp F a F4"
proof -
  let ?A = "ext_alloc F1 - ext_alloc F" and ?e = "with_bro_son e bro son"
  have g13: "extends F1 F3" using g(2,3) by (rule extends_trans)
  have h13: "head_grows (f_extent F1 ! i) (f_extent F3 ! i)" and i3: "i < length (f_extent F3)"
    using g13 i by (auto simp: extends_def sects_grow_def ext_grow_def)
  have "entity_in ?A (filp F3) (f_extent F3 ! i) (unat soff) e k (val_bytes t v)"
    using e h13 by (rule entity_in_transfer) (use g13 in \<open>auto simp: extends_def protected_def\<close>)
  from rewrite_item [OF inv i3 this, of bro son] obtain F4 where
    w: "on_ext i (sect_ext_wrt_itm soff ?e) F3 = Some (Some (), F4)"
    and inv4: "file_inv F4" and g34: "sects_grow F3 F4" and F4: "f_extent F4 = f_extent F3" "lst_sect_ptr F4 = lst_sect_ptr F3"
    and e4: "entity_in ?A (filp F4) (f_extent F3 ! i) (unat soff) ?e k (val_bytes t v)"
    and F4': "F4 = F3\<lparr>filp := fput (filp F3) (unat (file_offset (f_extent F3 ! i)) + unat soff) (entity_bytes ?e)\<rparr>"
    and data: "\<And>c. c \<notin> ?A \<Longrightarrow> fdata (filp F4) c = fdata (filp F3) c"
    by blast
  have mono: "ext_alloc F \<subseteq> ext_alloc F1" "ext_alloc F1 \<subseteq> ext_alloc F2" "ext_alloc F2 \<subseteq> ext_alloc F3"
    using g by (simp_all add: ext_alloc_mono extends_grow)
  have al4: "ext_alloc F4 = ext_alloc F3" by (simp add: ext_alloc_def F4)
  have b4: "case b of None \<Rightarrow> bro = 0 | Some y \<Rightarrow> bro \<noteq> 0 \<and> stored (ext_alloc F4 - ext_alloc F) F4 bro dad 0 y"
  proof (rule stored_relative [OF b])
    show "sects_grow F2 F4" using g(3) g34 by (blast intro: sects_grow_trans extends_grow)
    show "fdata (filp F4) c = fdata (filp F2) c" if "c \<in> ext_alloc F2 - ext_alloc F1" for c
      using that data [of c] g(3) by (auto simp: extends_def protected_def)
  qed (use mono al4 in auto)
  have s4: "case s of None \<Rightarrow> son = 0 | Some y \<Rightarrow> son \<noteq> 0 \<and> stored (ext_alloc F4 - ext_alloc F) F4 son a 0 y"
    by (rule stored_relative [OF s g34]) (use data mono al4 in auto)
  have wf1: "sect_wf (f_extent F1 ! i, filp F1)" using file_invD(2) [OF inv1] i by simp
  have sf: "unat soff < 8192" using e wf1 by (simp add: entity_in_def sect_wf_def Let_def)
  have ua: "unat a = unat (file_offset (f_extent F1 ! i)) + unat soff"
    unfolding a by (rule fileoff_in_sect(1) [OF wf1 sf])
  have "node_at ?A F4 a ?e k (val_bytes t v)"
    unfolding node_at_def using e4 i3 ua h13 by (intro exI [of _ i]) (simp add: F4 head_grows_def)
  then have node: "node_at (ext_alloc F4 - ext_alloc F) F4 a ?e k (val_bytes t v)"
    by (rule node_at_transfer) (use mono al4 in auto)
  have "stored (ext_alloc F4 - ext_alloc F) F4 a dad tp (Json k v t b s n x)"
    unfolding stored.simps using node b4 s4 ent
    by (intro exI [of _ ?e], cases b; cases s) simp_all
  moreover have "extends F F4"
  proof -
    have g03: "extends F F3" using g(1) g13 by (rule extends_trans)
    have "c \<notin> ?A" if "c \<in> protected F" for c
    proof
      assume "c \<in> ?A"
      then obtain m where m: "m < length (f_extent F1)" "c \<in> sect_alloc (f_extent F1 ! m)"
        by (auto simp: ext_alloc_def in_set_conv_nth)
      have "c \<in> protected F1" using that protected_mono [OF extends_grow [OF g(1)]] by blast
      from that \<open>c \<in> ?A\<close> obtain h where h: "h \<in> set (f_types F)" "c \<in> sect_bytes h"
        by (auto simp: protected_def)
      have "h \<in> set (f_types F1)" using h(1) g(1) by (simp add: extends_def sects_grow_def ext_grow_def)
      then have "sect_bytes (f_extent F1 ! m) \<inter> sect_bytes h = {}"
        using m(1) by (intro sect_bytes_disjoint ext_types_apart [OF inv1]) simp_all
      moreover have "c \<in> sect_bytes (f_extent F1 ! m)"
        using sect_alloc_bytes [OF file_invD(2) [OF inv1 nth_mem [OF m(1)]]] m(2) by blast
      ultimately show False using h(2) by blast
    qed
    with g03 data g34 show ?thesis by (auto simp: extends_def intro: sects_grow_trans)
  qed
  moreover have "a \<noteq> 0" using node_pos [OF inv4 node] .
  moreover have "write_slots (nodes_of tp (Json k v t b s n x)) F F4"
    unfolding nodes_of_eq
  proof (rule write_slots_node [OF g(1) pl write_slots_trans [OF wb ws mono(2,3)] mono(1)])
    show "ext_grow F1 F3" using sects_grow_ext [OF extends_grow [OF g13]] .
    show "stored (ext_alloc F4 - ext_alloc F) F4 (sect_head_get_fileoff (f_extent F1 ! i) soff) dad tp (Json k v t b s n x)"
      using \<open>stored (ext_alloc F4 - ext_alloc F) F4 a dad tp (Json k v t b s n x)\<close> by (simp only: a)
  qed (use mono F4(1) data j in auto)
  moreover have "write_links (solid_doc (Json k v t b s n x)) {a} {x. x = a \<and> tp \<noteq> 0} F F4"
    unfolding write_links_def
  proof (intro impI)
    assume sd: "solid_doc (Json k v t b s n x)" and t0: "tidy_file F"
    have sd': "solid (val_bytes t v) k" "solid_opt b" "solid_opt s" using sd by (simp_all add: solid_opt_def)
    obtain m where m: "tidy_file F1" "unat soff = 32 + 80 * m" "placed_at i m e F F1" using lp [OF t0 sd'(1)] by blast
    have l2: "tidy_file F2" "links_post ({bro} - {0}) {} F1 F2" using lb sd'(2) m(1) by (simp_all add: write_links_def)
    have l3: "tidy_file F3" "links_post ({son} - {0}) {} F2 F3" using ls sd'(3) l2(1) by (simp_all add: write_links_def)
    have "paddr F1 (i, m) = a"
      unfolding a paddr_def slot_addr_def prod.case m(2) [symmetric] by simp
    then show "tidy_file F4 \<and> links_post {a} {x. x = a \<and> tp \<noteq> 0} F F4"
      using node_links [OF inv l3(1) inv2 l2(1) m(3) e0 l2(2) l3(2) m(2) F4'] ent(2) by simp
  qed
  ultimately have "write_post (Json k v t b s n x) dad tp F a F4"
    using inv4 lst unfolding write_post_def F4(2) by blast
  with w file_head_sync_inv [OF inv4] show ?thesis by blast
qed

theorem file_write_post:
  "file_inv F \<Longrightarrow> json_ok j \<Longrightarrow> room_for (json_nodes j) F \<Longrightarrow>
   \<exists>a F'. file_write j dad tp F = Some (Some a, F') \<and> write_post j dad tp F a F'"
proof (induction j arbitrary: dad tp F)
  case (Json k v t b s n x)
  have ok: "canonical k" "val_ok t v" "length k + length (val_bytes t v) \<le> 8080"
    and okb: "\<And>y. b = Some y \<Longrightarrow> json_ok y" and oks: "\<And>y. s = Some y \<Longrightarrow> json_ok y"
    using Json.prems(2) by auto
  have nodes: "json_nodes (Json k v t b s n x) = Suc (nodes_opt b + nodes_opt s)"
    by (simp add: nodes_opt_def)
  have cap: "unat (lst_sect_ptr F) + 8192 * Suc (nodes_opt b + nodes_opt s) \<le> fcap (filp F)"
    using Json.prems(3) by (simp only: room_for_def nodes)
  obtain ent where ent: "ENTITY_INIT (Json k v t b s n x) dad 0 0 tp = Some ent" "key_size ent = cnt k"
    "val_size ent = cnt (val_bytes t v)" "ent_type ent = type_code t" "type_ptr ent = tp"
    "fam_addr ent = \<lparr>dad_ptr = dad, bro_ptr = 0, son_ptr = 0\<rparr>"
    using ENTITY_INIT_val [OF ok(2)] by metis
  have "room_for_sect F" using cap by (simp add: room_for_sect_def)
  then obtain i e soff F1 where p1: "place_entity k (val_bytes t v) ent F = Some (Some (i, e, soff), F1)"
    and inv1: "file_inv F1" and g1: "extends F F1" and i: "i < length (f_extent F1)"
    and e: "e = ent\<lparr>key_ptr := key_ptr e, val_ptr := val_ptr e\<rparr>"
    and e1: "entity_in (ext_alloc F1 - ext_alloc F) (filp F1) (f_extent F1 ! i) (unat soff) e k (val_bytes t v)"
    and l1: "unat (lst_sect_ptr F1) \<le> unat (lst_sect_ptr F) + 8192" and pl: "placed_slot F F1 i soff"
    using place_entity_ok [OF Json.prems(1) _ ok(3) ent(2,3)] by blast
  have ent_e: "ent_type e = type_code t" "type_ptr e = tp" "dad_ptr (fam_addr e) = dad"
    by (subst e, simp add: ent)+
  have e0: "bro_ptr (fam_addr e) = 0" "son_ptr (fam_addr e) = 0" by (subst e, simp add: ent)+
  have room: "room_for_sect F" using cap by (simp add: room_for_sect_def)
  have lp: "tidy_file F1 \<and> (\<exists>m. unat soff = 32 + 80 * m \<and> placed_at i m e F F1)"
    if "tidy_file F" "solid (val_bytes t v) k"
    using place_entity_places [OF Json.prems(1) that(1) room ok(3) ent(2,3) that(2) p1] unfolding placed_at_def by blast
  define a where a: "a = sect_head_get_fileoff (f_extent F1 ! i) soff"
  have c1: "fcap (filp F1) = fcap (filp F)" using g1 by (simp add: extends_def sects_grow_def ext_grow_def)
  have r1: "room_for (nodes_opt b) F1" using cap l1 c1 by (simp add: room_for_def)
  have IHb: "\<exists>a F'. file_write y dad 0 F1 = Some (Some a, F') \<and> write_post y dad 0 F1 a F'" if "b = Some y" for y
    using Json.IH(1) [OF _ inv1 okb [OF that], of dad 0] r1 that by (simp add: nodes_opt_def)
  obtain bro F2 where p2: "(case b of None \<Rightarrow> ret 0 | Some y \<Rightarrow> file_write y dad 0) F1 = Some (Some bro, F2)"
    and inv2: "file_inv F2" and g2: "extends F1 F2"
    and l2: "unat (lst_sect_ptr F2) \<le> unat (lst_sect_ptr F1) + 8192 * nodes_opt b"
    and b2: "case b of None \<Rightarrow> bro = 0 | Some y \<Rightarrow> bro \<noteq> 0 \<and> stored (ext_alloc F2 - ext_alloc F1) F2 bro dad 0 y"
    and w2: "write_slots (nodes_of_opt b) F1 F2" and k2: "write_links (solid_opt b) ({bro} - {0}) {} F1 F2"
    using write_relative [OF inv1 r1 IHb] by blast
  have c2: "fcap (filp F2) = fcap (filp F)" using g2 c1 by (simp add: extends_def sects_grow_def ext_grow_def)
  have r2: "room_for (nodes_opt s) F2" using cap l1 l2 c2 by (simp add: room_for_def)
  have IHs: "\<exists>a' F'. file_write y a 0 F2 = Some (Some a', F') \<and> write_post y a 0 F2 a' F'" if "s = Some y" for y
    using Json.IH(2) [OF _ inv2 oks [OF that], of a 0] r2 that by (simp add: nodes_opt_def)
  obtain son F3 where p3: "(case s of None \<Rightarrow> ret 0 | Some y \<Rightarrow> file_write y a 0) F2 = Some (Some son, F3)"
    and inv3: "file_inv F3" and g3: "extends F2 F3"
    and l3: "unat (lst_sect_ptr F3) \<le> unat (lst_sect_ptr F2) + 8192 * nodes_opt s"
    and s3: "case s of None \<Rightarrow> son = 0 | Some y \<Rightarrow> son \<noteq> 0 \<and> stored (ext_alloc F3 - ext_alloc F2) F3 son a 0 y"
    and w3: "write_slots (nodes_of_opt s) F2 F3" and k3: "write_links (solid_opt s) ({son} - {0}) {} F2 F3"
    using write_relative [OF inv2 r2 IHs] by blast
  have "unat (lst_sect_ptr F3) \<le> unat (lst_sect_ptr F) + 8192 * json_nodes (Json k v t b s n x)"
    using l1 l2 l3 unfolding nodes by simp
  from write_finish [OF inv3 g1 g2 g3 i a inv1 Json.prems(1) e1 ent_e b2 s3 this Json.prems(2) pl w2 w3 e0 inv2 lp k2 k3]
  obtain F4 where p4: "on_ext i (sect_ext_wrt_itm soff (with_bro_son e bro son)) F3 = Some (Some (), F4)"
    "file_head_sync F4 = Some (Some (), F4)" "write_post (Json k v t b s n x) dad tp F a F4"
    by blast
  have "file_write (Json k v t b s n x) dad tp F = Some (Some a, F4)"
    using p1 p2 p3 p4(1,2) ent(1) val_bytes_ptr [OF ok(2)]
    by (simp add: ext_fileoff_def flip: a)
  with p4(3) show ?case by blast
qed

end
