(* ===== verification/Types_Spec.thy ===== *)
theory Types_Spec
  imports Sect_Types
begin

text \<open>
  What the operations of \<^verbatim>\<open>section/types.c\<close> promise. \<open>types_from f h soff ts\<close>: the items of the section
  from \<open>soff\<close> on are exactly the types \<open>ts\<close>, in order. A write appends a type to that list, a load
  returns the list with the types' offsets, a find its first type of that name.
\<close>

subsection \<open>Steps that only grow a section\<close>

definition keeps :: "sect \<Rightarrow> sect \<Rightarrow> bool" where
  "keeps = (\<lambda>(h, f) (h', f'). head_grows h h' \<and> (\<forall>i \<in> sect_alloc h. fdata f' i = fdata f i))"

definition sgrow :: "sect \<Rightarrow> sect \<Rightarrow> bool" where
  "sgrow s s' \<longleftrightarrow> sect_step s s' \<and> keeps s s'"

lemma sgrowD:
  assumes "sgrow (h, f) (h', f')"
  shows "sect_step (h, f) (h', f')" "sect_wf (h', f')" "head_grows h h'"
    "i \<in> sect_alloc h \<Longrightarrow> fdata f' i = fdata f i" "keeps (h, f) (h', f')"
  using assms by (auto simp: sgrow_def keeps_def dest: sect_stepD(1))

lemma keepsD:
  assumes "keeps (h, f) (h', f')"
  shows "head_grows h h'" "i \<in> sect_alloc h \<Longrightarrow> fdata f' i = fdata f i"
  using assms by (auto simp: keeps_def)

lemma sgrow_refl: "sect_wf (h, f) \<Longrightarrow> sgrow (h, f) (h, f)"
  by (simp add: sgrow_def keeps_def sect_step_refl)

lemma sgrow_trans: "sgrow (h, f) (h', f') \<Longrightarrow> sgrow (h', f') (h'', f'') \<Longrightarrow> sgrow (h, f) (h'', f'')"
  using sect_alloc_mono [of h h'] by (auto simp: sgrow_def keeps_def intro: sect_step_trans head_grows_trans)

lemma keeps_trans: "keeps (h, f) (h', f') \<Longrightarrow> keeps (h', f') (h'', f'') \<Longrightarrow> keeps (h, f) (h'', f'')"
  using sect_alloc_mono [of h h'] by (auto simp: keeps_def intro: head_grows_trans)

text \<open>A range of allocated bytes keeps its content.\<close>

lemma keeps_fget:
  assumes "keeps (h, f) (h', f')" "{a ..< a + n} \<subseteq> sect_alloc h"
  shows "fget f' a n = fget f a n"
  by (rule fget_cong) (use keepsD(2) [OF assms(1)] assms(2) in auto)

text \<open>The step a name takes.\<close>

lemma write_name_ok:
  assumes wf: "sect_wf (h, f)" and len: "length name \<le> unat (fst_rec_ptr h) - unat (lst_itm_ptr h)"
  shows "\<exists>h' f'. write_name name (h, f) = Some (Some (fst_rec_ptr h'), (h', f')) \<and> sgrow (h, f) (h', f') \<and>
    lst_itm_ptr h' = lst_itm_ptr h \<and> unat (fst_rec_ptr h') = unat (fst_rec_ptr h) - length name \<and>
    fget f' (unat (file_offset h) + unat (fst_rec_ptr h')) (length name) = name"
proof -
  let ?off = "unat (file_offset h)"
  define h' where "h' = h\<lparr>free_space := free_space h - cnt name, fst_rec_ptr := fst_rec_ptr h - cnt name\<rparr>"
  have w: "file_ok f" "free_ok h" "32 \<le> unat (lst_itm_ptr h)" "unat (lst_itm_ptr h) \<le> unat (fst_rec_ptr h)"
    "unat (fst_rec_ptr h) \<le> 8192" "?off + 8192 \<le> fcap f" "?off + unat (lst_itm_ptr h) \<le> fsize f"
    "unat (fst_rec_ptr h) < 8192 \<Longrightarrow> ?off + 8192 \<le> fsize f"
    using wf by (auto simp: sect_wf_def)
  have c: "unat (cnt name) = length name" using len w by (intro unat_cnt) simp
  have frp: "unat (fst_rec_ptr h') = unat (fst_rec_ptr h) - length name"
    using len c w by (simp add: h'_def unat_sub_small)
  have hs: "file_offset h' = file_offset h" "lst_itm_ptr h' = lst_itm_ptr h" "free_ok h'"
    using w by (simp_all add: h'_def free_ok_def)
  define f1 where "f1 = synced h' f"
  define f' where "f' = fput f1 (?off + unat (fst_rec_ptr h')) name"
  have ok1: "file_ok f1" using w by (simp add: f1_def synced_def hs)
  have e1: "sect_head_shift_frp (- 1 * cnt name) (h, f) = Some (Some (), (h', f1))"
    using w by (cases h) (simp add: sect_head_shift_frp_def h'_def f1_def sync_ok)
  have e2: "sect_head_write (fst_rec_ptr h') name (h', f1) = Some (Some (), (h', f'))"
    using ok1 w frp len by (subst sect_head_write_ok) (simp_all add: f'_def hs, simp add: f1_def)
  have "write_name name (h, f) = Some (Some (fst_rec_ptr h'), (h', f'))"
    using e1 e2 by (simp add: write_name_def)
  moreover have "sect_wf (h', f')"
  proof -
    have "file_ok f'" unfolding f'_def using ok1 w frp len by (intro file_ok_fput) (simp_all add: f1_def)
    moreover have "fget f' ?off 32 = head_bytes h'"
      using frp len w fget_synced_head [of h' f] by (simp add: f'_def f1_def hs)
    moreover have "?off + 8192 \<le> fsize f'" if "unat (fst_rec_ptr h') < 8192"
    proof (cases "unat (fst_rec_ptr h) = 8192")
      case True
      with that frp len w have "name \<noteq> []" "?off + unat (fst_rec_ptr h') + length name = ?off + 8192" by auto
      then show ?thesis by (simp add: f'_def fsize_fput)
    next
      case False
      with w have "?off + 8192 \<le> fsize f" by simp
      then show ?thesis by (auto simp: f'_def f1_def fsize_fput fsize_synced le_max_iff_disj)
    qed
    ultimately show ?thesis
      using w len frp by (auto simp: sect_wf_def hs f'_def f1_def fsize_fput fsize_synced)
  qed
  moreover have "fdata f' i = fdata f i" if "i < ?off \<or> ?off + 8192 \<le> i \<or> i \<in> sect_alloc h" for i
    using that frp len w by (auto simp: f'_def f1_def fdata_fput fdata_synced hs sect_alloc_def Let_def)
  ultimately have "sgrow (h, f) (h', f')"
    using frp hs w by (auto simp: sgrow_def keeps_def head_grows_def word_le_nat_alt f'_def f1_def fsize_fput fsize_synced
        intro!: sect_stepI)
  moreover have "fget f' (?off + unat (fst_rec_ptr h')) (length name) = name" by (simp add: f'_def)
  ultimately show ?thesis
    using \<open>write_name name (h, f) = _\<close> hs frp by blast
qed

text \<open>The step an entity of 24 bytes takes.\<close>

lemma put_item_ok:
  assumes wf: "sect_wf (h, f)" and len: "24 \<le> unat (fst_rec_ptr h) - unat (lst_itm_ptr h)" and bs: "length bs = 24"
  shows "\<exists>h' f'. DO_OR_FAIL (sect_head_write (lst_itm_ptr h) bs) (\<lambda>_. sect_head_shift_lip 24) (h, f) = Some (Some (), (h', f')) \<and>
    sgrow (h, f) (h', f') \<and> unat (lst_itm_ptr h') = unat (lst_itm_ptr h) + 24 \<and> fst_rec_ptr h' = fst_rec_ptr h \<and>
    fget f' (unat (file_offset h) + unat (lst_itm_ptr h)) 24 = bs"
proof -
  let ?off = "unat (file_offset h)" and ?lip = "unat (lst_itm_ptr h)"
  have w: "file_ok f" "free_ok h" "32 \<le> ?lip" "?lip \<le> unat (fst_rec_ptr h)"
    "unat (fst_rec_ptr h) \<le> 8192" "?off + 8192 \<le> fcap f" "?off + ?lip \<le> fsize f"
    "unat (fst_rec_ptr h) < 8192 \<Longrightarrow> ?off + 8192 \<le> fsize f"
    using wf by (auto simp: sect_wf_def)
  have ne: "bs \<noteq> []" using bs by auto
  define f1 where "f1 = fput f (?off + ?lip) bs"
  have st1: "sect_step (h, f) (h, f1)"
    unfolding f1_def using w len bs by (intro sect_step_fput [OF wf]) simp_all
  have wf1: "sect_wf (h, f1)" using sect_stepD(1) [OF st1] .
  define h' where "h' = h\<lparr>free_space := free_space h - 24, lst_itm_ptr := lst_itm_ptr h + 24\<rparr>"
  define f' where "f' = synced h' f1"
  have lip: "unat (lst_itm_ptr h') = ?lip + 24"
    using len w by (simp add: h'_def unat_add_small)
  have hs: "file_offset h' = file_offset h" "fst_rec_ptr h' = fst_rec_ptr h" "free_ok h'"
    using w by (simp_all add: h'_def free_ok_def)
  have st2: "sect_step (h, f1) (h', f')"
    unfolding f'_def using w len lip hs bs ne
    by (intro sect_step_synced [OF wf1]) (simp_all add: f1_def fsize_fput)
  have e1: "sect_head_write (lst_itm_ptr h) bs (h, f) = Some (Some (), (h, f1))"
    using w len bs by (subst sect_head_write_ok) (simp_all add: f1_def)
  have e2: "sect_head_shift_lip 24 (h, f1) = Some (Some (), (h', f'))"
    using w wf1 by (cases h) (simp add: sect_head_shift_lip_def h'_def f'_def sync_ok sect_wf_def)
  have d: "fdata f' i = fdata f i" if "i \<in> sect_alloc h" for i
    using that w len bs by (auto simp: f'_def f1_def fdata_synced fdata_fput hs sect_alloc_def Let_def)
  have "sgrow (h, f) (h', f')"
    using sect_step_trans [OF st1 st2] hs lip d by (auto simp: sgrow_def keeps_def head_grows_def word_le_nat_alt)
  moreover have "fget f' (?off + ?lip) 24 = bs"
    using w bs by (simp add: f'_def fget_synced_other hs f1_def)
  ultimately show ?thesis using e1 e2 lip hs by auto
qed

subsection \<open>Types in a section\<close>

definition name_at :: "FILE \<Rightarrow> Sect_head \<Rightarrow> u64 \<Rightarrow> u64 \<Rightarrow> String \<Rightarrow> bool" where
  "name_at f h p sz name \<longleftrightarrow> unat sz = length name \<and>
     (name \<noteq> [] \<longrightarrow> unat (fst_rec_ptr h) \<le> unat p \<and> unat p + length name \<le> 8192 \<and>
        fget f (unat (file_offset h) + unat p) (length name) = name)"

fun attrs_at :: "FILE \<Rightarrow> Sect_head \<Rightarrow> nat \<Rightarrow> Attr list \<Rightarrow> bool" where
  "attrs_at f h soff [] = True"
| "attrs_at f h soff (a # as) \<longleftrightarrow>
     soff + 24 \<le> unat (lst_itm_ptr h) \<and> canonical (attr_name a) \<and>
     (\<exists>ent. fget f (unat (file_offset h) + soff) 24 = a_ent_bytes ent \<and>
        name_at f h (a_name_ptr ent) (a_name_size ent) (attr_name a) \<and> a_attr_type ent = type_code (attr_type a)) \<and>
     attrs_at f h (soff + 24) as"

definition type_at :: "FILE \<Rightarrow> Sect_head \<Rightarrow> nat \<Rightarrow> Type \<Rightarrow> bool" where
  "type_at f h soff t \<longleftrightarrow>
     32 \<le> soff \<and> soff + items_len t \<le> unat (lst_itm_ptr h) \<and> canonical (type_name t) \<and>
     (\<exists>ent. fget f (unat (file_offset h) + soff) 24 = t_ent_bytes ent \<and>
        name_at f h (t_name_ptr ent) (t_name_size ent) (type_name t) \<and>
        unat (attr_cnt ent) = length (attr_list t)) \<and>
     attrs_at f h (soff + 24) (attr_list t)"

fun types_from :: "FILE \<Rightarrow> Sect_head \<Rightarrow> nat \<Rightarrow> Type list \<Rightarrow> bool" where
  "types_from f h soff [] \<longleftrightarrow> soff = unat (lst_itm_ptr h)"
| "types_from f h soff (t # ts) \<longleftrightarrow> type_at f h soff t \<and> types_from f h (soff + items_len t) ts"

lemma name_at_grow:
  assumes "name_at f h p sz name" "keeps (h, f) (h', f')"
  shows "name_at f' h' p sz name"
proof (cases "name = []")
  case True
  with assms show ?thesis by (simp add: name_at_def)
next
  case False
  note g = keepsD(1) [OF assms(2)]
  have "{unat (file_offset h) + unat p ..< unat (file_offset h) + unat p + length name} \<subseteq> sect_alloc h"
    using assms(1) False by (auto simp: name_at_def sect_alloc_def Let_def)
  from keeps_fget [OF assms(2) this] assms(1) False g show ?thesis
    by (auto simp: name_at_def head_grows_def word_le_nat_alt)
qed

lemma item_grow:
  assumes "soff + 24 \<le> unat (lst_itm_ptr h)" "32 \<le> soff" "keeps (h, f) (h', f')"
  shows "fget f' (unat (file_offset h') + soff) 24 = fget f (unat (file_offset h) + soff) 24"
proof -
  have "{unat (file_offset h) + soff ..< unat (file_offset h) + soff + 24} \<subseteq> sect_alloc h"
    using assms by (auto simp: sect_alloc_def Let_def)
  from keeps_fget [OF assms(3) this] show ?thesis
    using keepsD(1) [OF assms(3)] by (simp add: head_grows_def)
qed

lemma lip_grow: "keeps (h, f) (h', f') \<Longrightarrow> unat (lst_itm_ptr h) \<le> unat (lst_itm_ptr h')"
  by (auto simp: keeps_def head_grows_def word_le_nat_alt)

lemma attrs_at_grow:
  "attrs_at f h soff as \<Longrightarrow> 32 \<le> soff \<Longrightarrow> keeps (h, f) (h', f') \<Longrightarrow> attrs_at f' h' soff as"
proof (induction "as" arbitrary: soff)
  case (Cons a "as")
  have "fget f' (unat (file_offset h') + soff) 24 = fget f (unat (file_offset h) + soff) 24"
    using Cons.prems by (intro item_grow) auto
  moreover have "attrs_at f' h' (soff + 24) as" using Cons by simp
  moreover have "soff + 24 \<le> unat (lst_itm_ptr h')" using Cons.prems lip_grow [of h f h' f'] by simp
  ultimately show ?case using Cons.prems name_at_grow [OF _ Cons.prems(3)] by auto
qed simp

lemma type_at_grow:
  assumes "type_at f h soff t" "32 \<le> soff" "keeps (h, f) (h', f')"
  shows "type_at f' h' soff t"
proof -
  have l: "soff + items_len t \<le> unat (lst_itm_ptr h)" using assms(1) by (simp add: type_at_def)
  have "fget f' (unat (file_offset h') + soff) 24 = fget f (unat (file_offset h) + soff) 24"
    using assms l by (intro item_grow) (auto simp: items_len_def)
  moreover have "attrs_at f' h' (soff + 24) (attr_list t)"
    by (rule attrs_at_grow [OF _ _ assms(3)]) (use assms(1,2) in \<open>simp_all add: type_at_def\<close>)
  moreover have "soff + items_len t \<le> unat (lst_itm_ptr h')" using l lip_grow [OF assms(3)] by simp
  ultimately show ?thesis using assms(1) name_at_grow [OF _ assms(3)] by (auto simp: type_at_def)
qed

text \<open>The list grows at its end.\<close>

lemma types_from_append:
  "types_from f h soff ts \<Longrightarrow> 32 \<le> soff \<Longrightarrow> keeps (h, f) (h', f') \<Longrightarrow> type_at f' h' (unat (lst_itm_ptr h)) t \<Longrightarrow>
   unat (lst_itm_ptr h') = unat (lst_itm_ptr h) + items_len t \<Longrightarrow> types_from f' h' soff (ts @ [t])"
proof (induction ts arbitrary: soff)
  case (Cons x xs)
  have "type_at f' h' soff x"
    by (rule type_at_grow [OF _ _ Cons.prems(3)]) (use Cons.prems in simp_all)
  moreover have "types_from f' h' (soff + items_len x) (xs @ [t])" using Cons by simp
  ultimately show ?case by simp
qed simp

subsection \<open>Writing\<close>

definition type_fits :: "Sect_head \<Rightarrow> Type \<Rightarrow> bool" where
  "type_fits h t \<longleftrightarrow> items_len t + names_len t \<le> unat (fst_rec_ptr h) - unat (lst_itm_ptr h)"

definition canonical_type :: "Type \<Rightarrow> bool" where
  "canonical_type t \<longleftrightarrow> canonical (type_name t) \<and> (\<forall>a \<in> set (attr_list t). canonical (attr_name a))"

lemma type_fits_iff:
  assumes "sect_wf (h, f)" "items_len t + names_len t < 18446744073709551616"
  shows "free_space h < type_ph_sz t \<longleftrightarrow> \<not> type_fits h t"
proof -
  have "unat (word_of_nat (items_len t + names_len t) :: u64) = items_len t + names_len t"
    using assms(2) by (rule unat_of_nat_small)
  then show ?thesis
    using unat_free_space [OF assms(1)] unfolding type_ph_sz_eq word_less_nat_alt type_fits_def by auto
qed

lemma name_at_written:
  assumes "sgrow (h, f) (h', f')" "unat (cnt name) = length name"
    "fget f' (unat (file_offset h) + unat (fst_rec_ptr h')) (length name) = name"
    "unat (fst_rec_ptr h') = unat (fst_rec_ptr h) - length name" "length name \<le> unat (fst_rec_ptr h)"
    "unat (fst_rec_ptr h) \<le> 8192"
  shows "name_at f' h' (fst_rec_ptr h') (cnt name) name"
  using assms sgrowD(1,2,3) [OF assms(1)] by (auto simp: name_at_def head_grows_def sect_wf_def)

text \<open>A name and the entity that points to it, the step \<^verbatim>\<open>sect_types_write\<close> repeats.\<close>

lemma write_named:
  assumes wf: "sect_wf (h, f)" and fit: "24 + length name \<le> unat (fst_rec_ptr h) - unat (lst_itm_ptr h)"
    and bs: "\<And>p. length (mk p) = 24"
  shows "\<exists>h1 f1 h2 f2. write_name name (h, f) = Some (Some (fst_rec_ptr h1), (h1, f1)) \<and> lst_itm_ptr h1 = lst_itm_ptr h \<and>
    DO_OR_FAIL (sect_head_write (lst_itm_ptr h1) (mk (fst_rec_ptr h1))) (\<lambda>_. sect_head_shift_lip 24) (h1, f1) = Some (Some (), (h2, f2)) \<and>
    sgrow (h, f) (h2, f2) \<and> unat (lst_itm_ptr h2) = unat (lst_itm_ptr h) + 24 \<and>
    unat (fst_rec_ptr h2) = unat (fst_rec_ptr h) - length name \<and>
    fget f2 (unat (file_offset h2) + unat (lst_itm_ptr h)) 24 = mk (fst_rec_ptr h1) \<and>
    name_at f2 h2 (fst_rec_ptr h1) (cnt name) name"
proof -
  have "length name \<le> unat (fst_rec_ptr h) - unat (lst_itm_ptr h)" using fit by simp
  then obtain h1 f1 where w1: "write_name name (h, f) = Some (Some (fst_rec_ptr h1), (h1, f1))" and g1: "sgrow (h, f) (h1, f1)"
    and l1: "lst_itm_ptr h1 = lst_itm_ptr h" and r1: "unat (fst_rec_ptr h1) = unat (fst_rec_ptr h) - length name"
    and d1: "fget f1 (unat (file_offset h) + unat (fst_rec_ptr h1)) (length name) = name"
    using write_name_ok [OF wf] by blast
  have "24 \<le> unat (fst_rec_ptr h1) - unat (lst_itm_ptr h1)" using fit l1 r1 by simp
  from put_item_ok [OF sgrowD(2) [OF g1] this, of "mk (fst_rec_ptr h1)"] bs obtain h2 f2 where
    w2: "DO_OR_FAIL (sect_head_write (lst_itm_ptr h1) (mk (fst_rec_ptr h1))) (\<lambda>_. sect_head_shift_lip 24) (h1, f1) = Some (Some (), (h2, f2))"
    and g2: "sgrow (h1, f1) (h2, f2)" and l2: "unat (lst_itm_ptr h2) = unat (lst_itm_ptr h1) + 24"
    and r2: "fst_rec_ptr h2 = fst_rec_ptr h1"
    and d2: "fget f2 (unat (file_offset h1) + unat (lst_itm_ptr h1)) 24 = mk (fst_rec_ptr h1)"
    by blast
  have b: "unat (fst_rec_ptr h) \<le> 8192" using wf by (simp add: sect_wf_def)
  then have "unat (cnt name) = length name" using fit by (intro unat_cnt) simp
  then have "name_at f1 h1 (fst_rec_ptr h1) (cnt name) name"
    using d1 r1 fit b by (intro name_at_written [OF g1]) simp_all
  then have "name_at f2 h2 (fst_rec_ptr h1) (cnt name) name" using sgrowD(5) [OF g2] by (rule name_at_grow)
  moreover have "file_offset h2 = file_offset h1" using sgrowD(3) [OF g2] by (simp add: head_grows_def)
  moreover have "unat (fst_rec_ptr h2) = unat (fst_rec_ptr h) - length name" using r2 r1 by simp
  ultimately show ?thesis
    using w1 w2 sgrow_trans [OF g1 g2] l1 l2 r2 d2 by metis
qed

lemma write_attrs_ok:
  "sect_wf (h, f) \<Longrightarrow> \<forall>a \<in> set as. canonical (attr_name a) \<Longrightarrow>
   24 * length as + sum_list (map (length \<circ> attr_name) as) \<le> unat (fst_rec_ptr h) - unat (lst_itm_ptr h) \<Longrightarrow>
   \<exists>h' f'. write_attrs as (h, f) = Some (Some (), (h', f')) \<and> sgrow (h, f) (h', f') \<and>
     unat (lst_itm_ptr h') = unat (lst_itm_ptr h) + 24 * length as \<and>
     attrs_at f' h' (unat (lst_itm_ptr h)) as"
proof (induction "as" arbitrary: h f)
  case Nil
  then show ?case by (auto simp: sgrow_refl)
next
  case (Cons a "as")
  let ?mk = "\<lambda>p. a_ent_bytes \<lparr>a_name_size = cnt (attr_name a), a_name_ptr = p, a_attr_type = type_code (attr_type a)\<rparr>"
  have fit: "24 + length (attr_name a) \<le> unat (fst_rec_ptr h) - unat (lst_itm_ptr h)" using Cons.prems(3) by simp
  obtain h1 f1 h2 f2 where w1: "write_name (attr_name a) (h, f) = Some (Some (fst_rec_ptr h1), (h1, f1))"
    and l1: "lst_itm_ptr h1 = lst_itm_ptr h"
    and w2: "DO_OR_FAIL (sect_head_write (lst_itm_ptr h1) (?mk (fst_rec_ptr h1))) (\<lambda>_. sect_head_shift_lip 24) (h1, f1) = Some (Some (), (h2, f2))"
    and g: "sgrow (h, f) (h2, f2)" and l2: "unat (lst_itm_ptr h2) = unat (lst_itm_ptr h) + 24"
    and r2: "unat (fst_rec_ptr h2) = unat (fst_rec_ptr h) - length (attr_name a)"
    and d2: "fget f2 (unat (file_offset h2) + unat (lst_itm_ptr h)) 24 = ?mk (fst_rec_ptr h1)"
    and n2: "name_at f2 h2 (fst_rec_ptr h1) (cnt (attr_name a)) (attr_name a)"
    using write_named [OF Cons.prems(1) fit, of ?mk] by auto
  have fit2: "24 * length as + sum_list (map (length \<circ> attr_name) as) \<le> unat (fst_rec_ptr h2) - unat (lst_itm_ptr h2)"
    using Cons.prems(3) unfolding l2 r2 by (simp add: o_def)
  obtain h3 f3 where w3: "write_attrs as (h2, f2) = Some (Some (), (h3, f3))" and g3: "sgrow (h2, f2) (h3, f3)"
    and l3: "unat (lst_itm_ptr h3) = unat (lst_itm_ptr h2) + 24 * length as"
    and a3: "attrs_at f3 h3 (unat (lst_itm_ptr h2)) as"
    using Cons.IH [OF sgrowD(2) [OF g] _ fit2] Cons.prems(2) by auto
  have lw: "32 \<le> unat (lst_itm_ptr h)" using Cons.prems(1) by (simp add: sect_wf_def)
  have "fget f3 (unat (file_offset h3) + unat (lst_itm_ptr h)) 24 = ?mk (fst_rec_ptr h1)"
    using item_grow [OF _ lw sgrowD(5) [OF g3]] l2 d2 by simp
  then have "attrs_at f3 h3 (unat (lst_itm_ptr h)) (a # as)"
    using a3 l2 l3 name_at_grow [OF n2 sgrowD(5) [OF g3]] Cons.prems(2) by (auto intro!: exI)
  moreover have "write_attrs (a # as) (h, f) = Some (Some (), (h3, f3))"
    using w1 w2 w3 by (auto simp: sect_types_wrt_atr_def DO_OR_FAIL_eq_ok)
  ultimately show ?case using sgrow_trans [OF g g3] l2 l3 by auto
qed

lemma sect_types_write_ok:
  assumes wf: "sect_wf (h, f)" and can: "canonical_type t" and fit: "type_fits h t"
  shows "\<exists>h' f'. sect_types_write t (h, f) = Some (Some (lst_itm_ptr h), (h', f')) \<and> sgrow (h, f) (h', f') \<and>
    unat (lst_itm_ptr h') = unat (lst_itm_ptr h) + items_len t \<and> type_at f' h' (unat (lst_itm_ptr h)) t"
proof -
  let ?mk = "\<lambda>p. t_ent_bytes \<lparr>t_name_size = cnt (type_name t), t_name_ptr = p, attr_cnt = word_of_nat (length (attr_list t))\<rparr>"
  have b: "unat (fst_rec_ptr h) \<le> 8192" "32 \<le> unat (lst_itm_ptr h)" using wf by (auto simp: sect_wf_def)
  have "items_len t + names_len t < 18446744073709551616" using fit b by (simp add: type_fits_def)
  then have room: "\<not> free_space h < type_ph_sz t" using type_fits_iff [OF wf] fit by simp
  have fit1: "24 + length (type_name t) \<le> unat (fst_rec_ptr h) - unat (lst_itm_ptr h)"
    using fit by (simp add: type_fits_def items_len_def names_len_def)
  obtain h1 f1 h2 f2 where w1: "write_name (type_name t) (h, f) = Some (Some (fst_rec_ptr h1), (h1, f1))"
    and l1: "lst_itm_ptr h1 = lst_itm_ptr h"
    and w2: "DO_OR_FAIL (sect_head_write (lst_itm_ptr h1) (?mk (fst_rec_ptr h1))) (\<lambda>_. sect_head_shift_lip 24) (h1, f1) = Some (Some (), (h2, f2))"
    and g: "sgrow (h, f) (h2, f2)" and l2: "unat (lst_itm_ptr h2) = unat (lst_itm_ptr h) + 24"
    and r2: "unat (fst_rec_ptr h2) = unat (fst_rec_ptr h) - length (type_name t)"
    and d2: "fget f2 (unat (file_offset h2) + unat (lst_itm_ptr h)) 24 = ?mk (fst_rec_ptr h1)"
    and n2: "name_at f2 h2 (fst_rec_ptr h1) (cnt (type_name t)) (type_name t)"
    using write_named [OF wf fit1, of ?mk] by auto
  have "24 * length (attr_list t) + sum_list (map (length \<circ> attr_name) (attr_list t))
      \<le> unat (fst_rec_ptr h2) - unat (lst_itm_ptr h2)"
    using fit unfolding l2 r2 by (simp add: type_fits_def items_len_def names_len_def)
  then obtain h3 f3 where w3: "write_attrs (attr_list t) (h2, f2) = Some (Some (), (h3, f3))" and g3: "sgrow (h2, f2) (h3, f3)"
    and l3: "unat (lst_itm_ptr h3) = unat (lst_itm_ptr h2) + 24 * length (attr_list t)"
    and a3: "attrs_at f3 h3 (unat (lst_itm_ptr h2)) (attr_list t)"
    using write_attrs_ok [OF sgrowD(2) [OF g], of "attr_list t"] can
    by (auto simp: canonical_type_def)
  have "fget f3 (unat (file_offset h3) + unat (lst_itm_ptr h)) 24 = ?mk (fst_rec_ptr h1)"
    using item_grow [OF _ b(2) sgrowD(5) [OF g3]] l2 d2 by simp
  moreover have "length (attr_list t) < 18446744073709551616"
    using fit b by (simp add: type_fits_def items_len_def)
  ultimately have "type_at f3 h3 (unat (lst_itm_ptr h)) t"
    using a3 l2 l3 name_at_grow [OF n2 sgrowD(5) [OF g3]] can b
    by (auto simp: type_at_def items_len_def canonical_type_def unat_of_nat_small intro!: exI)
  moreover have "sect_types_write t (h, f) = Some (Some (lst_itm_ptr h), (h3, f3))"
    using room w1 w2 w3 l1 by (auto simp: sect_types_write_def sect_types_wrt_type_def DO_OR_FAIL_eq_ok)
  ultimately show ?thesis using sgrow_trans [OF g g3] l2 l3 by (auto simp: items_len_def)
qed

lemma sect_types_write_full:
  assumes "sect_wf (h, f)" "\<not> type_fits h t" "items_len t + names_len t < 18446744073709551616"
  shows "sect_types_write t (h, f) = Some (None, (h, f))"
  using assms type_fits_iff [OF assms(1,3)] by (simp add: sect_types_write_def)

interpretation types_write: section_op "sect_types_write t"
    "\<lambda>_. canonical_type t \<and> items_len t + names_len t < 18446744073709551616" for t
proof unfold_locales
  fix h f
  assume wf: "sect_wf (h, f)" and t: "canonical_type t \<and> items_len t + names_len t < 18446744073709551616"
  show "\<exists>r h' f'. sect_types_write t (h, f) = Some (r, (h', f')) \<and> sect_step (h, f) (h', f')"
  proof (cases "type_fits h t")
    case True
    with sect_types_write_ok [OF wf _ True] t show ?thesis by (auto dest: sgrowD(1))
  next
    case False
    with sect_types_write_full [OF wf False] t sect_step_refl [OF wf] show ?thesis by blast
  qed
qed

subsection \<open>Reading and searching\<close>

lemma name_at_read:
  assumes wf: "sect_wf (h, f)" and n: "name_at f h p sz name"
  shows "sect_head_read p sz (h, f) = Some (Some name, (h, f))"
proof (cases "name = []")
  case True
  with n wf show ?thesis
    by (subst sect_head_read_opt) (auto simp: name_at_def sect_wf_def)
next
  case False
  with n wf show ?thesis
    by (subst sect_head_read_opt) (auto simp: name_at_def sect_wf_def)
qed

lemma item_read:
  assumes wf: "sect_wf (h, f)" and r: "unat soff + 24 \<le> unat (lst_itm_ptr h)"
  shows "sect_head_read soff 24 (h, f) = Some (Some (fget f (unat (file_offset h) + unat soff) 24), (h, f))"
  using wf r by (subst sect_head_read_opt) (auto simp: sect_wf_def)

lemma soff_step:
  fixes soff :: Sectoff
  assumes "sect_wf (h, f)" "unat soff + n \<le> unat (lst_itm_ptr h)"
  shows "unat (soff + word_of_nat n) = unat soff + n"
proof -
  have "unat (lst_itm_ptr h) \<le> 8192" using assms(1) by (auto simp: sect_wf_def)
  with assms(2) have "n \<le> 8192" by simp
  then have "unat (word_of_nat n :: u64) = n" by (intro unat_of_nat_small) simp
  with assms(2) \<open>unat (lst_itm_ptr h) \<le> 8192\<close> show ?thesis by (simp add: unat_add_small)
qed

lemma read_attrs_ok:
  assumes wf: "sect_wf (h, f)"
  shows "attrs_at f h (unat soff) as \<Longrightarrow>
    read_attrs (length as) soff t (h, f) = Some (Some (t\<lparr>attr_list := attr_list t @ as\<rparr>), (h, f))"
proof (induction "as" arbitrary: soff t)
  case (Cons a "as")
  obtain ent where l: "unat soff + 24 \<le> unat (lst_itm_ptr h)" and can: "canonical (attr_name a)"
    and d: "fget f (unat (file_offset h) + unat soff) 24 = a_ent_bytes ent"
    and n: "name_at f h (a_name_ptr ent) (a_name_size ent) (attr_name a)" and ty: "a_attr_type ent = type_code (attr_type a)"
    and rest: "attrs_at f h (unat soff + 24) as"
    using Cons.prems by auto
  have "read_attr soff (h, f) = Some (Some a, (h, f))"
    using item_read [OF wf l] name_at_read [OF wf n] d ty can
    by (simp add: read_attr_def sect_types_rd_atr_def attr_ctor_def canonical_ctor_eq)
  moreover have "unat (soff + 24) = unat soff + 24" using soff_step [OF wf l] by simp
  ultimately show ?case
    using Cons.IH [of "soff + 24" "type_add_atr t a"] rest by (simp add: type_add_atr_def)
qed simp

lemma read_type_parts:
  assumes wf: "sect_wf (h, f)" and t: "type_at f h (unat soff) t"
  obtains ent where "read_type_name soff (h, f) = Some (Some (ent, type_name t), (h, f))"
    "read_attrs (unat (attr_cnt ent)) (soff + 24) (type_ctor (type_name t) []) (h, f) = Some (Some t, (h, f))"
    "24 + attr_cnt ent * 24 = (word_of_nat (items_len t) :: u64)"
proof -
  obtain ent where l: "unat soff + items_len t \<le> unat (lst_itm_ptr h)" and can: "canonical (type_name t)"
    and d: "fget f (unat (file_offset h) + unat soff) 24 = t_ent_bytes ent"
    and n: "name_at f h (t_name_ptr ent) (t_name_size ent) (type_name t)" and c: "unat (attr_cnt ent) = length (attr_list t)"
    and "as": "attrs_at f h (unat soff + 24) (attr_list t)"
    using t by (auto simp: type_at_def)
  have l24: "unat soff + 24 \<le> unat (lst_itm_ptr h)" using l by (simp add: items_len_def)
  have u: "unat (soff + 24) = unat soff + 24" using soff_step [OF wf l24] by simp
  have "read_type_name soff (h, f) = Some (Some (ent, type_name t), (h, f))"
    using item_read [OF wf l24] name_at_read [OF wf n] d can
    by (simp add: read_type_name_def sect_types_rd_type_def canonical_ctor_eq)
  moreover have "read_attrs (unat (attr_cnt ent)) (soff + 24) (type_ctor (type_name t) []) (h, f) = Some (Some t, (h, f))"
    using read_attrs_ok [OF wf, of "soff + 24" "attr_list t"] "as" u c
    by (simp add: type_ctor_def)
  moreover have "24 + attr_cnt ent * 24 = (word_of_nat (items_len t) :: u64)"
    using word_of_unat_eq [OF c] by (simp add: items_len_def algebra_simps)
  ultimately show ?thesis by (rule that)
qed

lemma sect_types_read_ok:
  assumes wf: "sect_wf (h, f)" and t: "type_at f h (unat soff) t"
  shows "\<exists>ent. sect_types_read soff (h, f) = Some (Some (t, ent, word_of_nat (items_len t)), (h, f))"
proof -
  obtain ent where "read_type_name soff (h, f) = Some (Some (ent, type_name t), (h, f))"
    "read_attrs (unat (attr_cnt ent)) (soff + 24) (type_ctor (type_name t) []) (h, f) = Some (Some t, (h, f))"
    "24 + attr_cnt ent * 24 = (word_of_nat (items_len t) :: u64)"
    by (rule read_type_parts [OF assms])
  then have "sect_types_read soff (h, f) = Some (Some (t, ent, word_of_nat (items_len t)), (h, f))"
    by (simp add: sect_types_read_def)
  then show ?thesis by (rule exI)
qed

text \<open>The offsets at which a list of types lies.\<close>

fun with_soffs :: "nat \<Rightarrow> Type list \<Rightarrow> (Sectoff \<times> Type) list" where
  "with_soffs soff [] = []"
| "with_soffs soff (t # ts) = (word_of_nat soff, t) # with_soffs (soff + items_len t) ts"

lemma types_load_loop_ok:
  assumes wf: "sect_wf (h, f)"
  shows "types_from f h (unat soff) ts \<Longrightarrow>
    types_load_loop soff col (h, f) = Some (Some (col @ with_soffs (unat soff) ts), (h, f))"
proof (induction ts arbitrary: soff col)
  case Nil
  then show ?case by (subst types_load_loop.simps) (simp add: word_less_nat_alt)
next
  case (Cons t ts)
  have l: "unat soff + items_len t \<le> unat (lst_itm_ptr h)" using Cons.prems by (simp add: type_at_def)
  then have less: "soff < lst_itm_ptr h" by (simp add: word_less_nat_alt items_len_def)
  obtain ent where r: "sect_types_read soff (h, f) = Some (Some (t, ent, word_of_nat (items_len t)), (h, f))"
    using sect_types_read_ok [OF wf] Cons.prems by auto
  have u: "unat (soff + word_of_nat (items_len t)) = unat soff + items_len t"
    using soff_step [OF wf l] .
  have "types_load_loop soff col (h, f) =
      types_load_loop (soff + word_of_nat (items_len t)) (col @ [(soff, t)]) (h, f)"
    using less r by (subst types_load_loop.simps) simp
  also have "\<dots> = Some (Some (col @ with_soffs (unat soff) (t # ts)), (h, f))"
    using Cons.IH [of "soff + word_of_nat (items_len t)"] Cons.prems u by simp
  finally show ?case .
qed

lemma sect_types_load_ok:
  assumes "sect_wf (h, f)" "types_from f h 32 ts"
  shows "sect_types_load (h, f) = Some (Some (with_soffs 32 ts), (h, f))"
  using types_load_loop_ok [OF assms(1), of 32 ts "[]"] assms(2) by (simp add: sect_types_load_def)

lemma find_named_none: "find_named name (with_soffs soff ts) = None \<longleftrightarrow> (\<forall>t \<in> set ts. string_cmp (type_name t) name \<noteq> 0)"
  by (induction ts arbitrary: soff) auto

lemma types_from_canonical: "types_from f h soff ts \<Longrightarrow> t \<in> set ts \<Longrightarrow> canonical (type_name t)"
  by (induction ts arbitrary: soff) (auto simp: type_at_def)

lemma find_named_some:
  "types_from f h soff ts \<Longrightarrow> canonical name \<Longrightarrow>
   map_option snd (find_named name (with_soffs soff ts)) = find (\<lambda>t. type_name t = name) ts"
proof (induction ts arbitrary: soff)
  case (Cons t ts)
  have "canonical (type_name t)" using Cons.prems(1) by (simp add: type_at_def)
  with Cons show ?case by (auto simp: string_cmp_zero_iff type_cpy_eq canonical_ctor_eq)
qed simp

text \<open>The offset that comes with it is the type's.\<close>

lemma types_from_le: "types_from f h soff ts \<Longrightarrow> soff \<le> unat (lst_itm_ptr h)"
  by (induction ts arbitrary: soff) (auto simp: type_at_def)

lemma find_named_at:
  assumes wf: "sect_wf (h, f)"
  shows "types_from f h soff ts \<Longrightarrow> find_named name (with_soffs soff ts) = Some (so, t) \<Longrightarrow> type_at f h (unat so) t"
proof (induction ts arbitrary: soff)
  case (Cons x xs)
  have "soff \<le> unat (lst_itm_ptr h)" using types_from_le [OF Cons.prems(1)] .
  moreover have "unat (lst_itm_ptr h) \<le> 8192" using wf by (auto simp: sect_wf_def)
  ultimately have "unat (word_of_nat soff :: u64) = soff" by (intro unat_of_nat_small) simp
  moreover have "type_at f h soff x" "canonical (type_name x)" using Cons.prems(1) by (auto simp: type_at_def)
  ultimately show ?case
    using Cons by (auto simp: type_cpy_eq canonical_ctor_eq split: if_splits)
qed simp

text \<open>Searching returns the first type of the name, as an equal copy, and changes nothing.\<close>

lemma sect_types_find_ok:
  assumes wf: "sect_wf (h, f)" and ts: "types_from f h 32 ts" and can: "canonical name"
  shows "\<exists>r. sect_types_find name (h, f) = Some (r, (h, f)) \<and> map_option snd r = find (\<lambda>t. type_name t = name) ts \<and>
    (\<forall>soff t. r = Some (soff, t) \<longrightarrow> type_at f h (unat soff) t)"
  using find_named_some [OF ts can] sect_types_load_ok [OF wf ts] find_named_at [OF wf ts]
  by (cases "find_named name (with_soffs 32 ts)") (auto simp: sect_types_find_def)

subsection \<open>Properties\<close>

text \<open>C21: \<open>sect_types_write\<close> on a section that holds the types \<open>ts\<close> either has room, and then the section
  holds \<open>ts\<close> followed by the new type, which is read back from the returned offset; or it refuses, and
  section and stream are as before.\<close>

theorem types_write_effect:
  assumes "sect_wf (h, f)" "types_from f h 32 ts" "canonical_type t"
    and "items_len t + names_len t < 18446744073709551616"
  shows "if type_fits h t then \<exists>h' f' ent sz. sect_types_write t (h, f) = Some (Some (lst_itm_ptr h), (h', f')) \<and>
      sect_step (h, f) (h', f') \<and> types_from f' h' 32 (ts @ [t]) \<and>
      sect_types_read (lst_itm_ptr h) (h', f') = Some (Some (t, ent, sz), (h', f'))
    else sect_types_write t (h, f) = Some (None, (h, f))"
proof (cases "type_fits h t")
  case True
  obtain h' f' where w: "sect_types_write t (h, f) = Some (Some (lst_itm_ptr h), (h', f'))" and g: "sgrow (h, f) (h', f')"
    and l: "unat (lst_itm_ptr h') = unat (lst_itm_ptr h) + items_len t" and t: "type_at f' h' (unat (lst_itm_ptr h)) t"
    using sect_types_write_ok [OF assms(1,3) True] by blast
  have "types_from f' h' 32 (ts @ [t])"
    by (rule types_from_append [OF assms(2) _ sgrowD(5) [OF g] t l]) simp
  moreover obtain ent where "sect_types_read (lst_itm_ptr h) (h', f') = Some (Some (t, ent, word_of_nat (items_len t)), (h', f'))"
    using sect_types_read_ok [OF sgrowD(2) [OF g] t] by blast
  ultimately show ?thesis using True w sgrowD(1) [OF g] by auto
next
  case False
  with sect_types_write_full [OF assms(1) False assms(4)] show ?thesis by simp
qed

definition small_type :: Type where
  "small_type = \<lparr>type_name = [116], attr_list = [attr_ctor [110] TYPE_INT32, attr_ctor [115] TYPE_STRING]\<rparr>"

theorem types_write_effect_witness:
  "\<exists>h' f' ent sz. sect_types_write small_type (sample_head, sample_stream) =
      Some (Some (lst_itm_ptr sample_head), (h', f')) \<and>
    sect_step (sample_head, sample_stream) (h', f') \<and> types_from f' h' 32 ([] @ [small_type]) \<and>
    sect_types_read (lst_itm_ptr sample_head) (h', f') = Some (Some (small_type, ent, sz), (h', f'))"
proof -
  have t: "canonical_type small_type" "items_len small_type + names_len small_type = 75"
    by (simp_all add: small_type_def canonical_type_def canonical_no_NUL attr_ctor_def items_len_def names_len_def)
  have "type_fits sample_head small_type" by (simp add: type_fits_def t(2))
  with types_write_effect [OF sample_sect_wf _ t(1), of "[]"] show ?thesis by (simp add: t(2))
qed

text \<open>On a section that holds the types \<open>ts\<close>, \<open>sect_types_load\<close> returns all of them in order and
  \<open>sect_types_find\<close> answers the first type of the given name, or \<open>FAILED\<close> when there is none; both leave
  section and stream as they were.\<close>

theorem types_find_first:
  assumes "sect_wf (h, f)" "types_from f h 32 ts" "canonical name"
  shows "(\<exists>l. sect_types_load (h, f) = Some (Some l, (h, f)) \<and> map snd l = ts) \<and>
    (\<exists>r. sect_types_find name (h, f) = Some (r, (h, f)) \<and>
       map_option snd r = find (\<lambda>t. type_name t = name) ts)"
proof -
  have "map snd (with_soffs soff ts) = ts" for soff
    by (induction ts arbitrary: soff) simp_all
  with sect_types_load_ok [OF assms(1,2)] sect_types_find_ok [OF assms] show ?thesis by blast
qed

theorem types_find_first_witness:
  "(\<exists>l. sect_types_load (sample_head, sample_stream) = Some (Some l, (sample_head, sample_stream)) \<and> map snd l = []) \<and>
    (\<exists>r. sect_types_find [116] (sample_head, sample_stream) = Some (r, (sample_head, sample_stream)) \<and>
       map_option snd r = find (\<lambda>t. type_name t = [116]) [])"
  by (rule types_find_first [OF sample_sect_wf]) (simp_all add: canonical_no_NUL)

end
