(* ===== verification/Type_Store.thy ===== *)
theory Type_Store
  imports Round_Trip Types_Spec
begin

text \<open>
  The types of a database. \<open>types_inv F tss\<close>: the \<open>i\<close>-th section of types holds the list \<open>tss ! i\<close>. A
  search returns the first type of a name over all sections, a type is added at the end of the first
  section with room or in a new section, and neither documents nor types disturb each other.
\<close>

subsection \<open>The abstraction\<close>

definition types_inv :: "File \<Rightarrow> Type list list \<Rightarrow> bool" where
  "types_inv F tss \<longleftrightarrow> file_inv F \<and> length tss = length (f_types F) \<and>
     (\<forall>i < length tss. types_from (filp F) (f_types F ! i) 32 (tss ! i))"

definition first_named :: "String \<Rightarrow> Type list list \<Rightarrow> Type option" where
  "first_named name tss = find (\<lambda>t. type_name t = name) (concat tss)"

lemma types_invD:
  assumes "types_inv F tss"
  shows "file_inv F" "length tss = length (f_types F)"
    "i < length (f_types F) \<Longrightarrow> types_from (filp F) (f_types F ! i) 32 (tss ! i)"
    "i < length (f_types F) \<Longrightarrow> sect_wf (f_types F ! i, filp F)"
  using assms file_invD(3) by (auto simp: types_inv_def)

lemma empty_db_types: "8 \<le> cap \<Longrightarrow> cap < LONG_LIMIT \<Longrightarrow> types_inv (empty_db cap) []"
  using empty_db_inv by (simp add: types_inv_def) (simp add: empty_db_def)

text \<open>Types stay where they are while their bytes do.\<close>

lemma keeps_same: "(\<And>i. i \<in> sect_alloc h \<Longrightarrow> fdata f' i = fdata f i) \<Longrightarrow> keeps (h, f) (h, f')"
  by (simp add: keeps_def)

lemma types_from_keeps:
  "types_from f h soff ts \<Longrightarrow> 32 \<le> soff \<Longrightarrow> keeps (h, f) (h, f') \<Longrightarrow> types_from f' h soff ts"
proof (induction ts arbitrary: soff)
  case (Cons t ts)
  have "type_at f' h soff t"
    by (rule type_at_grow [OF _ _ Cons.prems(3)]) (use Cons.prems in simp_all)
  with Cons show ?case by simp
qed simp

lemma types_keeps:
  assumes "types_inv F tss" "extends F F'" and i: "i < length (f_types F)"
  shows "keeps (f_types F ! i, filp F) (f_types F ! i, filp F')"
proof (rule keeps_same)
  have "sect_alloc (f_types F ! i) \<subseteq> protected F"
    using sect_alloc_bytes [OF types_invD(4) [OF assms(1) i]] i by (auto simp: protected_def)
  then show "fdata (filp F') b = fdata (filp F) b" if "b \<in> sect_alloc (f_types F ! i)" for b
    using assms(2) that by (auto simp: extends_def)
qed

lemma types_inv_extends:
  assumes "types_inv F tss" "extends F F'" "file_inv F'"
  shows "types_inv F' tss"
proof -
  note d = types_invD [OF assms(1)]
  have same: "f_types F' = f_types F" using assms(2) by (simp add: extends_def sects_grow_def)
  have "types_from (filp F') (f_types F ! i) 32 (tss ! i)" if i: "i < length (f_types F)" for i
    by (rule types_from_keeps [OF d(3) [OF i] _ types_keeps [OF assms(1,2) i]]) simp
  with assms(3) d(2) same show ?thesis by (simp add: types_inv_def)
qed

subsection \<open>Searching\<close>

lemma on_types_find:
  assumes "types_inv F tss" "canonical name" "i < length (f_types F)"
  shows "\<exists>r. on_types i (sect_types_find name) F = Some (r, F) \<and>
    map_option snd r = find (\<lambda>t. type_name t = name) (tss ! i) \<and>
    (\<forall>soff t. r = Some (soff, t) \<longrightarrow> type_at (filp F) (f_types F ! i) (unat soff) t)"
  using sect_types_find_ok [OF types_invD(4,3) [OF assms(1,3)] assms(2)] by (auto simp: on_types_def)

lemma find_append: "find P (xs @ ys) = (case find P xs of Some x \<Rightarrow> Some x | None \<Rightarrow> find P ys)"
  by (induction xs) auto

lemma find_type_in_ok:
  assumes inv: "types_inv F tss" and can: "canonical name"
  shows "\<forall>i \<in> set is. i < length (f_types F) \<Longrightarrow> \<exists>r. find_type_in is name F = Some (r, F) \<and>
    map_option (snd \<circ> snd) r = find (\<lambda>t. type_name t = name) (concat (map ((!) tss) is)) \<and>
    (\<forall>i soff t. r = Some (i, soff, t) \<longrightarrow> i < length (f_types F) \<and> type_at (filp F) (f_types F ! i) (unat soff) t)"
proof (induction "is")
  case (Cons i "is")
  obtain r where r: "on_types i (sect_types_find name) F = Some (r, F)"
    "map_option snd r = find (\<lambda>t. type_name t = name) (tss ! i)"
    "\<forall>soff t. r = Some (soff, t) \<longrightarrow> type_at (filp F) (f_types F ! i) (unat soff) t"
    using on_types_find [OF inv can, of i] Cons.prems by (meson list.set_intros(1))
  show ?case
  proof (cases r)
    case None
    with r Cons show ?thesis by (auto simp: find_append)
  next
    case (Some x)
    have "find (\<lambda>t. type_name t = name) (tss ! i) = Some (snd x)" using r(2) Some by simp
    then have "find (\<lambda>t. type_name t = name) (concat (map ((!) tss) (i # is))) = Some (snd x)"
      by (simp add: find_append)
    moreover have "find_type_in (i # is) name F = Some (Some (i, fst x, snd x), F)"
      using r(1) Some by (cases x) simp
    moreover have "type_at (filp F) (f_types F ! i) (unat (fst x)) (snd x)" using r(3) Some by (cases x) simp
    ultimately show ?thesis using Cons.prems by (intro exI [of _ "Some (i, fst x, snd x)"]) auto
  qed
qed simp

lemma file_find_type_ok:
  assumes "types_inv F tss" "canonical name"
  shows "\<exists>r. file_find_type name F = Some (r, F) \<and> map_option (snd \<circ> snd) r = first_named name tss \<and>
    (\<forall>i soff t. r = Some (i, soff, t) \<longrightarrow> i < length (f_types F) \<and> type_at (filp F) (f_types F ! i) (unat soff) t)"
proof -
  have "map ((!) tss) [0..<length (f_types F)] = tss"
    using types_invD(2) [OF assms(1)] by (metis map_nth)
  with find_type_in_ok [OF assms, of "[0..<length (f_types F)]"] show ?thesis
    by (auto simp: file_find_type_def first_named_def)
qed

text \<open>A type can be read back by the address of its entity.\<close>

lemma file_read_type_ok:
  assumes inv: "file_inv F" and i: "i < length (f_types F)" and t: "type_at (filp F) (f_types F ! i) (unat soff) t"
  shows "file_read_type (sect_head_get_fileoff (f_types F ! i) soff) F = Some (Some t, F)"
proof -
  let ?h = "f_types F ! i"
  have wf: "sect_wf (?h, filp F)" using file_invD(3) [OF inv] i by simp
  have s: "unat soff < 8192" using t wf by (auto simp: type_at_def items_len_def sect_wf_def)
  note a = fileoff_in_sect [OF wf s]
  have "get_sect_types F (sect_head_get_fileoff ?h soff) = Some i"
    using a(1) s by (intro get_sect_types_hit [OF inv i]) simp_all
  moreover obtain ent where "sect_types_read soff (?h, filp F) = Some (Some (t, ent, word_of_nat (items_len t)), (?h, filp F))"
    using sect_types_read_ok [OF wf t] by blast
  ultimately show ?thesis by (simp add: file_read_type_def on_types_def a(2))
qed

subsection \<open>Adding a type\<close>

text \<open>Every section of types has only grown.\<close>

definition types_kept :: "File \<Rightarrow> File \<Rightarrow> bool" where
  "types_kept F F' \<longleftrightarrow> length (f_types F) \<le> length (f_types F') \<and>
     (\<forall>i < length (f_types F). keeps (f_types F ! i, filp F) (f_types F' ! i, filp F'))"

lemma types_kept_trans:
  assumes "types_kept F F'" "types_kept F' F''"
  shows "types_kept F F''"
  unfolding types_kept_def
proof (intro conjI allI impI)
  show "length (f_types F) \<le> length (f_types F'')" using assms by (simp add: types_kept_def)
  fix i assume i: "i < length (f_types F)"
  then have "keeps (f_types F ! i, filp F) (f_types F' ! i, filp F')" using assms(1) by (simp add: types_kept_def)
  moreover have "keeps (f_types F' ! i, filp F') (f_types F'' ! i, filp F'')"
    using assms i by (simp add: types_kept_def)
  ultimately show "keeps (f_types F ! i, filp F) (f_types F'' ! i, filp F'')" by (rule keeps_trans)
qed

text \<open>The file after a section of types took a type: only that section changed.\<close>

definition docs_same :: "File \<Rightarrow> File \<Rightarrow> bool" where
  "docs_same F F' \<longleftrightarrow> f_extent F' = f_extent F \<and> fcap (filp F') = fcap (filp F) \<and>
     (\<forall>i \<in> ext_alloc F. fdata (filp F') i = fdata (filp F) i)"

lemma docs_same_refl [simp]: "docs_same F F"
  by (simp add: docs_same_def)

lemma docs_same_trans: "docs_same F F' \<Longrightarrow> docs_same F' F'' \<Longrightarrow> docs_same F F''"
  by (auto simp: docs_same_def ext_alloc_def)

text \<open>Documents are not disturbed by what happens to types.\<close>

lemma stored_docs_same:
  assumes "stored A F a dad tp j" "docs_same F F'" "A \<subseteq> ext_alloc F"
  shows "stored (ext_alloc F') F' a dad tp j"
proof (rule stored_transfer [OF assms(1)])
  show "A \<subseteq> ext_alloc F'" using assms(2,3) by (auto simp: docs_same_def ext_alloc_def)
next
  fix i assume "i \<in> A"
  with assms(2,3) show "fdata (filp F') i = fdata (filp F) i" by (auto simp: docs_same_def)
qed (use assms(2) in \<open>simp add: docs_same_def ext_grow_def\<close>)

definition type_added :: "Type \<Rightarrow> Type list list \<Rightarrow> Type list list \<Rightarrow> bool" where
  "type_added t tss tss' \<longleftrightarrow> (\<exists>i < length tss. tss' = tss[i := tss ! i @ [t]]) \<or> tss' = tss @ [[t]]"

lemma type_added_split:
  assumes "type_added t tss tss'"
  shows "\<exists>xs ys. concat tss = xs @ ys \<and> concat tss' = xs @ t # ys"
  using assms unfolding type_added_def
proof
  assume "\<exists>i < length tss. tss' = tss[i := tss ! i @ [t]]"
  then obtain i where i: "i < length tss" and t: "tss' = tss[i := tss ! i @ [t]]" by blast
  have "concat tss = (concat (take i tss) @ tss ! i) @ concat (drop (Suc i) tss)"
    by (subst id_take_nth_drop [OF i]) simp
  moreover have "concat tss' = (concat (take i tss) @ tss ! i) @ t # concat (drop (Suc i) tss)"
    unfolding t by (simp add: upd_conv_take_nth_drop [OF i])
  ultimately show ?thesis by blast
qed (auto intro: exI [of _ "concat tss"])

lemma first_named_added:
  assumes "type_added t tss tss'"
  shows "name \<noteq> type_name t \<Longrightarrow> first_named name tss' = first_named name tss"
    "first_named (type_name t) tss = None \<Longrightarrow> first_named (type_name t) tss' = Some t"
  using type_added_split [OF assms] by (auto simp: first_named_def find_append split: option.splits)

text \<open>A second type of the same name may hide the first one, when an earlier section had room for it.\<close>

lemma first_named_again:
  "type_added t tss tss' \<Longrightarrow> first_named (type_name t) tss' \<in> {Some t, first_named (type_name t) tss}"
  using type_added_split [of t tss tss'] by (auto simp: first_named_def find_append split: option.splits)

text \<open>A type goes into a section with room.\<close>

lemma on_types_write:
  assumes inv: "types_inv F tss" and i: "i < length (f_types F)" and can: "canonical_type t"
    and len: "items_len t + names_len t \<le> 8160"
  shows "\<not> type_fits (f_types F ! i) t \<Longrightarrow> on_types i (sect_types_write t) F = Some (None, F)"
    "type_fits (f_types F ! i) t \<Longrightarrow> \<exists>soff F'. on_types i (sect_types_write t) F = Some (Some soff, F') \<and>
       types_inv F' (tss[i := tss ! i @ [t]]) \<and> docs_same F F' \<and> types_kept F F' \<and> lst_sect_ptr F' = lst_sect_ptr F"
proof -
  let ?h = "f_types F ! i"
  note d = types_invD [OF inv]
  have wf: "sect_wf (?h, filp F)" using d(4) [OF i] .
  show "on_types i (sect_types_write t) F = Some (None, F)" if "\<not> type_fits ?h t"
    using sect_types_write_full [OF wf that] len by (simp add: on_types_def)
  assume "type_fits ?h t"
  then obtain h' f' where w: "sect_types_write t (?h, filp F) = Some (Some (lst_itm_ptr ?h), (h', f'))"
    and g: "sgrow (?h, filp F) (h', f')" and l: "unat (lst_itm_ptr h') = unat (lst_itm_ptr ?h) + items_len t"
    and ty: "type_at f' h' (unat (lst_itm_ptr ?h)) t"
    using sect_types_write_ok [OF wf can] by blast
  let ?F = "F\<lparr>filp := f', f_types := (f_types F)[i := h']\<rparr>"
  note st = sgrowD(1) [OF g]
  have "on_types i (sect_types_write t) F = Some (Some (lst_itm_ptr ?h), ?F)"
    using w by (simp add: on_types_def)
  moreover have kp: "keeps (f_types F ! j, filp F) ((f_types F)[i := h'] ! j, f')" if j: "j < length (f_types F)" for j
  proof (cases "j = i")
    case True
    then show ?thesis using sgrowD(5) [OF g] i by simp
  next
    case False
    let ?n = "length (f_extent F)"
    have "apart (unat (file_offset (f_types F ! j))) (unat (file_offset ?h))"
      using sects_apart [OF d(1), of "?n + j" "?n + i"] i j False by (simp add: sects_def)
    then have "sect_bytes (f_types F ! j) \<inter> sect_bytes ?h = {}" by (rule sect_bytes_disjoint)
    then have "fdata f' b = fdata (filp F) b" if "b \<in> sect_alloc (f_types F ! j)" for b
      using that sect_alloc_bytes [OF d(4) [OF j]] sect_stepD(5) [OF st, of b] by (fastforce simp: sect_bytes_def)
    from keeps_same [OF this] False show ?thesis by simp
  qed
  moreover have "types_inv ?F (tss[i := tss ! i @ [t]])"
  proof -
    have "types_from f' ((f_types F)[i := h'] ! j) 32 (tss[i := tss ! i @ [t]] ! j)" if j: "j < length (f_types F)" for j
    proof (cases "j = i")
      case True
      then show ?thesis
        using types_from_append [OF d(3) [OF i] _ sgrowD(5) [OF g] ty l] i d(2) by simp
    next
      case False
      with types_from_keeps [OF d(3) [OF j], of f'] kp [OF j] show ?thesis by simp
    qed
    with file_inv_types [OF d(1) i st] d(2) show ?thesis by (simp add: types_inv_def)
  qed
  moreover have "docs_same F ?F"
  proof -
    have "fdata f' b = fdata (filp F) b" if "b \<in> ext_alloc F" for b
    proof -
      obtain h where h: "h \<in> set (f_extent F)" "b \<in> sect_alloc h" using \<open>b \<in> ext_alloc F\<close> by (auto simp: ext_alloc_def)
      have "sect_bytes h \<inter> sect_bytes ?h = {}"
        using ext_types_apart [OF d(1) h(1)] i by (intro sect_bytes_disjoint) simp
      with h sect_alloc_bytes [OF file_invD(2) [OF d(1) h(1)]] sect_stepD(5) [OF st, of b]
      show ?thesis by (fastforce simp: sect_bytes_def)
    qed
    with sect_stepD(3) [OF st] show ?thesis by (simp add: docs_same_def)
  qed
  ultimately show "\<exists>soff F'. on_types i (sect_types_write t) F = Some (Some soff, F') \<and>
       types_inv F' (tss[i := tss ! i @ [t]]) \<and> docs_same F F' \<and> types_kept F F' \<and> lst_sect_ptr F' = lst_sect_ptr F"
    by (intro exI [of _ ?F] exI [of _ "lst_itm_ptr ?h"]) (simp add: types_kept_def)
qed

lemma add_type_in_ok:
  assumes inv: "types_inv F tss" and can: "canonical_type t" and len: "items_len t + names_len t \<le> 8160"
  shows "\<forall>i \<in> set is. i < length (f_types F) \<Longrightarrow> add_type_in is t F = Some (Some None, F) \<or>
    (\<exists>i soff F'. i < length (f_types F) \<and> add_type_in is t F = Some (Some (Some (i, soff)), F') \<and>
       types_inv F' (tss[i := tss ! i @ [t]]) \<and> docs_same F F' \<and> types_kept F F' \<and> lst_sect_ptr F' = lst_sect_ptr F)"
proof (induction "is")
  case (Cons i "is")
  then have i: "i < length (f_types F)" by simp
  note w = on_types_write [OF inv i can len]
  show ?case
  proof (cases "type_fits (f_types F ! i) t")
    case True
    then obtain soff F' where "on_types i (sect_types_write t) F = Some (Some soff, F')"
      "types_inv F' (tss[i := tss ! i @ [t]])" "docs_same F F'" "types_kept F F'" "lst_sect_ptr F' = lst_sect_ptr F"
      using w(2) by blast
    with i show ?thesis by auto
  next
    case False
    then have "add_type_in (i # is) t F = add_type_in is t F" using w(1) by simp
    with Cons show ?thesis by auto
  qed
qed simp

lemma add_types_ok:
  assumes inv: "types_inv F tss" and room: "room_for_sect F"
  shows "types_inv (add_types F) (tss @ [[]])" "docs_same F (add_types F)" "types_kept F (add_types F)"
proof -
  note d = types_invD [OF inv]
  have same: "fdata (added_filp F) b = fdata (filp F) b" if "h \<in> set (sects F)" "b \<in> sect_bytes h" for h b
    using file_invD(8) [OF d(1) that(1)] that(2) by (intro fdata_added) (auto simp: sect_bytes_def)
  have kp: "keeps (f_types F ! i, filp F) (f_types F ! i, added_filp F)" if j: "i < length (f_types F)" for i
  proof (rule keeps_same)
    fix b assume "b \<in> sect_alloc (f_types F ! i)"
    then have "b \<in> sect_bytes (f_types F ! i)" using sect_alloc_bytes [OF d(4) [OF j]] by blast
    with j show "fdata (added_filp F) b = fdata (filp F) b" by (intro same) (simp_all add: sects_def)
  qed
  then show "types_kept F (add_types F)" by (simp add: types_kept_def add_types_def nth_append)
  have "types_from (added_filp F) ((f_types F @ [fresh_head (lst_sect_ptr F)]) ! i) 32 ((tss @ [[]]) ! i)"
    if i: "i < Suc (length tss)" for i
  proof (cases "i = length tss")
    case True
    then show ?thesis by (simp add: d(2) nth_append) (simp add: fresh_head_def)
  next
    case False
    then have j: "i < length (f_types F)" using i d(2) by simp
    have "types_from (added_filp F) (f_types F ! i) 32 (tss ! i)"
      by (rule types_from_keeps [OF d(3) [OF j] _ kp [OF j]]) simp
    with j d(2) show ?thesis by (simp add: nth_append)
  qed
  with add_types_inv [OF d(1) room] d(2) show "types_inv (add_types F) (tss @ [[]])"
    by (simp add: types_inv_def) (simp add: add_types_def)
  have "fdata (added_filp F) b = fdata (filp F) b" if "b \<in> ext_alloc F" for b
    using that same sect_alloc_bytes [OF file_invD(2) [OF d(1)]] by (force simp: ext_alloc_def sects_def)
  then show "docs_same F (add_types F)" by (simp add: docs_same_def add_types_def)
qed

lemma file_add_type_ok:
  assumes inv: "types_inv F tss" and can: "canonical_type t" and len: "items_len t + names_len t \<le> 8160"
    and room: "room_for_sect F"
  shows "\<exists>foff F' tss'. file_add_type t F = Some (Some foff, F') \<and> types_inv F' tss' \<and>
    type_added t tss tss' \<and> docs_same F F' \<and> types_kept F F' \<and> unat (lst_sect_ptr F') \<le> unat (lst_sect_ptr F) + 8192"
proof -
  note d = types_invD [OF inv]
  have "\<forall>i \<in> set [0..<length (f_types F)]. i < length (f_types F)" by simp
  then consider (old) i soff F' where "i < length (f_types F)"
      "add_type_in [0..<length (f_types F)] t F = Some (Some (Some (i, soff)), F')"
      "types_inv F' (tss[i := tss ! i @ [t]])" "docs_same F F'" "types_kept F F'" "lst_sect_ptr F' = lst_sect_ptr F"
    | (new) "add_type_in [0..<length (f_types F)] t F = Some (Some None, F)"
    using add_type_in_ok [OF inv can len] by blast
  then show ?thesis
  proof cases
    case old
    have "file_head_sync F' = Some (Some (), F')" using file_head_sync_inv types_invD(1) [OF old(3)] by blast
    with old(2) have "file_add_type t F = Some (Some (sect_head_get_fileoff (f_types F' ! i) soff), F')"
      by (simp add: file_add_type_def)
    moreover have "type_added t tss (tss[i := tss ! i @ [t]])"
      using old(1) d(2) by (auto simp: type_added_def)
    moreover have "unat (lst_sect_ptr F') \<le> unat (lst_sect_ptr F) + 8192" using old(6) by simp
    ultimately show ?thesis using old(3-5) by blast
  next
    case new
    let ?G = "add_types F" and ?n = "length (f_types F)"
    note g = add_types_ok [OF inv room]
    have n: "?n < length (f_types ?G)" by (simp add: add_types_def)
    have "type_fits (f_types ?G ! ?n) t"
      using len by (simp add: add_types_def type_fits_def fresh_head_def)
    then obtain soff F' where w: "on_types ?n (sect_types_write t) ?G = Some (Some soff, F')"
      "types_inv F' ((tss @ [[]])[?n := (tss @ [[]]) ! ?n @ [t]])" "docs_same ?G F'" "types_kept ?G F'" "lst_sect_ptr F' = lst_sect_ptr ?G"
      using on_types_write(2) [OF g(1) n can len] by blast
    have "(tss @ [[]])[?n := (tss @ [[]]) ! ?n @ [t]] = tss @ [[t]]"
      by (simp add: list_update_append nth_append flip: d(2))
    with w(2) have inv': "types_inv F' (tss @ [[t]])" by simp
    have "file_add_type t F = Some (Some (sect_head_get_fileoff (f_types F' ! ?n) soff), F')"
      using new w(1) file_add_sect_types_ok [OF d(1) room] file_head_sync_inv [OF types_invD(1) [OF inv']]
      by (simp add: file_add_type_def)
    moreover have "type_added t tss (tss @ [[t]])" by (simp add: type_added_def)
    moreover have "unat (lst_sect_ptr F') \<le> unat (lst_sect_ptr F) + 8192"
      using w(5) added_facts(1) [OF d(1) room] by (simp add: add_types_def)
    ultimately show ?thesis using inv' docs_same_trans [OF g(2) w(3)] types_kept_trans [OF g(3) w(4)] by blast
  qed
qed

end
