(* ===== verification/User_Spec.thy ===== *)
theory User_Spec
  imports User Type_Store
begin

text \<open>
  What the database's interface promises about types and inserted documents, over the abstraction
  \<open>types_inv\<close> of the types and \<open>stored\<close> of the documents.
\<close>

subsection \<open>Types\<close>

lemma user_read_type_ok:
  assumes "types_inv F tss" "canonical name"
  shows "user_read_type name F = Some (first_named name tss, F)"
proof -
  obtain r where "file_find_type name F = Some (r, F)" "map_option (snd \<circ> snd) r = first_named name tss"
    using file_find_type_ok [OF assms] by blast
  then show ?thesis by (cases r) (auto simp: user_read_type_def)
qed

lemma user_add_type_kept:
  assumes "types_inv F tss" "canonical_type t" "items_len t + names_len t \<le> 8160" "room_for_sect F"
  shows "\<exists>F' tss'. user_add_type t F = Some (Some (), F') \<and> types_inv F' tss' \<and> type_added t tss tss' \<and>
    docs_same F F' \<and> types_kept F F' \<and> unat (lst_sect_ptr F') \<le> unat (lst_sect_ptr F) + 8192"
proof -
  obtain foff F' tss' where "file_add_type t F = Some (Some foff, F')" "types_inv F' tss'" "type_added t tss tss'"
    "docs_same F F'" "types_kept F F'" "unat (lst_sect_ptr F') \<le> unat (lst_sect_ptr F) + 8192"
    using file_add_type_ok [OF assms] by blast
  moreover from this(1) have "user_add_type t F = Some (Some (), F')" by (simp add: user_add_type_def)
  ultimately show ?thesis by blast
qed

lemma user_add_type_ok:
  assumes "types_inv F tss" "canonical_type t" "items_len t + names_len t \<le> 8160" "room_for_sect F"
  shows "\<exists>F' tss'. user_add_type t F = Some (Some (), F') \<and> types_inv F' tss' \<and>
    type_added t tss tss' \<and> docs_same F F' \<and> unat (lst_sect_ptr F') \<le> unat (lst_sect_ptr F) + 8192"
  using user_add_type_kept [OF assms] by blast

lemma stored_docs_read:
  assumes "file_inv F'" "docs_same F F'" "stored (ext_alloc F) F a dad tp j" "json_ok j"
  shows "\<exists>j' e. file_read a F' = Some (Some (j', e), F') \<and> doc_of j' = doc_of j"
  using file_read_stored [OF assms(1) stored_docs_same [OF assms(3,2) subset_refl] assms(4)] by blast

subsection \<open>Inserting\<close>

lemma user_write_unknown:
  assumes "types_inv F tss" "canonical tname" "first_named tname tss = None"
  shows "user_write j tname F = Some (None, F)"
proof -
  obtain r where "file_find_type tname F = Some (r, F)" "map_option (snd \<circ> snd) r = None"
    using file_find_type_ok [OF assms(1,2)] assms(3) by metis
  then show ?thesis by (simp add: user_write_def)
qed

lemma user_write_known:
  assumes "types_inv F tss" "canonical tname" "first_named tname tss = Some t"
  shows "\<exists>i soff. i < length (f_types F) \<and> type_at (filp F) (f_types F ! i) (unat soff) t \<and>
    user_write j tname F =
      (if json_is_apply_type j t = OK
       then DO_OR_FAIL (file_write j 0 (sect_head_get_fileoff (f_types F ! i) soff)) (\<lambda>_. ret ()) F
       else Some (None, F))"
proof -
  obtain r where r: "file_find_type tname F = Some (r, F)" "map_option (snd \<circ> snd) r = Some t"
    "\<forall>i soff t. r = Some (i, soff, t) \<longrightarrow> i < length (f_types F) \<and> type_at (filp F) (f_types F ! i) (unat soff) t"
    using file_find_type_ok [OF assms(1,2)] assms(3) by metis
  then obtain i soff where "r = Some (i, soff, t)" by (cases r) auto
  with r show ?thesis by (auto simp: user_write_def)
qed

lemma user_write_post:
  assumes "types_inv F tss" "canonical tname" "first_named tname tss = Some t"
    and "json_is_apply_type j t = OK" "json_ok j" "room_for (json_nodes j) F"
  shows "\<exists>F' a i soff. user_write j tname F = Some (Some (), F') \<and> i < length (f_types F) \<and>
    type_at (filp F) (f_types F ! i) (unat soff) t \<and>
    write_post j 0 (sect_head_get_fileoff (f_types F ! i) soff) F a F'"
proof -
  obtain i soff where i: "i < length (f_types F)" and t: "type_at (filp F) (f_types F ! i) (unat soff) t"
    and w: "user_write j tname F = DO_OR_FAIL (file_write j 0 (sect_head_get_fileoff (f_types F ! i) soff)) (\<lambda>_. ret ()) F"
    using user_write_known [OF assms(1-3), of j] assms(4) by auto
  obtain a F' where fw: "file_write j 0 (sect_head_get_fileoff (f_types F ! i) soff) F = Some (Some a, F')"
    and p: "write_post j 0 (sect_head_get_fileoff (f_types F ! i) soff) F a F'"
    using file_write_post [OF types_invD(1) [OF assms(1)] assms(5,6)] by blast
  have "user_write j tname F = Some (Some (), F')" using w fw by simp
  with i t p show ?thesis by blast
qed

lemma user_write_ok:
  assumes inv: "types_inv F tss" and "canonical tname" "first_named tname tss = Some t"
    and "json_is_apply_type j t = OK" and j: "json_ok j" "room_for (json_nodes j) F"
  shows "\<exists>F' a j' e. user_write j tname F = Some (Some (), F') \<and> types_inv F' tss \<and> extends F F' \<and>
    file_read a F' = Some (Some (j', e), F') \<and> doc_of j' = doc_of j \<and> jfoff j' = a \<and>
    dad_ptr (fam_addr e) = 0 \<and> file_read_type (type_ptr e) F' = Some (Some t, F')"
proof -
  obtain F' a i soff where w: "user_write j tname F = Some (Some (), F')" and i: "i < length (f_types F)"
    and t: "type_at (filp F) (f_types F ! i) (unat soff) t"
    and p: "write_post j 0 (sect_head_get_fileoff (f_types F ! i) soff) F a F'"
    using user_write_post [OF assms] by blast
  define tp where "tp = sect_head_get_fileoff (f_types F ! i) soff"
  have inv': "file_inv F'" and ext: "extends F F'" and st: "stored (ext_alloc F' - ext_alloc F) F' a 0 tp j"
    using p by (simp_all add: write_post_def tp_def)
  have tinv: "types_inv F' tss" using inv ext inv' by (rule types_inv_extends)
  obtain j' e where rd: "file_read a F' = Some (Some (j', e), F')" "doc_of j' = doc_of j" "jfoff j' = a"
    "dad_ptr (fam_addr e) = 0" "type_ptr e = tp"
    using file_read_stored [OF inv' st j(1)] by blast
  have k: "keeps (f_types F ! i, filp F) (f_types F ! i, filp F')"
    using inv ext i by (rule types_keeps)
  have types: "f_types F' = f_types F" using ext by (simp add: extends_def sects_grow_def)
  have "type_at (filp F') (f_types F' ! i) (unat soff) t"
    using type_at_grow [OF t _ k] t types by (simp add: type_at_def)
  then have "file_read_type tp F' = Some (Some t, F')"
    using file_read_type_ok [OF inv', of i soff t] i types by (simp add: tp_def)
  then have rt: "file_read_type (type_ptr e) F' = Some (Some t, F')" by (simp only: rd(5))
  with w tinv ext rd(1-4) show ?thesis by blast
qed

subsection \<open>Properties\<close>

text \<open>Opening a file with room for its header gives an empty database: the file invariant holds, no
  document is stored, every type lookup fails, and deleting or reading through any query finds nothing.\<close>

theorem open_empty:
  assumes "8 \<le> cap" "cap < LONG_LIMIT"
  shows "\<exists>F. user_open_file cap = Some F \<and> types_inv F [] \<and> ext_alloc F = {} \<and>
    (\<forall>name. canonical name \<longrightarrow> user_read_type name F = Some (None, F)) \<and>
    (\<forall>q. user_delete q F = Some (Some (), F)) \<and>
    (\<forall>q. \<exists>it. user_read q F = Some (Some it, F) \<and> \<not> iter_is_avail it)"
proof -
  have open_eq: "user_open_file cap = Some (empty_db cap)"
    by (simp add: user_open_file_def file_ctor_fopen [OF assms] file_new_def empty_db_def)
  have inv: "types_inv (empty_db cap) []" using empty_db_types [OF assms] .
  have it: "iter_ctor q (empty_db cap) = Some (Some \<lparr>it_query = q, cur_col = [], cur_sect = None\<rparr>, empty_db cap)" for q
    by (simp add: iter_ctor_def empty_db_def)
  have "user_delete q (empty_db cap) = Some (Some (), empty_db cap)" for q
    using it [of q] by (simp add: user_delete_def delete_loop.simps iter_is_avail_def)
  moreover have "\<exists>it. user_read q (empty_db cap) = Some (Some it, empty_db cap) \<and> \<not> iter_is_avail it" for q
    using it [of q] by (simp add: user_read_def iter_is_avail_def)
  moreover have "ext_alloc (empty_db cap) = {}" by (simp add: ext_alloc_def empty_db_def)
  ultimately show ?thesis
    using open_eq inv user_read_type_ok [OF inv] by (simp add: first_named_def)
qed

theorem open_empty_witness:
  "\<exists>F. user_open_file 100000 = Some F \<and> types_inv F [] \<and> ext_alloc F = {} \<and>
    (\<forall>name. canonical name \<longrightarrow> user_read_type name F = Some (None, F)) \<and>
    (\<forall>q. user_delete q F = Some (Some (), F)) \<and>
    (\<forall>q. \<exists>it. user_read q F = Some (Some it, F) \<and> \<not> iter_is_avail it)"
  by (rule open_empty) simp_all

end
