(* ===== verification/Server.thy ===== *)
theory Server
  imports Wire User_Spec
begin

text \<open>
  \<^verbatim>\<open>dbms/include/network/\<close>: \<^verbatim>\<open>request.hpp\<close> turns a message into a command of the database, \<^verbatim>\<open>driver.hpp\<close>
  runs it on the one open file and collects the documents it yields, \<^verbatim>\<open>response.hpp\<close> and
  \<^verbatim>\<open>dbms_server.hpp\<close> turn the outcome into the answer. Printing requests and responses is left out,
  except where it reads memory the model knows about.
\<close>

subsection \<open>Requests: request.hpp\<close>

definition server_json :: "PJson \<Rightarrow> Json_type NJson option" where
  "server_json = unwire_json type_cast"

definition ConditionalItem_ctor :: "PConditionalItem \<Rightarrow> (Json_type, Cmp) ConditionalItem option" where
  "ConditionalItem_ctor p =
     Option.bind (type_cast (pc_type p)) (\<lambda>t.
     Option.bind (cmp_cast (pc_cmp p)) (\<lambda>c.
     Some \<lparr>ci_type = t, ci_key = pc_key p, ci_cmp = c, ci_int32 = pc_int32 p, ci_float = pc_float p,
           ci_string = pc_string p, ci_bool = pc_bool p\<rparr>))"

fun items_ctor :: "PConditionalItem list \<Rightarrow> (Json_type, Cmp) ConditionalItem list option" where
  "items_ctor [] = Some []"
| "items_ctor (p # ps) =
     Option.bind (ConditionalItem_ctor p) (\<lambda>c. Option.bind (items_ctor ps) (\<lambda>cs. Some (c # cs)))"

definition Conditional_ctor :: "PConditional \<Rightarrow> (Json_type, Cmp) Conditional option" where
  "Conditional_ctor p = map_option (\<lambda>cs. \<lparr>conditionals = cs\<rparr>) (items_ctor (pc_conditionals p))"

definition Request_ctor :: "POperationRequest \<Rightarrow> (CommandType, Json_type, Cmp) Request option" where
  "Request_ctor p =
     Option.bind (command_cast (po_operationType p)) (\<lambda>c.
     Option.bind (Conditional_ctor (case po_query p of None \<Rightarrow> default_PConditional | Some q \<Rightarrow> q)) (\<lambda>q.
     Option.bind (server_json (case po_json p of None \<Rightarrow> default_PJson | Some j \<Rightarrow> j)) (\<lambda>j.
     Some \<lparr>r_type = c, r_type_name = po_typeName p, r_query = Some q, r_json = Some j\<rparr>)))"

subsection \<open>Commands\<close>

text \<open>
  Both values of the union are assigned one after the other: \<^verbatim>\<open>int32_val\<close>, then \<^verbatim>\<open>float_val\<close> over the
  same four bytes, then \<^verbatim>\<open>bool_val\<close> over the lowest one.
\<close>

definition put_low32 :: "u32 \<Rightarrow> u64 \<Rightarrow> u64" where
  "put_low32 x w = (w AND NOT (mask 32)) OR ucast x"

definition put_low8 :: "u8 \<Rightarrow> u64 \<Rightarrow> u64" where
  "put_low8 x w = (w AND NOT (mask 8)) OR ucast x"

definition union_value :: "Json_type \<Rightarrow> u32 \<Rightarrow> u32 \<Rightarrow> u8 list \<Rightarrow> bool \<Rightarrow> jvalue" where
  "union_value t i f s b =
     (if t = TYPE_STRING then VStr (string_ctor s)
      else if t \<noteq> TYPE_OBJECT then VRaw (put_low8 (if b then 1 else 0) (put_low32 f (put_low32 i 0)))
      else VRaw 0)"

text \<open>
  \<^verbatim>\<open>operator ::Json *\<close>. The parent pointer is left out, as in theory \<open>Json_Tree\<close>: nothing on the way of a
  command reads it.
\<close>

fun c_json :: "Json_type NJson \<Rightarrow> Json" where
  "c_json (NJson t k i f s b dad bro son) =
     Json (string_ctor k) (union_value t i f s b) t
       (case bro of None \<Rightarrow> None | Some j \<Rightarrow> Some (c_json j))
       (case son of None \<Rightarrow> None | Some j \<Rightarrow> Some (c_json j)) None 0"

definition toListPath :: "u8 list list \<Rightarrow> String list" where
  "toListPath = map string_ctor"

definition c_query_item :: "(Json_type, Cmp) ConditionalItem \<Rightarrow> Query_item" where
  "c_query_item ci =
     (query_item_ctor (ci_type ci) (toListPath (ci_key ci)) (ci_cmp ci))
       \<lparr>query_val := union_value (ci_type ci) (ci_int32 ci) (ci_float ci) (ci_string ci) (ci_bool ci)\<rparr>"

text \<open>\<^verbatim>\<open>operator ::Query *\<close>: \<^verbatim>\<open>query_new\<close> without \<^verbatim>\<open>query_ctor\<close>.\<close>

definition c_query :: "(Json_type, Cmp) Conditional \<Rightarrow> Query" where
  "c_query c = fold (\<lambda>ci q. query_item_add q (c_query_item ci)) (conditionals c) query_new"

text \<open>
  \<^verbatim>\<open>operator Command\<close>. Without a query or a document, which the constructor above never leaves out, the
  member of the command stays uninitialised.
\<close>

definition c_command :: "(CommandType, Json_type, Cmp) Request \<Rightarrow> Command option" where
  "c_command r =
     (case (r_query r, r_json r) of
        (Some q, Some j) \<Rightarrow> Some \<lparr>cmd_type = r_type r, cmd_type_name = string_ctor (r_type_name r),
           cmd_query = c_query q, cmd_json = c_json j\<rparr>
      | _ \<Rightarrow> None)"

subsection \<open>Documents read: Json(const ::Json \&)\<close>

text \<open>
  \<^verbatim>\<open>float_val_\<close> and \<^verbatim>\<open>bool_val_\<close> have no initialiser: for text and objects they hold whatever the memory
  held, the parameters \<open>gf\<close> and \<open>gb\<close>. For the other types all three members are read from the union.
\<close>

fun n_json :: "u32 \<Rightarrow> bool \<Rightarrow> Json \<Rightarrow> Json_type NJson option" where
  "n_json gf gb (Json k v t b s n a) =
     Option.bind
       (if t = TYPE_STRING then map_option (\<lambda>x. (0, gf, x, gb)) (string_val v)
        else if t \<noteq> TYPE_OBJECT then
          Option.bind (float_val v) (\<lambda>x. Option.bind (bool_val v) (\<lambda>y. Some (x, x, [], y)))
        else Some (0, gf, [], gb)) (\<lambda>(iv, fv, sv, bv).
     Option.bind (opt_all (case b of None \<Rightarrow> None | Some j \<Rightarrow> Some (n_json gf gb j))) (\<lambda>bro.
     Option.bind (opt_all (case s of None \<Rightarrow> None | Some j \<Rightarrow> Some (n_json gf gb j))) (\<lambda>son.
     Some (NJson t k iv fv sv bv None bro son))))"

subsection \<open>Execution: driver.hpp, dbms_server.hpp\<close>

record Response =
  rs_status :: Status
  rs_collection :: "Json_type NJson list"

text \<open>
  The loop over the iterator. Printing \<^verbatim>\<open>key->val\<close> as a C string needs a terminating NUL in the buffer.
\<close>

partial_function (option) collect_loop ::
    "u32 \<Rightarrow> bool \<Rightarrow> Iter \<Rightarrow> Json_type NJson list \<Rightarrow> File \<Rightarrow> (Json_type NJson list option \<times> File) option" where
  "collect_loop gf gb it acc F =
     (if iter_is_avail it
      then DO_OR_FAIL (defined (c_str (jkey (iter_get_json it)))) (\<lambda>_.
           DO_OR_FAIL (defined (n_json gf gb (iter_get_json it))) (\<lambda>j.
           DO_OR_FAIL (iter_next it) (\<lambda>it'. collect_loop gf gb it' (acc @ [j]))))
      else ret acc) F"

text \<open>
  \<^verbatim>\<open>Driver::execute\<close>: add a type of the given name without attributes, apply the command, collect. The
  name goes through \<^verbatim>\<open>c_str()\<close> and \<^verbatim>\<open>strlen\<close>. The status of adding the type is ignored, and only a \<^verbatim>\<open>READ\<close>
  sets the iterator, which is a null pointer otherwise.
\<close>

definition type_of_name :: "u8 list \<Rightarrow> Type" where
  "type_of_name name = type_ctor (string_ctor (takeWhile (\<lambda>b. b \<noteq> 0) name)) []"

definition execute :: "u32 \<Rightarrow> bool \<Rightarrow> (CommandType, Json_type, Cmp) Request \<Rightarrow> (File, Response) prog" where
  "execute gf gb r =
     DO_OR_FAIL (attempt (user_add_type (type_of_name (r_type_name r)))) (\<lambda>_.
     DO_OR_FAIL (defined (c_command r)) (\<lambda>cmd.
     DO_OR_FAIL (attempt (user_apply cmd)) (\<lambda>res.
     let status = (case res of None \<Rightarrow> FAILED | Some _ \<Rightarrow> OK) in
     DO_OR_FAIL (case res of Some (Some it) \<Rightarrow> collect_loop gf gb it [] | _ \<Rightarrow> ret []) (\<lambda>col.
     ret \<lparr>rs_status = status, rs_collection = col\<rparr>))))"

definition wire_response :: "Response \<Rightarrow> POperationResponse" where
  "wire_response r = \<lparr>pr_status = status_num (rs_status r), pr_collection = map (wire_json type_num) (rs_collection r)\<rparr>"

text \<open>The remote procedure \<^verbatim>\<open>Apply\<close>.\<close>

definition Apply :: "u32 \<Rightarrow> bool \<Rightarrow> POperationRequest \<Rightarrow> (File, POperationResponse) prog" where
  "Apply gf gb req =
     DO_OR_FAIL (defined (Request_ctor req)) (\<lambda>request.
     DO_OR_FAIL (execute gf gb request) (\<lambda>resp.
     ret (wire_response resp)))"

subsection \<open>What a command carries\<close>

lemma put_low32_0: "put_low32 f (put_low32 i 0) = ucast f"
  by (rule bit_word_eqI) (auto simp: put_low32_def bit_simps dest: bit_imp_le_length)

text \<open>The value of the union after the three assignments: the float with its lowest byte replaced.\<close>

lemma union_value_number:
  assumes "t \<noteq> TYPE_STRING" "t \<noteq> TYPE_OBJECT"
  shows "union_value t i f s b = VRaw (put_low8 (if b then 1 else 0) (ucast f))"
  using assms by (simp add: union_value_def put_low32_0)

lemma union_value_bool:
  assumes "t \<noteq> TYPE_STRING" "t \<noteq> TYPE_OBJECT"
  shows "bool_val (union_value t i f s b) = Some b"
proof -
  have "ucast (put_low8 x w) = x" for x w
    by (rule bit_word_eqI) (auto simp: put_low8_def bit_simps)
  then show ?thesis by (simp add: union_value_number [OF assms] Let_def)
qed

lemma val_ok_union: "val_ok t (union_value t i f s b)"
  by (cases t) (simp_all add: union_value_def val_ok_def)

fun n_fits :: "Json_type NJson \<Rightarrow> bool" where
  "n_fits (NJson t k i f s b dad bro son) \<longleftrightarrow>
     length k + (if t = TYPE_STRING then length s else if t = TYPE_OBJECT then 0 else 8) \<le> 8080 \<and>
     (case bro of None \<Rightarrow> True | Some j \<Rightarrow> n_fits j) \<and> (case son of None \<Rightarrow> True | Some j \<Rightarrow> n_fits j)"

lemma length_union_value:
  "length (val_bytes t (union_value t i f s b)) =
    (if t = TYPE_STRING then length s else if t = TYPE_OBJECT then 0 else 8)"
  by (cases t) (simp_all add: union_value_def)

lemma json_ok_c_json: "n_fits j \<Longrightarrow> json_ok (c_json j)"
  by (induction j) (auto simp: val_ok_union length_union_value split: option.splits)

lemma apply_no_attrs: "attr_list t = [] \<Longrightarrow> json_is_apply_type j t = OK"
  by (cases "json_son j") (simp_all add: json_is_apply_type_def)

lemma c_query_item_checks:
  "q_type_name (c_query c) = None \<and> set (f_query_itm (c_query c)) = c_query_item ` set (conditionals c)"
proof -
  have "q_type_name (fold (\<lambda>ci q. query_item_add q (c_query_item ci)) cs q) = q_type_name q \<and>
      set (f_query_itm (fold (\<lambda>ci q. query_item_add q (c_query_item ci)) cs q)) =
        c_query_item ` set cs \<union> set (f_query_itm q)" for cs q
    by (induction cs arbitrary: q) (auto simp: set_query_item_add)
  then show ?thesis by (simp add: c_query_def query_new_def)
qed

lemma c_query_True:
  "query_check (c_query c) j name = Some True \<longleftrightarrow>
     (\<forall>ci \<in> set (conditionals c). query_item_check (c_query_item ci) j = Some True)"
  using c_query_item_checks [of c] by (simp add: query_check_True query_check_type_def)

subsection \<open>Adding the type of a request\<close>

lemma type_of_name_simps:
  assumes "0 \<notin> set name"
  shows "type_name (type_of_name name) = name" "attr_list (type_of_name name) = []" "string_ctor name = name"
    "canonical name"
proof -
  have tw: "takeWhile (\<lambda>b. b \<noteq> 0) name = name" using assms by (auto simp: takeWhile_eq_all_conv)
  show c: "canonical name" using assms by (rule canonical_no_NUL)
  then show "string_ctor name = name" by (rule canonical_ctor_eq)
  then show "type_name (type_of_name name) = name" "attr_list (type_of_name name) = []"
    by (simp_all only: type_of_name_def type_ctor_def tw Type.select_convs)
qed

lemma first_named_added_same:
  assumes "type_added t tss tss'"
  shows "\<exists>t'. first_named (type_name t) tss' = Some t' \<and> type_name t' = type_name t \<and>
    (t' = t \<or> first_named (type_name t) tss = Some t')"
  using type_added_split [OF assms] unfolding first_named_def
  by (auto simp: find_append split: option.splits dest: find_SomeD)

lemma canonical_type_of_name: "canonical_type (type_of_name name)"
  by (simp add: canonical_type_def type_of_name_def type_ctor_def)

lemma len_type_of_name: "items_len (type_of_name name) + names_len (type_of_name name) \<le> 24 + length name"
  using length_takeWhile_le [of "\<lambda>b. b \<noteq> 0" name]
  by (simp add: items_len_def names_len_def type_of_name_def type_ctor_def)

text \<open>The first step of every request.\<close>

lemma execute_adds_type:
  assumes inv: "types_inv F tss" and "length name \<le> 8136" and room: "room_for_sect F"
  shows "\<exists>F1 tss1. user_add_type (type_of_name name) F = Some (Some (), F1) \<and> types_inv F1 tss1 \<and>
    type_added (type_of_name name) tss tss1 \<and> docs_same F F1 \<and> unat (lst_sect_ptr F1) \<le> unat (lst_sect_ptr F) + 8192"
  using user_add_type_ok [OF inv canonical_type_of_name _ room] len_type_of_name [of name] assms(2) by simp

definition no_attrs :: "String \<Rightarrow> Type list list \<Rightarrow> bool" where
  "no_attrs name tss \<longleftrightarrow> (case first_named name tss of None \<Rightarrow> True | Some t \<Rightarrow> attr_list t = [])"

lemma execute_insert:
  assumes inv: "types_inv F tss" and r: "r_type r = INSERT" "r_query r = Some q" "r_json r = Some j"
    and name: "0 \<notin> set (r_type_name r)" "length (r_type_name r) \<le> 8136" "no_attrs (r_type_name r) tss"
    and j: "n_fits j" "room_for (Suc (json_nodes (c_json j))) F"
  shows "\<exists>F' tss' a j' e t. execute gf gb r F = Some (Some \<lparr>rs_status = OK, rs_collection = []\<rparr>, F') \<and>
    types_inv F' tss' \<and> type_added (type_of_name (r_type_name r)) tss tss' \<and>
    file_read a F' = Some (Some (j', e), F') \<and> doc_of j' = doc_of (c_json j) \<and>
    file_read_type (type_ptr e) F' = Some (Some t, F') \<and> type_name t = r_type_name r"
proof -
  let ?name = "r_type_name r"
  note tn = type_of_name_simps [OF name(1)]
  have room: "room_for_sect F" using j(2) by (simp add: room_for_def room_for_sect_def)
  obtain F1 tss1 where a: "user_add_type (type_of_name ?name) F = Some (Some (), F1)" and inv1: "types_inv F1 tss1"
    and ad: "type_added (type_of_name ?name) tss tss1" and same: "docs_same F F1"
    and l: "unat (lst_sect_ptr F1) \<le> unat (lst_sect_ptr F) + 8192"
    using execute_adds_type [OF inv name(2) room] by blast
  obtain t where t: "first_named ?name tss1 = Some t" "type_name t = ?name" "attr_list t = []"
    using first_named_added_same [OF ad] name(3) tn(1,2) by (auto simp: no_attrs_def)
  have "room_for (json_nodes (c_json j)) F1" using j(2) l same by (simp add: room_for_def docs_same_def)
  from user_write_ok [OF inv1 tn(4) t(1) apply_no_attrs [OF t(3)] json_ok_c_json [OF j(1)] this]
  obtain F' a j' e where w: "user_write (c_json j) ?name F1 = Some (Some (), F')" "types_inv F' tss1"
    "file_read a F' = Some (Some (j', e), F')" "doc_of j' = doc_of (c_json j)"
    "file_read_type (type_ptr e) F' = Some (Some t, F')" by blast
  have "execute gf gb r F = Some (Some \<lparr>rs_status = OK, rs_collection = []\<rparr>, F')"
    using a w(1) r tn(3) by (simp add: execute_def c_command_def user_apply_def)
  with w ad t(2) show ?thesis by blast
qed

lemma Request_ctor_members:
  "Request_ctor p = Some r \<Longrightarrow> \<exists>q j. r_query r = Some q \<and> r_json r = Some j \<and> r_type_name r = po_typeName p"
  by (auto simp: Request_ctor_def Option.bind_eq_Some_conv)

subsection \<open>Properties\<close>

text \<open>An \<^verbatim>\<open>INSERT\<close> message of a document that fits, under a name that no type with attributes has, is
  answered \<^verbatim>\<open>OK\<close> without documents; afterwards the type exists, the document can be read from some
  address with the content the command carried, and its type has the name of the message.\<close>

theorem Apply_insert:
  assumes "types_inv F tss" "Request_ctor p = Some r" "r_type r = INSERT" "r_json r = Some j"
    and "0 \<notin> set (po_typeName p)" "length (po_typeName p) \<le> 8136" "no_attrs (po_typeName p) tss"
    and "n_fits j" "room_for (Suc (json_nodes (c_json j))) F"
  shows "\<exists>F' tss' a j' e t. Apply gf gb p F = Some (Some \<lparr>pr_status = 0, pr_collection = []\<rparr>, F') \<and>
    types_inv F' tss' \<and> type_added (type_of_name (po_typeName p)) tss tss' \<and>
    file_read a F' = Some (Some (j', e), F') \<and> doc_of j' = doc_of (c_json j) \<and>
    file_read_type (type_ptr e) F' = Some (Some t, F') \<and> type_name t = po_typeName p"
proof -
  obtain q where q: "r_query r = Some q" "r_type_name r = po_typeName p"
    using Request_ctor_members [OF assms(2)] by blast
  obtain F' tss' a j' e t where
    ex: "execute gf gb r F = Some (Some \<lparr>rs_status = OK, rs_collection = []\<rparr>, F')" and
    post: "types_inv F' tss'" "type_added (type_of_name (po_typeName p)) tss tss'"
      "file_read a F' = Some (Some (j', e), F')" "doc_of j' = doc_of (c_json j)"
      "file_read_type (type_ptr e) F' = Some (Some t, F')" "type_name t = po_typeName p"
    using execute_insert [OF assms(1,3) q(1) assms(4) _ _ _ assms(8,9), of gf gb] assms(5-7) q(2) by auto
  have "Apply gf gb p F = Some (Some \<lparr>pr_status = 0, pr_collection = []\<rparr>, F')"
    using assms(2) ex by (simp add: Apply_def wire_response_def)
  with post show ?thesis by blast
qed

definition sample_message :: POperationRequest where
  "sample_message = \<lparr>po_operationType = 0, po_typeName = [75], po_query = None,
     po_json = Some (PJson 4 [] 0 0 [] False None None
       (Some (PJson 2 [110] 0 0 [97, 98] False None (Some (PJson 3 [102] 0 0 [] True None None None)) None)))\<rparr>"

definition sample_request :: "(CommandType, Json_type, Cmp) Request" where
  "sample_request = \<lparr>r_type = INSERT, r_type_name = [75], r_query = Some \<lparr>conditionals = []\<rparr>,
     r_json = Some (NJson TYPE_OBJECT [] 0 0 [] False None None
       (Some (NJson TYPE_STRING [110] 0 0 [97, 98] False None (Some (NJson TYPE_BOOL [102] 0 0 [] True None None None)) None)))\<rparr>"

lemma type_cast_nums: "type_cast 2 = Some TYPE_STRING" "type_cast 3 = Some TYPE_BOOL" "type_cast 4 = Some TYPE_OBJECT"
  by (simp_all add: type_cast_def type_of_code_def)

lemma sample_request_ctor: "Request_ctor sample_message = Some sample_request"
  by (simp add: sample_message_def sample_request_def Request_ctor_def command_cast_def Conditional_ctor_def
      default_PConditional_def server_json_def type_cast_nums)

theorem Apply_insert_witness:
  "\<exists>F' tss' a j' e t. Apply 0 False sample_message (empty_db 100000) = Some (Some \<lparr>pr_status = 0, pr_collection = []\<rparr>, F') \<and>
    types_inv F' tss' \<and> type_added (type_of_name [75]) [] tss' \<and>
    file_read a F' = Some (Some (j', e), F') \<and> doc_of j' = doc_of (c_json (the (r_json sample_request))) \<and>
    file_read_type (type_ptr e) F' = Some (Some t, F') \<and> type_name t = [75]"
proof -
  have "room_for (Suc (json_nodes (c_json (the (r_json sample_request))))) (empty_db 100000)"
    by (simp add: room_for_def sample_request_def empty_db_def) (simp add: fopen_w_def)
  from Apply_insert [OF empty_db_types sample_request_ctor _ _ _ _ _ _ this, of 0 False]
  show ?thesis by (simp add: sample_request_def sample_message_def no_attrs_def first_named_def)
qed

text \<open>C33: a number sent to the server is lost. The command's value of an integer node holds the message's
  float with its lowest byte replaced by the boolean, whatever the integer was; so with the float zero,
  as an integer has it, every integer arrives as 0 or 1. Texts and booleans arrive as they were sent.\<close>

theorem server_loses_numbers:
  "t \<in> {TYPE_INT32, TYPE_FLOAT} \<Longrightarrow>
     jval (c_json (NJson t k i f s b dad bro son)) = VRaw (put_low8 (if b then 1 else 0) (ucast f)) \<and>
     int32_val (jval (c_json (NJson t k i 0 s b dad bro son))) = Some (if b then 1 else 0) \<and>
     bool_val (jval (c_json (NJson TYPE_BOOL k i f s b dad bro son))) = Some b \<and>
     string_val (jval (c_json (NJson TYPE_STRING k i f s b dad bro son))) = Some (string_ctor s)"
proof (intro conjI)
  assume "t \<in> {TYPE_INT32, TYPE_FLOAT}"
  then have t: "t \<noteq> TYPE_STRING" "t \<noteq> TYPE_OBJECT" by auto
  show "jval (c_json (NJson t k i f s b dad bro son)) = VRaw (put_low8 (if b then 1 else 0) (ucast f))"
    using t by (simp add: union_value_number)
  show "int32_val (jval (c_json (NJson t k i 0 s b dad bro son))) = Some (if b then 1 else 0)"
    using t by (simp add: union_value_number put_low8_def)
  show "bool_val (jval (c_json (NJson TYPE_BOOL k i f s b dad bro son))) = Some b"
    using union_value_bool [of TYPE_BOOL] by simp
  show "string_val (jval (c_json (NJson TYPE_STRING k i f s b dad bro son))) = Some (string_ctor s)"
    by (simp add: union_value_def)
qed

theorem server_loses_numbers_witness:
  "int32_val (jval (c_json (NJson TYPE_INT32 [104] 150 0 [] False None None None))) = Some 0"
proof -
  have "TYPE_INT32 \<in> {TYPE_INT32, TYPE_FLOAT}" by simp
  from server_loses_numbers [OF this, of "[104]" 150 0 "[]" False None None None] show ?thesis
    unfolding if_False by (elim conjE)
qed

text \<open>C34: the type name of a request never restricts its query: whatever document of whatever type, the
  command's query accepts it exactly when every condition of the request does.\<close>

theorem server_query_ignores_type:
  assumes "Request_ctor p = Some r" "c_command r = Some cmd" "r_query r = Some c"
  shows "query_check (cmd_query cmd) j name = Some True \<longleftrightarrow>
    (\<forall>ci \<in> set (conditionals c). query_item_check (c_query_item ci) j = Some True)"
proof -
  have "cmd_query cmd = c_query c" using assms(2,3) by (auto simp: c_command_def split: option.splits)
  then show ?thesis by (simp add: c_query_True)
qed

theorem server_query_ignores_type_witness:
  "query_check (cmd_query (the (c_command sample_request))) (json_ctor TYPE_INT32 [107]) (Some [76]) = Some True"
proof -
  have "c_command sample_request = Some (the (c_command sample_request))"
    by (simp add: c_command_def sample_request_def)
  from server_query_ignores_type [OF sample_request_ctor this, of "\<lparr>conditionals = []\<rparr>" "json_ctor TYPE_INT32 [107]" "Some [76]"]
  show ?thesis by (simp add: sample_request_def)
qed

text \<open>C35: an answer with a document is never built without reading past a buffer: the driver prints the
  key of every hit as a C string, and keys have no terminating NUL.\<close>

theorem collecting_hits_overreads:
  assumes "iter_is_avail it" "0 \<notin> set (jkey (iter_get_json it))"
  shows "collect_loop gf gb it acc F = None"
  using assms c_str_no_NUL [of "jkey (iter_get_json it)"] by (subst collect_loop.simps) simp

theorem collecting_hits_overreads_witness:
  "collect_loop 0 False \<lparr>it_query = query_new, cur_col = [(json_ctor TYPE_BOOL [107], entity_new)], cur_sect = Some 0\<rparr>
     [] (empty_db 100000) = None"
  by (rule collecting_hits_overreads) (simp_all add: iter_is_avail_def iter_get_json_def json_ctor_def string_ctor_Cons)

end
