(* ===== verification/End_To_End.thy ===== *)
theory End_To_End
  imports Server Client
begin

text \<open>
  Client, message and server together: what one side sends is what the other side works with, and an
  insert statement ends as a stored document.
\<close>

subsection \<open>Numbered requests\<close>

text \<open>The client's request for a server's: types are numbers.\<close>

definition num_item :: "(Json_type, Cmp) ConditionalItem \<Rightarrow> (u32, Cmp) ConditionalItem" where
  "num_item ci = \<lparr>ci_type = type_num (ci_type ci), ci_key = ci_key ci, ci_cmp = ci_cmp ci,
     ci_int32 = ci_int32 ci, ci_float = ci_float ci, ci_string = ci_string ci, ci_bool = ci_bool ci\<rparr>"

definition num_conditional :: "(Json_type, Cmp) Conditional \<Rightarrow> (u32, Cmp) Conditional" where
  "num_conditional c = \<lparr>conditionals = map num_item (conditionals c)\<rparr>"

definition num_request :: "(CommandType, Json_type, Cmp) Request \<Rightarrow> (CommandType, u32, Cmp) Request" where
  "num_request r = \<lparr>r_type = r_type r, r_type_name = r_type_name r,
     r_query = map_option num_conditional (r_query r), r_json = map_option (map_NJson type_num) (r_json r)\<rparr>"

text \<open>The constructor of the server fills in what the message leaves out.\<close>

definition filled :: "(CommandType, Json_type, Cmp) Request \<Rightarrow> (CommandType, Json_type, Cmp) Request" where
  "filled r = r\<lparr>r_query := Some (case r_query r of None \<Rightarrow> \<lparr>conditionals = []\<rparr> | Some q \<Rightarrow> q),
     r_json := Some (case r_json r of None \<Rightarrow> NJson TYPE_INT32 [] 0 0 [] False None None None | Some j \<Rightarrow> j)\<rparr>"

lemma wire_map_NJson: "wire_json id (map_NJson f j) = wire_json f j"
  by (induction j) (auto split: option.splits)

lemma ConditionalItem_round: "ConditionalItem_ctor (wire_item id (num_item ci)) = Some ci"
  by (simp add: ConditionalItem_ctor_def wire_item_def num_item_def)

lemma items_round: "items_ctor (map (wire_item id \<circ> num_item) cs) = Some cs"
  by (induction cs) (simp_all add: ConditionalItem_round ConditionalItem_round [unfolded id_def])

lemma Conditional_round: "Conditional_ctor (wire_conditional id (num_conditional c)) = Some c"
  by (simp add: Conditional_ctor_def wire_conditional_def num_conditional_def items_round)

lemma server_json_round: "server_json (wire_json id (map_NJson type_num j)) = Some j"
  by (simp add: server_json_def wire_map_NJson type_enum.unwire_wire)

lemma default_json: "server_json default_PJson = Some (NJson TYPE_INT32 [] 0 0 [] False None None None)"
  by (simp add: server_json_def default_PJson_def type_cast_def type_of_code_def)

lemma request_round: "Request_ctor (wire_request id (num_request r)) = Some (filled r)"
proof -
  have "Conditional_ctor (case map_option (wire_conditional id) (map_option num_conditional (r_query r)) of
      None \<Rightarrow> default_PConditional | Some q \<Rightarrow> q) = Some (case r_query r of None \<Rightarrow> \<lparr>conditionals = []\<rparr> | Some q \<Rightarrow> q)"
    by (cases "r_query r") (simp add: Conditional_ctor_def default_PConditional_def, simp add: Conditional_round)
  moreover have "server_json (case map_option (wire_json id) (map_option (map_NJson type_num) (r_json r)) of
      None \<Rightarrow> default_PJson | Some j \<Rightarrow> j) =
      Some (case r_json r of None \<Rightarrow> NJson TYPE_INT32 [] 0 0 [] False None None None | Some j \<Rightarrow> j)"
    by (cases "r_json r") (simp_all add: server_json_round default_json)
  ultimately show ?thesis
    by (simp add: Request_ctor_def wire_request_def num_request_def filled_def)
qed

lemma client_json_wire: "client_json (wire_json f j) = map_NJson f j"
  by (induction j) (auto split: option.splits)

subsection \<open>Documents with enumerated types\<close>

definition typed :: "u32 NJson \<Rightarrow> bool" where
  "typed j \<longleftrightarrow> (\<exists>jj. j = map_NJson type_num jj)"

lemma map_addBro: "map_NJson f (addBro j b) = addBro (map_NJson f j) (map_option (map_NJson f) b)"
  by (induction j b rule: addBro.induct) simp_all

lemma map_addSon: "map_NJson f (addSon j b) = addSon (map_NJson f j) (map_option (map_NJson f) b)"
  by (cases "(j, b)" rule: addSon.cases) (simp_all add: map_addBro)

lemma typed_addBro: "typed j \<Longrightarrow> typed b \<Longrightarrow> typed (addBro j (Some b))"
  unfolding typed_def by (metis map_addBro option.map(2))

lemma typed_addSon: "typed j \<Longrightarrow> typed b \<Longrightarrow> typed (addSon j (Some b))"
  unfolding typed_def by (metis map_addSon option.map(2))

lemma typed_node: "typed (NJson (type_num t) k i f s b None None None)"
  unfolding typed_def by (rule exI [of _ "NJson t k i f s b None None None"]) simp

lemma typed_addSon_opt: "typed j \<Longrightarrow> (\<And>y. b = Some y \<Longrightarrow> typed y) \<Longrightarrow> typed (addSon j b)"
proof (cases b)
  case None
  assume "typed j"
  then obtain jj where "j = map_NJson type_num jj" by (auto simp: typed_def)
  then have "addSon j None = map_NJson type_num (addSon jj None)" by (simp add: map_addSon)
  then show ?thesis using None by (auto simp: typed_def)
qed (simp add: typed_addSon)

text \<open>Every constructor of a field sets an enumerator.\<close>

definition fields_ok :: "EntityNode \<Rightarrow> bool" where
  "fields_ok e \<longleftrightarrow> (\<forall>x \<in> set (fieldListNode e). \<exists>t. f_type x = type_num t)"

lemma FieldNode_ctor_type: "\<exists>t. f_type (FieldNode_ctor g name v) = type_num t"
  by (cases v) auto

lemma typed_link_fields:
  "\<forall>x \<in> set xs. \<exists>t. f_type x = type_num t \<Longrightarrow> (\<And>j. f = Some j \<Longrightarrow> typed j) \<Longrightarrow>
    link_fields f xs = Some j \<Longrightarrow> typed j"
proof (induction f xs rule: link_fields.induct)
  case (2 x xs)
  have "typed (field_toJson x)" using 2(2) typed_node by (auto simp: field_toJson_def)
  with 2 show ?case by simp
next
  case (3 j' x xs)
  have "typed (field_toJson x)" using 3(2) typed_node by (auto simp: field_toJson_def)
  with 3 show ?case by (simp add: typed_addBro)
qed simp

lemma typed_entity: "fields_ok e \<Longrightarrow> typed (snd (entity_toJson g e))"
  unfolding entity_toJson_def snd_conv
  by (rule typed_addSon_opt [OF typed_node]) (auto simp: fields_ok_def fields_toJson_def intro: typed_link_fields)

lemma typed_add_parts: "\<forall>e \<in> set es. fields_ok e \<Longrightarrow> typed root \<Longrightarrow> typed (add_parts g es root)"
  by (induction es arbitrary: root) (auto simp: add_parts_simps intro: typed_addSon typed_entity)

lemma typed_entities:
  assumes "is_root e" "\<forall>x \<in> set es2. \<not> is_root x" "\<forall>x \<in> set (es1 @ e # es2). fields_ok x"
  shows "typed (entities_toJson g (es1 @ e # es2))"
  unfolding entities_toJson_parts pick_root_last [OF assms(1,2)]
  using assms(3) by (intro typed_add_parts typed_entity) auto

subsection \<open>Sizes\<close>

fun n_small :: "'t NJson \<Rightarrow> bool" where
  "n_small (NJson t k i f s b dad bro son) \<longleftrightarrow> length k + max 8 (length s) \<le> 8080 \<and>
     (case bro of None \<Rightarrow> True | Some j \<Rightarrow> n_small j) \<and> (case son of None \<Rightarrow> True | Some j \<Rightarrow> n_small j)"

fun n_nodes :: "'t NJson \<Rightarrow> nat" where
  "n_nodes (NJson t k i f s b dad bro son) =
     Suc ((case bro of None \<Rightarrow> 0 | Some j \<Rightarrow> n_nodes j) + (case son of None \<Rightarrow> 0 | Some j \<Rightarrow> n_nodes j))"

lemma n_small_map: "n_small (map_NJson f j) \<longleftrightarrow> n_small j"
  by (induction j) (auto split: option.splits)

lemma n_nodes_map: "n_nodes (map_NJson f j) = n_nodes j"
  by (induction j) (auto split: option.splits)

lemma n_small_fits: "n_small j \<Longrightarrow> n_fits j"
  by (induction j) (auto split: option.splits)

lemma nodes_c_json: "json_nodes (c_json j) = n_nodes j"
  by (induction j) (auto split: option.splits)

subsection \<open>An insert statement\<close>

lemma insert_statement:
  assumes inv: "types_inv F tss"
    and es: "is_root e" "\<forall>x \<in> set es2. \<not> is_root x" "\<forall>x \<in> set (es1 @ e # es2). fields_ok x"
    and name: "0 \<notin> set name" "length name \<le> 8136" "no_attrs name tss"
    and small: "n_small (entities_toJson g (es1 @ e # es2))"
    and room: "room_for (Suc (n_nodes (entities_toJson g (es1 @ e # es2)))) F"
  shows "\<exists>jj F' tss' a j' en t.
    entities_toJson g (es1 @ e # es2) = map_NJson type_num jj \<and>
    Apply gf gb (statement_message g (InsertQueryNode cmd \<lparr>eb_typeName = name, eb_entityList = es1 @ e # es2\<rparr>)) F =
      Some (Some \<lparr>pr_status = 0, pr_collection = []\<rparr>, F') \<and>
    types_inv F' tss' \<and> file_read a F' = Some (Some (j', en), F') \<and> doc_of j' = doc_of (c_json jj) \<and>
    file_read_type (type_ptr en) F' = Some (Some t, F') \<and> type_name t = name"
proof -
  obtain jj where jj: "entities_toJson g (es1 @ e # es2) = map_NJson type_num jj"
    using typed_entities [OF es, of g] by (auto simp: typed_def)
  define r :: "(CommandType, Json_type, Cmp) Request"
    where "r = \<lparr>r_type = INSERT, r_type_name = name, r_query = None, r_json = Some jj\<rparr>"
  define p where "p = statement_message g (InsertQueryNode cmd \<lparr>eb_typeName = name, eb_entityList = es1 @ e # es2\<rparr>)"
  have p: "p = wire_request id (num_request r)"
    by (simp add: p_def statement_message_def num_request_def r_def jj)
  have ctor: "Request_ctor p = Some (filled r)" unfolding p by (rule request_round)
  have mem: "po_typeName p = name" "r_type (filled r) = INSERT" "r_json (filled r) = Some jj"
    by (simp_all add: p_def statement_message_def wire_request_def filled_def r_def)
  have fits: "n_fits jj" using small by (simp add: jj n_small_map n_small_fits)
  have room': "room_for (Suc (json_nodes (c_json jj))) F" using room by (simp add: jj n_nodes_map nodes_c_json)
  from Apply_insert [OF inv ctor mem(2,3) _ _ _ fits room', of gf gb] name mem(1)
  obtain F' tss' a j' en t where
    "Apply gf gb p F = Some (Some \<lparr>pr_status = 0, pr_collection = []\<rparr>, F')" "types_inv F' tss'"
    "file_read a F' = Some (Some (j', en), F')" "doc_of j' = doc_of (c_json jj)"
    "file_read_type (type_ptr en) F' = Some (Some t, F')" "type_name t = name" by auto
  with jj show ?thesis unfolding p_def by blast
qed

subsection \<open>Properties\<close>

text \<open>C32: the request the client sends is the request the server works with, up to the members the message
  leaves out, which the server fills with their defaults; and the answer the server sends is the answer
  the client sees.\<close>

theorem messages_round_trip:
  "Request_ctor (wire_request id (num_request r)) = Some (filled r) \<and>
   Client_Response_ctor (wire_response resp) =
     Some \<lparr>cr_status = rs_status resp, cr_collection = map (map_NJson type_num) (rs_collection resp)\<rparr>"
  using request_round [of r] by (simp add: Client_Response_ctor_def wire_response_def client_json_wire)

text \<open>An insert statement with a nameless group of fields, whose nodes fit, is carried out: the message
  it becomes is answered \<^verbatim>\<open>OK\<close>, and the statement's document can be read from the file afterwards, with
  the type the statement names.\<close>

theorem statement_inserts:
  assumes inv: "types_inv F tss"
    and es: "is_root e" "\<forall>x \<in> set es2. \<not> is_root x" "\<forall>x \<in> set (es1 @ e # es2). fields_ok x"
    and name: "0 \<notin> set name" "length name \<le> 8136" "no_attrs name tss"
    and small: "n_small (entities_toJson g (es1 @ e # es2))"
    and room: "room_for (Suc (n_nodes (entities_toJson g (es1 @ e # es2)))) F"
  shows "\<exists>jj F' tss' a j' en t.
    entities_toJson g (es1 @ e # es2) = map_NJson type_num jj \<and>
    Apply gf gb (statement_message g (InsertQueryNode cmd \<lparr>eb_typeName = name, eb_entityList = es1 @ e # es2\<rparr>)) F =
      Some (Some \<lparr>pr_status = 0, pr_collection = []\<rparr>, F') \<and>
    types_inv F' tss' \<and> file_read a F' = Some (Some (j', en), F') \<and> doc_of j' = doc_of (c_json jj) \<and>
    file_read_type (type_ptr en) F' = Some (Some t, F') \<and> type_name t = name"
  using assms by (rule insert_statement)

theorem statement_inserts_witness:
  "\<exists>jj F' tss' a j' en t.
    entities_toJson sample_mem (take 2 sample_entities @ sample_entities ! 2 # []) = map_NJson type_num jj \<and>
    Apply 0 False (statement_message sample_mem (InsertQueryNode INSERT \<lparr>eb_typeName = [75],
        eb_entityList = take 2 sample_entities @ sample_entities ! 2 # []\<rparr>)) (empty_db 100000) =
      Some (Some \<lparr>pr_status = 0, pr_collection = []\<rparr>, F') \<and>
    types_inv F' tss' \<and> file_read a F' = Some (Some (j', en), F') \<and> doc_of j' = doc_of (c_json jj) \<and>
    file_read_type (type_ptr en) F' = Some (Some t, F') \<and> type_name t = [75]"
proof (rule statement_inserts)
  show "types_inv (empty_db 100000) []" by (rule empty_db_types) simp_all
  show "\<forall>x \<in> set (take 2 sample_entities @ sample_entities ! 2 # []). fields_ok x"
    by (simp add: sample_entities_def fields_ok_def EntityNode_root_def EntityNode_named_def) blast
  have e: "entities_toJson sample_mem (take 2 sample_entities @ sample_entities ! 2 # []) =
    NJson 4 [] 0 0 [] True None None (Some (NJson 2 [104] 13 0 [49] True None
      (Some (NJson 4 [110] 0 0 [] True None None (Some (NJson 2 [108] 13 0 [82, 117] True None None None)))) None))"
    by (simp add: sample_entities_def EntityNode_root_def EntityNode_named_def entities_toJson_def pick_root_def
        entity_toJson_def fields_toJson_def field_toJson_def FieldNode_mem_def sample_mem_def type_num_def)
  show "n_small (entities_toJson sample_mem (take 2 sample_entities @ sample_entities ! 2 # []))" by (simp add: e)
  show "room_for (Suc (n_nodes (entities_toJson sample_mem (take 2 sample_entities @ sample_entities ! 2 # [])))) (empty_db 100000)"
    by (simp add: e room_for_def empty_db_def) (simp add: fopen_w_def)
qed (simp_all add: sample_entities_def EntityNode_root_def no_attrs_def first_named_def)

end
