(* ===== verification/Remote.thy ===== *)
theory Remote
  imports Lexer_Spec Parser End_To_End
begin

text \<open>
  The client program: the calls of the remote procedures (\<^verbatim>\<open>network/dbms_client.hpp\<close>), the driver that sends
  each statement as soon as it is read (\<^verbatim>\<open>driver.hpp\<close>), \<^verbatim>\<open>main\<close> of client and server, and the server's end
  (\<^verbatim>\<open>dbms_server.hpp\<close>). The stub gRPC generates is a parameter: it takes a message and the state of the other
  end and gives the status of the call, the answer and the state afterwards, or nothing if the other end
  does not answer any more. \<open>dbg\<close> is protobuf's \<^verbatim>\<open>DebugString\<close>. What a program writes to its standard output is
  part of its state.
\<close>

subsection \<open>network/dbms_client.hpp\<close>

type_synonym ('q, 'a, 'w) stub = "'q \<Rightarrow> 'w \<Rightarrow> ((bool \<times> 'a) \<times> 'w) option"

text \<open>A failed call has a code and a message instead of an answer.\<close>

datatype ping_status = Ping_ok "u8 list" | Ping_error "u8 list" "u8 list"

definition Ping :: "('w \<Rightarrow> (ping_status \<times> 'w) option) \<Rightarrow> u8 list \<Rightarrow> 'w \<Rightarrow> (bool \<times> u8 list \<times> 'w) option" where
  "Ping stub out w =
     (case stub w of
        None \<Rightarrow> None
      | Some (Ping_ok msg, w') \<Rightarrow> Some (True, out @ bytes ''Received from server: '' @ msg @ nl, w')
      | Some (Ping_error code msg, w') \<Rightarrow> Some (False, out @ code @ bytes '': '' @ msg @ nl, w'))"

definition answer_text :: "(u32 \<Rightarrow> u8 list) \<Rightarrow> (POperationResponse \<Rightarrow> u8 list) \<Rightarrow> POperationResponse \<Rightarrow> Client_Response \<Rightarrow> u8 list" where
  "answer_text fout dbg response r =
     dbg response @ nl @ bytes ''Status: OK'' @ nl @ concat (map (\<lambda>j. out_json fout j @ nl) (cr_collection r))"

definition Client_Apply ::
  "(u32 \<Rightarrow> u8 list) \<Rightarrow> (POperationResponse \<Rightarrow> u8 list) \<Rightarrow> (POperationRequest, POperationResponse, 'w) stub \<Rightarrow>
    POperationRequest \<Rightarrow> u8 list \<times> 'w \<Rightarrow> (u8 list \<times> 'w) option" where
  "Client_Apply fout dbg stub request s =
     (case stub request (snd s) of
        None \<Rightarrow> None
      | Some ((ok, response), w) \<Rightarrow>
          (case Client_Response_ctor response of
             None \<Rightarrow> None
           | Some r \<Rightarrow>
               Some (fst s @ (if ok then answer_text fout dbg response r
                              else bytes ''OperationResponse rpc failed.'' @ nl), w)))"

subsection \<open>driver.hpp\<close>

text \<open>\<^verbatim>\<open>Driver::insert\<close>\<close>

definition Driver_insert ::
  "mem \<Rightarrow> (u32 \<Rightarrow> u8 list) \<Rightarrow> (POperationResponse \<Rightarrow> u8 list) \<Rightarrow> (POperationRequest, POperationResponse, 'w) stub \<Rightarrow>
    QueryNode \<Rightarrow> u8 list \<times> 'w \<Rightarrow> (u8 list \<times> 'w) option" where
  "Driver_insert g fout dbg stub q s = Client_Apply fout dbg stub (statement_message g q) s"

fun insert_all ::
  "mem \<Rightarrow> (u32 \<Rightarrow> u8 list) \<Rightarrow> (POperationResponse \<Rightarrow> u8 list) \<Rightarrow> (POperationRequest, POperationResponse, 'w) stub \<Rightarrow>
    QueryNode list \<Rightarrow> u8 list \<times> 'w \<Rightarrow> (u8 list \<times> 'w) option" where
  "insert_all g fout dbg stub [] s = Some s"
| "insert_all g fout dbg stub (q # qs) s = Option.bind (Driver_insert g fout dbg stub q s) (insert_all g fout dbg stub qs)"

text \<open>The tokens the parser is given, and whether all have values: at one without, the program is lost.\<close>

fun read_tokens :: "(string \<Rightarrow> u32 option) \<Rightarrow> (token \<times> string) list \<Rightarrow> tok list \<times> bool" where
  "read_tokens stof [] = ([], True)"
| "read_tokens stof ((t, x) # ls) =
     (case yylex stof t x of
        None \<Rightarrow> ([], False)
      | Some v \<Rightarrow> (let (ts, ok) = read_tokens stof ls in ((t, v) # ts, ok)))"

text \<open>
  \<^verbatim>\<open>Driver::parse\<close> on a text that ends: the output and the other end's state once the text is used up, after
  which the loop goes on for ever; \<open>None\<close> if the program is lost at a token without value.
\<close>

definition Driver_parse ::
  "mem \<Rightarrow> (string \<Rightarrow> u32 option) \<Rightarrow> (u32 \<Rightarrow> u8 list) \<Rightarrow> (POperationResponse \<Rightarrow> u8 list) \<Rightarrow>
    (POperationRequest, POperationResponse, 'w) stub \<Rightarrow> string \<Rightarrow> u8 list \<times> 'w \<Rightarrow> (u8 list \<times> 'w) option" where
  "Driver_parse g stof fout dbg stub text s =
     (let (ts, ok) = read_tokens stof (lexemes text) in
      if ok then insert_all g fout dbg stub (fst (parse (length ts) g ts)) s else None)"

subsection \<open>main\<close>

text \<open>\<^verbatim>\<open>std::stoi\<close> on any text: blanks, a sign, digits, and whatever follows; exceptions are \<open>None\<close>.\<close>

definition isspace :: "char \<Rightarrow> bool" where
  "isspace c \<longleftrightarrow> c = CHR '' '' \<or> (9 \<le> char_code c \<and> char_code c \<le> 13)"

definition isdigit :: "char \<Rightarrow> bool" where
  "isdigit c \<longleftrightarrow> 48 \<le> char_code c \<and> char_code c \<le> 57"

definition std_stoi :: "string \<Rightarrow> int option" where
  "std_stoi s =
     (let t = dropWhile isspace s;
          (minus, u) = (case t of c # u \<Rightarrow> if c = CHR ''-'' then (True, u) else if c = CHR ''+'' then (False, u) else (False, t)
                        | [] \<Rightarrow> (False, t));
          ds = takeWhile isdigit u
      in if ds = [] then None
         else let n = (if minus then - digits_val ds else digits_val ds)
              in if - 2147483648 \<le> n \<and> n < 2147483648 then Some n else None)"

text \<open>
  What \<^verbatim>\<open>main\<close> of the client does with its arguments, those behind the program's name: it returns a
  number, or goes on with a port and an address.
\<close>

datatype start = Return int | Connect "16 word" string

definition client_main :: "string list \<Rightarrow> start option" where
  "client_main args =
     (case args of
        [p] \<Rightarrow> map_option (\<lambda>n. Connect (word_of_int n) ''localhost'') (std_stoi p)
      | [p, a] \<Rightarrow> map_option (\<lambda>n. Connect (word_of_int n) a) (std_stoi p)
      | _ \<Rightarrow> Some (Return 1))"

text \<open>
  \<^verbatim>\<open>main\<close> of the server starts alike, but the constructor of the service does not return: without
  arguments the server runs on the default port.
\<close>

definition server_main :: "string list \<Rightarrow> start option" where
  "server_main args =
     (case args of
        [] \<Rightarrow> Some (Connect 5432 ''localhost'')
      | [p] \<Rightarrow> map_option (\<lambda>n. Connect (word_of_int n) ''localhost'') (std_stoi p)
      | [p, a] \<Rightarrow> map_option (\<lambda>n. Connect (word_of_int n) a) (std_stoi p)
      | _ \<Rightarrow> Some (Return 1))"

text \<open>The address of the channel: \<^verbatim>\<open>address + ":" + std::to_string(port)\<close>.\<close>

definition channel_name :: "16 word \<Rightarrow> string \<Rightarrow> string" where
  "channel_name port address = address @ '':'' @ to_string (uint port)"

text \<open>
  The client after it has connected: it leaves with 0 if the server does not answer the first call, otherwise it
  works off its input. The flag says that it is still running.
\<close>

definition client_session ::
  "mem \<Rightarrow> (string \<Rightarrow> u32 option) \<Rightarrow> (u32 \<Rightarrow> u8 list) \<Rightarrow> (POperationResponse \<Rightarrow> u8 list) \<Rightarrow>
    ('w \<Rightarrow> (ping_status \<times> 'w) option) \<Rightarrow> (POperationRequest, POperationResponse, 'w) stub \<Rightarrow> string \<Rightarrow> 'w \<Rightarrow>
    (bool \<times> u8 list \<times> 'w) option" where
  "client_session g stof fout dbg ping stub input w =
     (case Ping ping [] w of
        None \<Rightarrow> None
      | Some (answered, out, w') \<Rightarrow>
          if answered then map_option (Pair True) (Driver_parse g stof fout dbg stub input (out, w'))
          else Some (False, out, w'))"

subsection \<open>dbms_server.hpp\<close>

text \<open>What the constructor of the service prints before it waits for calls.\<close>

definition server_banner :: "16 word \<Rightarrow> string \<Rightarrow> u8 list" where
  "server_banner port address = bytes ''Server listening on '' @ bytes (channel_name port address) @ nl"

definition Server_Ping :: "u8 list \<Rightarrow> u8 list \<Rightarrow> u8 list \<times> u8 list" where
  "Server_Ping message out = (bytes ''Pong'', out @ bytes ''Received from client: '' @ message @ nl)"

text \<open>The two stubs when gRPC delivers the messages; the state of the other end is its output, or its file.\<close>

definition ping_stub :: "u8 list \<Rightarrow> (ping_status \<times> u8 list) option" where
  "ping_stub out = (let (answer, out') = Server_Ping (bytes ''Ping'') out in Some (Ping_ok answer, out'))"

definition apply_stub :: "u32 \<Rightarrow> bool \<Rightarrow> (POperationRequest, POperationResponse, File) stub" where
  "apply_stub gf gb request F =
     (case Apply gf gb request F of
        Some (Some response, F') \<Rightarrow> Some ((True, response), F')
      | _ \<Rightarrow> None)"


subsection \<open>What main makes of its arguments\<close>

lemma digits_val_range: "\<forall>c \<in> set (digits n). isdigit c"
  using digits_not_minus by (auto simp: isdigit_def char_code_def)

lemma std_stoi_to_string: "std_stoi (to_string n) = (if - 2147483648 \<le> n \<and> n < 2147483648 then Some n else None)"
proof -
  have digits: "takeWhile isdigit (digits m) = digits m" for m
    using digits_val_range by (simp add: takeWhile_eq_all_conv)
  have no: "\<not> isspace c" "c \<noteq> CHR ''-''" "c \<noteq> CHR ''+''" if "isdigit c" for c
    using that by (auto simp: isspace_def isdigit_def char_code_def)
  show ?thesis
  proof (cases "n < 0")
    case True
    then show ?thesis
      by (simp add: std_stoi_def to_string_def isspace_def char_code_def digits digits_val_digits Let_def)
  next
    case False
    obtain c ds where d: "digits (nat n) = c # ds" by (cases "digits (nat n)") simp_all
    have "isdigit c" using digits_val_range [of "nat n"] d by simp
    from no [OF this] show ?thesis using False digits [of "nat n"] digits_val_digits [of "nat n"]
      by (simp add: std_stoi_def to_string_def d Let_def)
  qed
qed

text \<open>Without arguments the client returns at once, whatever port it was to use by default.\<close>

lemma client_arguments:
  "client_main [] = Some (Return 1)"
  "0 \<le> n \<Longrightarrow> n < 65536 \<Longrightarrow> client_main [to_string n] = Some (Connect (word_of_int n) ''localhost'')"
  "0 \<le> n \<Longrightarrow> n < 65536 \<Longrightarrow> channel_name (word_of_int n) a = a @ '':'' @ to_string n"
  by (simp_all add: client_main_def std_stoi_to_string channel_name_def take_bit_int_eq_self unsigned_of_int)

lemma ping_answer: "Ping ping_stub out [] = Some (True, out @ bytes ''Received from server: Pong'' @ nl, bytes ''Received from client: Ping'' @ nl)"
  by (simp add: Ping_def ping_stub_def Server_Ping_def bytes_def)

subsection \<open>The statements of a text\<close>

lemma lexemes_lang: "(t, x) \<in> set (lexemes s) \<Longrightarrow> \<exists>r. (r, Some t) \<in> set rules \<and> lang r x"
proof (induction s rule: lexemes.induct)
  case (2 c s)
  show ?case
  proof (cases "best_rule rules (c # s)")
    case None
    then show ?thesis using 2 scan_total [of "c # s"] by simp
  next
    case (Some b)
    obtain n a where b: "b = (n, a)" by (cases b)
    have lang: "\<exists>r. (r, a) \<in> set rules \<and> lang r (take n (c # s))"
      using best_rule_mem [OF Some [unfolded b]] longest_matches by blast
    show ?thesis
    proof (cases a)
      case None
      then show ?thesis using 2 Some b by simp
    next
      case (Some u)
      with \<open>best_rule rules (c # s) = Some b\<close> b 2(4)
      consider "t = u" "x = take n (c # s)" | "(t, x) \<in> set (lexemes (drop n (c # s)))" by auto
      then show ?thesis
      proof cases
        case 1
        then show ?thesis using lang Some by blast
      next
        case 2
        then show ?thesis using "2.IH"(3) [OF \<open>best_rule rules (c # s) = Some b\<close> b [symmetric] Some] by blast
      qed
    qed
  qed
qed simp

lemma byte_zero: "(of_char c :: u8) = 0 \<longleftrightarrow> (of_char c :: nat) = 0"
proof -
  have "(of_char c :: u8) = of_nat (of_char c)" by (cases c) (simp add: of_char_def)
  moreover have "256 dvd (of_char c :: nat) \<longleftrightarrow> (of_char c :: nat) = 0"
    using nat_of_char_less_256 [of c] by (metis dvd_0_right nat_dvd_not_less neq0_conv)
  ultimately show ?thesis by (simp add: word_of_nat_eq_0_iff)
qed

lemma word_not_zero: "(T_WORD, x) \<in> set (lexemes s) \<Longrightarrow> 0 \<notin> set (bytes x)"
proof -
  assume "(T_WORD, x) \<in> set (lexemes s)"
  then have "lang WORD x" using lexemes_lang by (fastforce simp: rules_def)
  then have "may c WORD" if "c \<in> set x" for c using lang_may that by blast
  then have "char_code c \<noteq> 0" if "c \<in> set x" for c
    using that by (fastforce simp: WORD_def in_class_def char_code_def swap_case_def split: if_splits)
  then show ?thesis by (fastforce simp: bytes_def char_code_def byte_zero)
qed

lemma read_tokens_mem: "(t, v) \<in> set (fst (read_tokens stof ls)) \<Longrightarrow> \<exists>x. (t, x) \<in> set ls \<and> yylex stof t x = Some v"
  by (induction stof ls rule: read_tokens.induct) (auto split: option.splits prod.splits)

lemma field_typed: "field_nt g ts x \<Longrightarrow> \<exists>t. f_type x = type_num t"
  by (auto simp: field_nt_simps FieldNode_ctor_type)

lemma plus_nt_all: "plus_nt R ts xs \<Longrightarrow> x \<in> set xs \<Longrightarrow> \<exists>w. R w x"
  by (induction rule: plus_nt.induct) auto

lemma entity_fields_ok: "entity_nt g ts e \<Longrightarrow> fields_ok e"
  using plus_nt_all field_typed
  by (fastforce simp: entity_nt_simps fields_ok_def EntityNode_named_def EntityNode_root_def)


subsection \<open>Properties\<close>

text \<open>C10: from text to file. If the parser accepts the text of one insert statement, with a nameless group of
  fields, whose nodes fit, the session sends one request, prints that it was carried out, and the
  file holds the statement's document afterwards, with the type the statement names.\<close>

theorem text_inserts:
  assumes inv: "types_inv F tss"
    and parsed: "read_tokens stof (lexemes input) = (ts, True)" "yyparse g ts = ([InsertQueryNode cmd e], us, True)"
    and root: "eb_entityList e \<noteq> []" "is_root (last (eb_entityList e))"
    and name: "length (eb_typeName e) \<le> 8136" "no_attrs (eb_typeName e) tss"
    and small: "n_small (entities_toJson g (eb_entityList e))"
    and room: "room_for (Suc (n_nodes (entities_toJson g (eb_entityList e)))) F"
  shows "\<exists>jj F' tss' a j' en t.
    entities_toJson g (eb_entityList e) = map_NJson type_num jj \<and>
    Driver_parse g stof fout dbg (apply_stub gf gb) input (out, F) =
      Some (out @ dbg \<lparr>pr_status = 0, pr_collection = []\<rparr> @ nl @ bytes ''Status: OK'' @ nl, F') \<and>
    types_inv F' tss' \<and> file_read a F' = Some (Some (j', en), F') \<and> doc_of j' = doc_of (c_json jj) \<and>
    file_read_type (type_ptr en) F' = Some (Some t, F') \<and> type_name t = eb_typeName e"
proof -
  have nt: "query_nt g ts (InsertQueryNode cmd e)" "us = []"
    using parsed(2) unfolding yyparse_iff plus_nt_iff by (auto simp: list_all2_Cons2)
  then obtain ws w es where body: "ts = (T_INSERT, S_op cmd) # (T_LB, S_none) #
        ((T_WORD, S_string w) # (T_LP, S_none) # (T_LB, S_none) # ws @ [(T_RB, S_none), (T_RP, S_none)]) @ [(T_RB, S_none)]"
      "entity_list_nt g ws es" "e = \<lparr>eb_typeName = bytes w, eb_entityList = es\<rparr>"
    by (auto simp: query_nt_simps entity_body_nt_simps)
  have "(T_WORD, S_string w) \<in> set (fst (read_tokens stof (lexemes input)))" using parsed(1) body(1) by simp
  then obtain x where "(T_WORD, x) \<in> set (lexemes input)" "yylex stof T_WORD x = Some (S_string w)"
    using read_tokens_mem by blast
  then have zero: "0 \<notin> set (bytes w)" using word_not_zero by (simp add: yylex_def)
  have rl: "groups_last es" using parsed(2) body(3) unfolding yyparse_iff by simp
  define ps r where "ps = butlast es" and "r = last es"
  have es: "es = ps @ r # []" using root(1) body(3) by (simp add: ps_def r_def)
  have r: "is_root r" "\<forall>x \<in> set []. \<not> is_root x" using root(2) body(3) by (simp_all add: r_def)
  have fields: "\<forall>x \<in> set (ps @ r # []). fields_ok x"
    using plus_nt_all [OF body(2)] entity_fields_ok unfolding es by blast
  let ?p = "statement_message g (InsertQueryNode cmd \<lparr>eb_typeName = bytes w, eb_entityList = ps @ r # []\<rparr>)"
  obtain jj F' tss' a j' en t where *:
    "entities_toJson g (ps @ r # []) = map_NJson type_num jj"
    "Apply gf gb ?p F = Some (Some \<lparr>pr_status = 0, pr_collection = []\<rparr>, F')"
    "types_inv F' tss'" "file_read a F' = Some (Some (j', en), F')" "doc_of j' = doc_of (c_json jj)"
    "file_read_type (type_ptr en) F' = Some (Some t, F')" "type_name t = bytes w"
    using insert_statement [OF inv r fields zero, of g gf gb cmd] name small room body(3) es by auto
  have e: "e = \<lparr>eb_typeName = bytes w, eb_entityList = ps @ r # []\<rparr>" using body(3) es by simp
  have "parse (length ts) g ts = ([InsertQueryNode cmd e], [])"
    using parsed(2) nt(2) body(1) by (simp del: yyparse.simps)
  moreover have "Client_Response_ctor \<lparr>pr_status = 0, pr_collection = []\<rparr> = Some \<lparr>cr_status = OK, cr_collection = []\<rparr>"
    by (simp add: Client_Response_ctor_def status_cast_def)
  ultimately have "Driver_parse g stof fout dbg (apply_stub gf gb) input (out, F) =
      Some (out @ dbg \<lparr>pr_status = 0, pr_collection = []\<rparr> @ nl @ bytes ''Status: OK'' @ nl, F')"
    using *(2) by (simp add: Driver_parse_def parsed(1) Driver_insert_def Client_Apply_def apply_stub_def e answer_text_def)
  moreover have "eb_typeName e = bytes w" "eb_entityList e = ps @ r # []" by (simp_all add: e)
  ultimately show ?thesis using * by metis
qed


definition sample_text :: string where
  "sample_text = ''insert { K ( { h : 150 } ) } ''"

definition sample_lexemes :: "(token \<times> string) list" where
  "sample_lexemes = [(T_INSERT, ''insert''), (T_LB, ''{''), (T_WORD, ''K''), (T_LP, ''(''), (T_LB, ''{''), (T_WORD, ''h''),
     (T_COLON, '':''), (T_INT, ''150''), (T_RB, ''}''), (T_RP, '')''), (T_RB, ''}'')]"

lemma sample_lexemes: "lexemes sample_text = sample_lexemes"
proof -
  let ?ls = "map (\<lambda>(t, x). (t, x, '' '')) sample_lexemes"
  have "spelled T_INSERT ''insert''" "spelled T_LB ''{''" "spelled T_RB ''}''" "spelled T_LP ''(''" "spelled T_RP '')''"
      "spelled T_COLON '':''" "spelled T_WORD ''K''" "spelled T_WORD ''h''" "spelled T_INT ''150''"
    by (simp_all add: spelled_def blank_def) code_simp+
  then have "\<forall>(t, x, w) \<in> set ?ls. spelled t x \<and> w \<noteq> [] \<and> (\<forall>c \<in> set w. blank c)"
    by (simp add: blank_def sample_lexemes_def)
  from lexemes_by_blanks [OF this] show ?thesis
    by (simp add: sample_text_def sample_lexemes_def)
qed

definition sample_body :: EntityBodyNode where
  "sample_body = \<lparr>eb_typeName = [75], eb_entityList = [EntityNode_root [FieldNode_ctor sample_mem [104] (FInt 150)]]\<rparr>"

lemma sample_parsed:
  "read_tokens stof (lexemes sample_text) = (insert_tokens INSERT ''K'' (sample_fields ''h'' 150), True)"
  "yyparse sample_mem (insert_tokens INSERT ''K'' (sample_fields ''h'' 150)) = ([InsertQueryNode INSERT sample_body], [], True)"
proof -
  show "read_tokens stof (lexemes sample_text) = (insert_tokens INSERT ''K'' (sample_fields ''h'' 150), True)"
    by (simp add: sample_lexemes sample_lexemes_def yylex_def insert_tokens_def sample_fields_def stoi_def digits_val_def commandTable_def)
  have f: "field_list_nt sample_mem (sample_fields ''h'' 150) [FieldNode_ctor sample_mem [104] (FInt 150)]"
    unfolding sample_fields_def
    by (rule plus_one) (simp add: field_nt_simps field_prods_def bytes_def)
  have "query_nt sample_mem (insert_tokens INSERT ''K'' (sample_fields ''h'' 150))
      (InsertQueryNode INSERT \<lparr>eb_typeName = bytes ''K'', eb_entityList = [EntityNode_root [FieldNode_ctor sample_mem [104] (FInt 150)]]\<rparr>)"
    by (intro insert_tokens_nt plus_one entity_root f)
  then show "yyparse sample_mem (insert_tokens INSERT ''K'' (sample_fields ''h'' 150)) = ([InsertQueryNode INSERT sample_body], [], True)"
    unfolding yyparse_iff by (auto intro: plus_one simp: sample_body_def bytes_def groups_last_def)
qed

theorem text_inserts_witness:
  "\<exists>jj F' tss' a j' en t.
    entities_toJson sample_mem (eb_entityList sample_body) = map_NJson type_num jj \<and>
    Driver_parse sample_mem (\<lambda>x. Some 0) (\<lambda>x. []) (\<lambda>r. []) (apply_stub 0 False) sample_text ([], empty_db 100000) =
      Some ([] @ [] @ nl @ bytes ''Status: OK'' @ nl, F') \<and>
    types_inv F' tss' \<and> file_read a F' = Some (Some (j', en), F') \<and> doc_of j' = doc_of (c_json jj) \<and>
    file_read_type (type_ptr en) F' = Some (Some t, F') \<and> type_name t = eb_typeName sample_body"
proof (rule text_inserts)
  show "types_inv (empty_db 100000) []" by (rule empty_db_types) simp_all
  show "read_tokens (\<lambda>x. Some 0) (lexemes sample_text) = (insert_tokens INSERT ''K'' (sample_fields ''h'' 150), True)"
    by (rule sample_parsed)
  show "yyparse sample_mem (insert_tokens INSERT ''K'' (sample_fields ''h'' 150)) = ([InsertQueryNode INSERT sample_body], [], True)"
    by (rule sample_parsed)
  have e: "entities_toJson sample_mem (eb_entityList sample_body) =
    NJson 4 [] 0 0 [] True None None (Some (NJson 0 [104] 150 0 [] True None None None))"
    by (simp add: sample_body_def EntityNode_root_def entities_toJson_def pick_root_def entity_toJson_def fields_toJson_def
        field_toJson_def FieldNode_mem_def sample_mem_def type_num_def)
  show "n_small (entities_toJson sample_mem (eb_entityList sample_body))" by (simp add: e)
  show "room_for (Suc (n_nodes (entities_toJson sample_mem (eb_entityList sample_body)))) (empty_db 100000)"
    by (simp add: e room_for_def empty_db_def) (simp add: fopen_w_def)
qed (simp_all add: sample_body_def EntityNode_root_def no_attrs_def first_named_def)

end
