(* ===== verification/Linked_List.thy ===== *)
theory Linked_List
  imports Json_Tree Sect_Header
begin

text \<open>
  \<^verbatim>\<open>dbms/include/utils/list.h\<close>, \<^verbatim>\<open>pair.h\<close> and \<^verbatim>\<open>table.h\<close>: the singly linked lists every collection of the
  program is. The other theories use HOL lists; here the macros are modelled on a heap of nodes
  linked by their \<^verbatim>\<open>next\<close> members, and \<open>list_rep\<close> relates both. The macro parameters \<^verbatim>\<open>CMP_FUNC\<close>,
  \<^verbatim>\<open>DTOR_FUNC\<close> and the payload type are parameters of the definitions. The locale \<open>node_dtor\<close> is what the list
  operations rely on in a destructor: it touches its node only. It holds of all three kinds the program has:
  those that free the node, \<^verbatim>\<open>path_dtor\<close>, which frees the name and leaves the node, and those of sections,
  which free it only if the header could be written. Following a pointer to no node is undefined.
\<close>

subsection \<open>State\<close>

type_synonym addr = u64
type_synonym 'a heap = "addr \<Rightarrow> ('a \<times> addr) option"

abbreviation NULL :: addr where "NULL \<equiv> 0"

record List_TYPE =
  l_head :: addr
  l_tail :: addr
  l_count :: size_t

type_synonym 'a list_state = "'a heap \<times> List_TYPE"

subsection \<open>Operations\<close>

definition list_new :: List_TYPE where
  "list_new = \<lparr>l_head = NULL, l_tail = NULL, l_count = 0\<rparr>"

definition deref :: "addr \<Rightarrow> ('a list_state, 'a \<times> addr) prog" where
  "deref p = (\<lambda>(h, c). case h p of None \<Rightarrow> undef (h, c) | Some n \<Rightarrow> ret n (h, c))"

definition set_next :: "addr \<Rightarrow> addr \<Rightarrow> ('a list_state, unit) prog" where
  "set_next p q = DO_OR_FAIL (deref p) (\<lambda>(x, _) (h, c). ret () (h(p \<mapsto> (x, q)), c))"

text \<open>
  \<^verbatim>\<open>DTOR_FUNC(p)\<close> as a statement: a status, where it has one, is ignored. Destructors work on the nodes;
  \<^verbatim>\<open>free\<close> takes the node from the heap. What they free besides (names, attributes) lies in no node and is left out.
\<close>

definition call_dtor :: "(addr \<Rightarrow> ('a heap, unit) prog) \<Rightarrow> addr \<Rightarrow> ('a list_state, unit) prog" where
  "call_dtor dtor p = (\<lambda>(h, c). case dtor p h of None \<Rightarrow> None | Some (_, h') \<Rightarrow> ret () (h', c))"

definition free_node :: "addr \<Rightarrow> ('a heap, unit) prog" where
  "free_node p = (\<lambda>h. case h p of None \<Rightarrow> None | Some _ \<Rightarrow> ret () (h(p := None)))"

text \<open>
  \<^verbatim>\<open>path_dtor\<close>: the name is freed, the node stays. A name is \<open>None\<close> when its buffer is gone; freeing it twice is
  undefined.
\<close>

definition path_dtor :: "addr \<Rightarrow> (String option heap, unit) prog" where
  "path_dtor p = (\<lambda>h. case h p of Some (Some name, nxt) \<Rightarrow> ret () (h(p \<mapsto> (None, nxt))) | _ \<Rightarrow> None)"

text \<open>
  \<^verbatim>\<open>sect_ext_dtor\<close> and \<^verbatim>\<open>sect_types_dtor\<close>, that is \<^verbatim>\<open>sect_head_dtor\<close>, on the header in its node: the pointers are
  cleared, and the node is freed unless writing the header fails; \<open>sync\<close> says whether it succeeds.
\<close>

definition sect_node_dtor :: "(Sect_head \<Rightarrow> bool) \<Rightarrow> addr \<Rightarrow> (Sect_head heap, unit) prog" where
  "sect_node_dtor sync p = (\<lambda>h. case h p of
       None \<Rightarrow> None
     | Some (x, nxt) \<Rightarrow>
         (let y = x\<lparr>free_space := 0, next_ptr := 0, lst_itm_ptr := 0, fst_rec_ptr := 0\<rparr>
          in if sync y then ret () (h(p := None)) else fail (h(p \<mapsto> (y, nxt)))))"

definition get_list :: "('a list_state, List_TYPE) prog" where
  "get_list = (\<lambda>(h, c). ret c (h, c))"

definition upd_list :: "(List_TYPE \<Rightarrow> List_TYPE) \<Rightarrow> ('a list_state, unit) prog" where
  "upd_list g = (\<lambda>(h, c). ret () (h, g c))"

text \<open>The loop of the destructor; \<^verbatim>\<open>free(collection)\<close> is left out.\<close>

partial_function (option) list_dtor ::
    "(addr \<Rightarrow> ('a heap, unit) prog) \<Rightarrow> 'a list_state \<Rightarrow> (unit option \<times> 'a list_state) option" where
  "list_dtor dtor s =
     (if l_head (snd s) = NULL then ret ()
      else DO_OR_FAIL (deref (l_head (snd s))) (\<lambda>(_, nxt).
           DO_OR_FAIL (call_dtor dtor (l_head (snd s))) (\<lambda>_.
           DO_OR_FAIL (upd_list (l_head_update (\<lambda>_. nxt))) (\<lambda>_.
           list_dtor dtor)))) s"

definition list_add :: "addr \<Rightarrow> ('a list_state, unit) prog" where
  "list_add ent =
     DO_OR_FAIL get_list (\<lambda>col.
     DO_OR_FAIL (if l_head col = NULL
       then upd_list (\<lambda>c. c\<lparr>l_head := ent, l_tail := ent\<rparr>)
       else DO_OR_FAIL (set_next (l_tail col) ent) (\<lambda>_. upd_list (\<lambda>c. c\<lparr>l_tail := ent\<rparr>))) (\<lambda>_.
     upd_list (\<lambda>c. c\<lparr>l_count := l_count c + 1\<rparr>)))"

definition list_del_fst :: "(addr \<Rightarrow> ('a heap, unit) prog) \<Rightarrow> ('a list_state, unit) prog" where
  "list_del_fst dtor =
     DO_OR_FAIL get_list (\<lambda>col.
     if l_count col > 1 then
       DO_OR_FAIL (deref (l_head col)) (\<lambda>(_, nxt).
       DO_OR_FAIL (call_dtor dtor (l_head col)) (\<lambda>_.
       upd_list (\<lambda>c. c\<lparr>l_head := nxt, l_count := l_count c - 1\<rparr>)))
     else if l_count col = 1 then
       DO_OR_FAIL (call_dtor dtor (l_head col)) (\<lambda>_.
       upd_list (\<lambda>c. c\<lparr>l_head := NULL, l_tail := NULL, l_count := l_count c - 1\<rparr>))
     else ret ())"

definition list_del_nxt :: "(addr \<Rightarrow> ('a heap, unit) prog) \<Rightarrow> addr \<Rightarrow> ('a list_state, unit) prog" where
  "list_del_nxt dtor ent =
     DO_OR_FAIL (deref ent) (\<lambda>(_, nxt).
     DO_OR_FAIL get_list (\<lambda>col.
     DO_OR_FAIL (if l_tail col = nxt then upd_list (\<lambda>c. c\<lparr>l_tail := ent\<rparr>) else ret ()) (\<lambda>_.
     if nxt \<noteq> NULL then
       DO_OR_FAIL (deref nxt) (\<lambda>(_, nn).
       DO_OR_FAIL (set_next ent nn) (\<lambda>_.
       DO_OR_FAIL (call_dtor dtor nxt) (\<lambda>_.
       upd_list (\<lambda>c. c\<lparr>l_count := l_count c - 1\<rparr>))))
     else ret ())))"

text \<open>The search of \<^verbatim>\<open>list_TYPE_add_lk_set\<close>: is an equal element reachable from \<open>cur\<close>?\<close>

partial_function (option) equal_from ::
    "('a \<Rightarrow> 'a \<Rightarrow> int) \<Rightarrow> addr \<Rightarrow> addr \<Rightarrow> 'a list_state \<Rightarrow> (bool option \<times> 'a list_state) option" where
  "equal_from cmp cur ent s =
     (if cur = NULL then ret False
      else DO_OR_FAIL (deref cur) (\<lambda>(x, nxt).
           DO_OR_FAIL (deref ent) (\<lambda>(y, _).
           if cmp x y = 0 then ret True else equal_from cmp nxt ent))) s"

definition list_add_lk_set :: "('a \<Rightarrow> 'a \<Rightarrow> int) \<Rightarrow> addr \<Rightarrow> ('a list_state, bool) prog" where
  "list_add_lk_set cmp ent =
     DO_OR_FAIL get_list (\<lambda>col.
     DO_OR_FAIL (equal_from cmp (l_head col) ent) (\<lambda>dup.
     if dup then ret False
     else DO_OR_FAIL (list_add ent) (\<lambda>_. ret True)))"

text \<open>How the program makes an element: \<^verbatim>\<open>calloc\<close> a node at a free address, fill it in, add it.\<close>

definition new_node :: "addr \<Rightarrow> 'a \<Rightarrow> ('a list_state, unit) prog" where
  "new_node p x = (\<lambda>(h, c). ret () (h(p \<mapsto> (x, NULL)), c))"

definition list_push :: "addr \<Rightarrow> 'a \<Rightarrow> ('a list_state, unit) prog" where
  "list_push p x = DO_OR_FAIL (new_node p x) (\<lambda>_. list_add p)"

definition list_front :: "('a list_state, 'a) prog" where
  "list_front = DO_OR_FAIL get_list (\<lambda>col. DO_OR_FAIL (deref (l_head col)) (\<lambda>(x, _). ret x))"

definition list_is_empty :: "'a list_state \<Rightarrow> bool" where
  "list_is_empty s \<longleftrightarrow> l_head (snd s) = NULL"

subsection \<open>Lists on the heap\<close>

fun path :: "'a heap \<Rightarrow> addr \<Rightarrow> (addr \<times> 'a) list \<Rightarrow> addr \<Rightarrow> bool" where
  "path h p [] q \<longleftrightarrow> p = q"
| "path h p ((a, x) # r) q \<longleftrightarrow> a = p \<and> p \<noteq> NULL \<and> (\<exists>n. h p = Some (x, n) \<and> path h n r q)"

definition list_at :: "'a heap \<Rightarrow> List_TYPE \<Rightarrow> (addr \<times> 'a) list \<Rightarrow> bool" where
  "list_at h c ps \<longleftrightarrow> path h (l_head c) ps NULL \<and> distinct (map fst ps) \<and>
     l_tail c = (if ps = [] then NULL else fst (last ps)) \<and> unat (l_count c) = length ps"

definition list_rep :: "'a list_state \<Rightarrow> 'a list \<Rightarrow> bool" where
  "list_rep s xs \<longleftrightarrow> (\<exists>ps. list_at (fst s) (snd s) ps \<and> xs = map snd ps)"

lemma path_NULL [simp]: "path h NULL ps q \<longleftrightarrow> ps = [] \<and> q = NULL"
  by (cases ps) auto

lemma path_append: "path h p (ps @ qs) q \<longleftrightarrow> (\<exists>r. path h p ps r \<and> path h r qs q)"
proof (induction ps arbitrary: p)
  case (Cons ax ps)
  then show ?case by (cases ax) auto
qed simp

lemma path_upd [simp]: "u \<notin> fst ` set ps \<Longrightarrow> path (h(u := v)) p ps q \<longleftrightarrow> path h p ps q"
  by (induction ps arbitrary: p) auto

lemma path_dom: "path h p ps q \<Longrightarrow> a \<in> fst ` set ps \<Longrightarrow> a \<noteq> NULL \<and> h a \<noteq> None"
proof (induction ps arbitrary: p)
  case (Cons bx ps)
  obtain n where "fst bx \<noteq> NULL" "h (fst bx) = Some (snd bx, n)" "path h n ps q"
    using Cons.prems(1) by (cases bx) auto
  moreover have "a = fst bx \<or> a \<in> fst ` set ps" using Cons.prems(2) by auto
  ultimately show ?case using Cons.IH [of n] by auto
qed simp

lemma path_snoc: "path h p (ps @ [(a, x)]) q \<longleftrightarrow> path h p ps a \<and> a \<noteq> NULL \<and> h a = Some (x, q)"
  by (auto simp: path_append)

lemma list_at_empty: "list_at h c [] \<longleftrightarrow> l_head c = NULL \<and> l_tail c = NULL \<and> l_count c = 0"
  by (auto simp: list_at_def unat_eq_0)

lemma list_new_at: "list_at h list_new []"
  by (simp add: list_at_empty list_new_def)

lemma list_at_head: "list_at h c ps \<Longrightarrow> l_head c = NULL \<longleftrightarrow> ps = []"
  by (cases ps) (auto simp: list_at_def)

text \<open>Nodes have different non-zero addresses, so the counter cannot wrap around.\<close>

lemma nodes_bound:
  fixes as :: "addr list"
  assumes "distinct as" "NULL \<notin> set as"
  shows "length as < 18446744073709551616"
proof -
  have "length as = card (set as)" using assms(1) by (simp add: distinct_card)
  also have "\<dots> < card (UNIV :: addr set)"
    using assms(2) by (intro psubset_card_mono) auto
  finally show ?thesis by (simp add: card_word)
qed

lemmas list_op_simps = get_list_def upd_list_def deref_def set_next_def new_node_def call_dtor_def

lemma list_add_at:
  assumes at: "list_at h c ps" and ent: "ent \<notin> fst ` set ps" "ent \<noteq> NULL" "h ent = Some (x, NULL)"
  shows "\<exists>h' c'. list_add ent (h, c) = Some (Some (), (h', c')) \<and> list_at h' c' (ps @ [(ent, x)]) \<and>
    (\<forall>p. h' p = None \<longleftrightarrow> h p = None)"
proof -
  have nn: "NULL \<notin> set (map fst ps @ [ent])" "distinct (map fst ps @ [ent])"
    using at ent path_dom [of h "l_head c" ps NULL NULL] by (auto simp: list_at_def)
  have "length (map fst ps @ [ent]) < 18446744073709551616" using nodes_bound [OF nn(2,1)] .
  then have cnt: "unat (l_count c + 1) = Suc (length ps)"
    using at unat_add_small [of "l_count c" 1] by (simp add: list_at_def)
  show ?thesis
  proof (cases ps rule: rev_cases)
    case Nil
    with at ent cnt show ?thesis
      by (auto simp: list_add_def list_op_simps DO_OR_FAIL_def list_at_def)
  next
    case (snoc qs bx)
    obtain b y where bx: "bx = (b, y)" by (cases bx)
    have p: "path h (l_head c) qs b" "b \<noteq> NULL" "h b = Some (y, NULL)" "l_tail c = b"
      and d: "distinct (map fst qs)" "b \<notin> fst ` set qs"
      using at by (auto simp: list_at_def snoc bx path_snoc)
    have b: "ent \<noteq> b" "ent \<notin> fst ` set qs" using ent(1) by (auto simp: snoc bx)
    have "l_head c \<noteq> NULL" using at by (simp add: list_at_head snoc)
    then have "list_add ent (h, c) = Some (Some (), (h(b \<mapsto> (y, ent)), c\<lparr>l_tail := ent, l_count := l_count c + 1\<rparr>))"
      using p by (simp add: list_add_def list_op_simps DO_OR_FAIL_def)
    moreover have "list_at (h(b \<mapsto> (y, ent))) (c\<lparr>l_tail := ent, l_count := l_count c + 1\<rparr>) (ps @ [(ent, x)])"
      using p d b ent cnt by (auto simp: list_at_def snoc bx path_append)
    ultimately show ?thesis using p(3) by auto
  qed
qed

lemma list_push_at:
  assumes at: "list_at h c ps" and p: "p \<noteq> NULL" "h p = None"
  shows "\<exists>h' c'. list_push p x (h, c) = Some (Some (), (h', c')) \<and> list_at h' c' (ps @ [(p, x)]) \<and>
    (\<forall>q. h' q = None \<longleftrightarrow> q \<noteq> p \<and> h q = None)"
proof -
  have fresh: "p \<notin> fst ` set ps" using at p path_dom [of h "l_head c" ps NULL p] by (auto simp: list_at_def)
  then have "list_at (h(p \<mapsto> (x, NULL))) c ps" using at by (simp add: list_at_def)
  from list_add_at [OF this fresh p(1), of x] show ?thesis
    by (auto simp: list_push_def new_node_def DO_OR_FAIL_def)
qed

lemma list_front_at: "list_at h c ((p, x) # ps) \<Longrightarrow> list_front (h, c) = Some (Some x, (h, c))"
  by (auto simp: list_front_def list_op_simps DO_OR_FAIL_def list_at_def)

text \<open>Nothing happens when there is no next node.\<close>

lemma list_del_nxt_last:
  assumes at: "list_at h c (ps @ [(a, x)])"
  shows "list_del_nxt dtor a (h, c) = Some (Some (), (h, c))"
  using at by (auto simp: list_at_def path_append list_del_nxt_def list_op_simps DO_OR_FAIL_def)

lemma equal_from_path:
  assumes "path h p ps NULL" "h ent = Some (y, m)"
  shows "equal_from cmp p ent (h, c) = Some (Some (\<exists>x \<in> set (map snd ps). cmp x y = 0), (h, c))"
  using assms(1)
proof (induction ps arbitrary: p)
  case Nil
  then show ?case by (simp add: equal_from.simps)
next
  case (Cons ax ps)
  then obtain n where p: "p = fst ax" "p \<noteq> NULL" "h p = Some (snd ax, n)" "path h n ps NULL"
    by (cases ax) auto
  have "equal_from cmp p ent (h, c) =
      (if cmp (snd ax) y = 0 then Some (Some True, (h, c)) else equal_from cmp n ent (h, c))"
    using p(2,3) assms(2) by (subst equal_from.simps) (simp add: list_op_simps DO_OR_FAIL_def)
  with Cons.IH [OF p(4)] show ?case by simp
qed

lemma list_add_lk_set_at:
  assumes at: "list_at h c ps" and ent: "ent \<notin> fst ` set ps" "ent \<noteq> NULL" "h ent = Some (x, NULL)"
  shows "\<exists>h' c'. list_add_lk_set cmp ent (h, c) = Some (Some (\<forall>y \<in> set (map snd ps). cmp y x \<noteq> 0), (h', c')) \<and>
    list_at h' c' (if \<forall>y \<in> set (map snd ps). cmp y x \<noteq> 0 then ps @ [(ent, x)] else ps)"
proof -
  have "path h (l_head c) ps NULL" using at by (simp add: list_at_def)
  note eq = equal_from_path [OF this ent(3), of cmp c]
  show ?thesis
  proof (cases "\<forall>y \<in> set (map snd ps). cmp y x \<noteq> 0")
    case True
    then have "list_add_lk_set cmp ent (h, c) = DO_OR_FAIL (list_add ent) (\<lambda>_. ret True) (h, c)"
      using eq by (auto simp: list_add_lk_set_def get_list_def DO_OR_FAIL_def)
    with list_add_at [OF at ent] True show ?thesis by (auto simp: DO_OR_FAIL_def)
  next
    case False
    then have "list_add_lk_set cmp ent (h, c) = Some (Some False, (h, c))"
      using eq by (auto simp: list_add_lk_set_def get_list_def DO_OR_FAIL_def)
    with at False show ?thesis by auto
  qed
qed

subsection \<open>The interface of a destructor\<close>

text \<open>
  What a list operation relies on when it calls a destructor on a node with a proper payload: it ends, whatever
  its status, and has changed this node only, to \<open>left x n\<close> (\<open>None\<close> when it is freed). The \<^verbatim>\<open>next\<close> pointer
  was read before.
\<close>

definition left_by :: "('a \<Rightarrow> addr \<Rightarrow> ('a \<times> addr) option) \<Rightarrow> addr set \<Rightarrow> 'a heap \<Rightarrow> 'a heap" where
  "left_by left N h = (\<lambda>p. if p \<in> N then (case h p of None \<Rightarrow> None | Some (x, n) \<Rightarrow> left x n) else h p)"

locale node_dtor =
  fixes dtor :: "addr \<Rightarrow> ('a heap, unit) prog"
    and proper :: "'a \<Rightarrow> bool"
    and left :: "'a \<Rightarrow> addr \<Rightarrow> ('a \<times> addr) option"
  assumes dtor_law: "h p = Some (x, n) \<Longrightarrow> proper x \<Longrightarrow> \<exists>r. dtor p h = Some (r, h(p := left x n))"
begin

lemma call_dtor_at: "h p = Some (x, n) \<Longrightarrow> proper x \<Longrightarrow> call_dtor dtor p (h, c) = Some (Some (), (h(p := left x n), c))"
  using dtor_law [of h p x n] by (auto simp: call_dtor_def)

lemma list_del_fst_at:
  assumes at: "list_at h c ((p, x) # ps)" and x: "proper x"
  shows "\<exists>c'. list_del_fst dtor (h, c) = Some (Some (), (left_by left {p} h, c')) \<and> list_at (left_by left {p} h) c' ps"
proof -
  from at obtain n where p: "l_head c = p" "p \<noteq> NULL" "h p = Some (x, n)" "path h n ps NULL"
    "p \<notin> fst ` set ps" "distinct (map fst ps)" "unat (l_count c) = Suc (length ps)"
    by (auto simp: list_at_def)
  note d = call_dtor_at [of h p x n, OF p(3) x]
  have lb: "left_by left {p} h = h(p := left x n)" using p(3) by (auto simp: left_by_def)
  have one: "l_count c > 1 \<longleftrightarrow> ps \<noteq> []" and "l_count c = 1 \<longleftrightarrow> ps = []"
    using p(7) by (auto simp: word_less_nat_alt dest: word_of_unat_eq)
  moreover have "unat (l_count c - 1) = length ps"
    using p(7) unat_sub_small [of 1 "l_count c"] by simp
  ultimately show ?thesis
    unfolding lb using p at d
    by (cases "ps = []") (auto simp: list_del_fst_def get_list_def upd_list_def deref_def DO_OR_FAIL_def list_at_def)
qed

lemma list_del_nxt_at:
  assumes at: "list_at h c (ps @ (a, x) # (b, y) # qs)" and y: "proper y"
  shows "\<exists>h' c'. list_del_nxt dtor a (h, c) = Some (Some (), (h', c')) \<and> list_at h' c' (ps @ (a, x) # qs) \<and>
    (\<forall>p. p \<noteq> a \<longrightarrow> h' p = left_by left {b} h p)"
proof -
  obtain n where p: "path h (l_head c) ps a" "a \<noteq> NULL" "h a = Some (x, b)" "b \<noteq> NULL"
    "h b = Some (y, n)" "path h n qs NULL" "a \<noteq> b" "a \<notin> fst ` set ps" "a \<notin> fst ` set qs"
    "b \<notin> fst ` set ps" "b \<notin> fst ` set qs" "distinct (map fst ps)" "distinct (map fst qs)"
    "fst ` set ps \<inter> fst ` set qs = {}" "unat (l_count c) = Suc (Suc (length ps + length qs))"
    "l_tail c = (if qs = [] then b else fst (last qs))"
    using at by (auto simp: list_at_def path_append)
  define h' where "h' = h(a \<mapsto> (x, n), b := left y n)"
  define c' where "c' = (if qs = [] then c\<lparr>l_tail := a\<rparr> else c)\<lparr>l_count := l_count c - 1\<rparr>"
  have "(h(a \<mapsto> (x, n))) b = Some (y, n)" using p(5,7) by simp
  note d = call_dtor_at [of "h(a \<mapsto> (x, n))" b y n, OF this y]
  have tl: "l_tail c = b \<longleftrightarrow> qs = []" using p(11,16) by (cases qs rule: rev_cases) auto
  have "unat (l_count c - 1) = Suc (length ps + length qs)"
    using p(15) unat_sub_small [of 1 "l_count c"] by simp
  moreover have "path h' (l_head c) ps a" "path h' n qs NULL" "h' a = Some (x, n)"
    using p(1,6-11) by (simp_all add: h'_def)
  ultimately have "list_at h' c' (ps @ (a, x) # qs)"
    using p(2,8,9,12-14,16) by (auto simp: list_at_def path_append c'_def)
  moreover have "list_del_nxt dtor a (h, c) = Some (Some (), (h', c'))"
    using p(2-5,7) tl d by (simp add: list_del_nxt_def get_list_def upd_list_def deref_def set_next_def DO_OR_FAIL_def h'_def c'_def)
  moreover have "h' p = left_by left {b} h p" if "p \<noteq> a" for p
    using that p(5) by (simp add: h'_def left_by_def)
  ultimately show ?thesis by blast
qed

lemma list_dtor_path:
  assumes "path h (l_head c) ps NULL" "distinct (map fst ps)" "\<forall>x \<in> snd ` set ps. proper x"
  shows "\<exists>c'. list_dtor dtor (h, c) = Some (Some (), (left_by left (fst ` set ps) h, c')) \<and> l_head c' = NULL"
  using assms
proof (induction ps arbitrary: h c)
  case Nil
  then show ?case by (simp add: list_dtor.simps left_by_def)
next
  case (Cons ax ps)
  obtain a x where ax: "ax = (a, x)" by (cases ax)
  obtain n where p: "l_head c = a" "a \<noteq> NULL" "h a = Some (x, n)" "path h n ps NULL"
    and d: "a \<notin> fst ` set ps" "distinct (map fst ps)"
    using Cons.prems(1,2) by (auto simp: ax)
  have x: "proper x" "\<forall>x \<in> snd ` set ps. proper x" using Cons.prems(3) by (simp_all add: ax)
  let ?c = "c\<lparr>l_head := n\<rparr>" and ?h = "h(a := left x n)"
  have "path ?h (l_head ?c) ps NULL" using p d by simp
  from Cons.IH [OF this d(2) x(2)] obtain c' where
    c': "list_dtor dtor (?h, ?c) = Some (Some (), (left_by left (fst ` set ps) ?h, c'))" "l_head c' = NULL" by blast
  have "list_dtor dtor (h, c) = list_dtor dtor (?h, ?c)"
    using p call_dtor_at [of h a x n c, OF p(3) x(1)]
    by (subst list_dtor.simps) (simp add: upd_list_def deref_def DO_OR_FAIL_def)
  moreover have "left_by left (fst ` set ps) ?h = left_by left (fst ` set (ax # ps)) h"
    using d(1) p(3) by (auto simp: left_by_def ax fun_eq_iff)
  ultimately show ?case using c' by auto
qed

end

interpretation freeing: node_dtor free_node "\<lambda>_. True" "\<lambda>_ _. None"
  by unfold_locales (simp add: free_node_def)

interpretation paths: node_dtor path_dtor "\<lambda>name. name \<noteq> None" "\<lambda>_ nxt. Some (None, nxt)"
  by unfold_locales (auto simp: path_dtor_def)

definition cleared_head :: "Sect_head \<Rightarrow> Sect_head" where
  "cleared_head x = x\<lparr>free_space := 0, next_ptr := 0, lst_itm_ptr := 0, fst_rec_ptr := 0\<rparr>"

interpretation sections: node_dtor "sect_node_dtor sync" "\<lambda>_. True"
    "\<lambda>x nxt. if sync (cleared_head x) then None else Some (cleared_head x, nxt)" for sync
  by unfold_locales (simp add: sect_node_dtor_def cleared_head_def Let_def)

subsection \<open>The interface of a queue\<close>

text \<open>
  What the program's collections are used for: elements are added at the end, and a loop looks at the
  first one and deletes it until none is left. \<open>free_at\<close> says that an address is free for the next
  element. The laws are all the loops need.
\<close>

locale fifo =
  fixes rep :: "'s \<Rightarrow> 'a list \<Rightarrow> bool"
    and free_at :: "'s \<Rightarrow> 'k \<Rightarrow> bool"
    and push :: "'k \<Rightarrow> 'a \<Rightarrow> ('s, unit) prog"
    and is_empty :: "'s \<Rightarrow> bool"
    and front :: "('s, 'a) prog"
    and del_fst :: "('s, unit) prog"
  assumes push_law: "rep s xs \<Longrightarrow> free_at s k \<Longrightarrow>
      \<exists>s'. push k x s = Some (Some (), s') \<and> rep s' (xs @ [x]) \<and> (\<forall>k'. k' \<noteq> k \<longrightarrow> free_at s k' \<longrightarrow> free_at s' k')"
    and empty_law: "rep s xs \<Longrightarrow> is_empty s \<longleftrightarrow> xs = []"
    and front_law: "rep s (x # xs) \<Longrightarrow> front s = Some (Some x, s)"
    and del_law: "rep s (x # xs) \<Longrightarrow> \<exists>s'. del_fst s = Some (Some (), s') \<and> rep s' xs"

text \<open>The two loops: fill a collection, and use it up.\<close>

fun fill :: "('k \<Rightarrow> 'a \<Rightarrow> ('s, unit) prog) \<Rightarrow> ('k \<times> 'a) list \<Rightarrow> ('s, unit) prog" where
  "fill push [] = ret ()"
| "fill push ((k, x) # kxs) = DO_OR_FAIL (push k x) (\<lambda>_. fill push kxs)"

partial_function (option) drain ::
    "('s \<Rightarrow> bool) \<Rightarrow> ('s, 'a) prog \<Rightarrow> ('s, unit) prog \<Rightarrow> ('a \<Rightarrow> 'b \<Rightarrow> 'b) \<Rightarrow> 'b \<Rightarrow> 's \<Rightarrow> ('b option \<times> 's) option" where
  "drain is_empty front del_fst body b s =
     (if is_empty s then ret b
      else DO_OR_FAIL front (\<lambda>x. DO_OR_FAIL del_fst (\<lambda>_. drain is_empty front del_fst body (body x b)))) s"

context fifo
begin

lemma fill_ok:
  "rep s xs \<Longrightarrow> distinct (map fst kxs) \<Longrightarrow> \<forall>k \<in> fst ` set kxs. free_at s k \<Longrightarrow>
    \<exists>s'. fill push kxs s = Some (Some (), s') \<and> rep s' (xs @ map snd kxs)"
proof (induction kxs arbitrary: s xs)
  case (Cons kx kxs)
  obtain k x where kx: "kx = (k, x)" by (cases kx)
  obtain s1 where s1: "push k x s = Some (Some (), s1)" "rep s1 (xs @ [x])"
    "\<forall>k'. k' \<noteq> k \<longrightarrow> free_at s k' \<longrightarrow> free_at s1 k'"
    using push_law [OF Cons.prems(1), of k x] Cons.prems(3) by (auto simp: kx)
  have "\<forall>k' \<in> fst ` set kxs. free_at s1 k'"
    using s1(3) Cons.prems(2,3) by (force simp: kx)
  with Cons.IH [OF s1(2)] Cons.prems(2) s1(1) show ?case by (auto simp: kx)
qed simp

lemma drain_ok:
  "rep s xs \<Longrightarrow> \<exists>s'. drain is_empty front del_fst body b s = Some (Some (fold body xs b), s') \<and> rep s' []"
proof (induction xs arbitrary: s b)
  case Nil
  then show ?case using empty_law [OF Nil] by (subst drain.simps) simp
next
  case (Cons x xs)
  obtain s1 where s1: "del_fst s = Some (Some (), s1)" "rep s1 xs" using del_law [OF Cons.prems] by blast
  have "drain is_empty front del_fst body b s = drain is_empty front del_fst body (body x b) s1"
    using empty_law [OF Cons.prems] front_law [OF Cons.prems] s1(1) by (subst drain.simps) simp
  with Cons.IH [OF s1(2)] show ?case by simp
qed

lemma fill_drain:
  assumes "rep s []" "distinct (map fst kxs)" "\<forall>k \<in> fst ` set kxs. free_at s k"
  shows "\<exists>s1 s2. fill push kxs s = Some (Some (), s1) \<and>
    drain is_empty front del_fst body b s1 = Some (Some (fold body (map snd kxs) b), s2) \<and> rep s2 []"
  using fill_ok [OF assms] drain_ok by fastforce

end

definition free_addr :: "'a list_state \<Rightarrow> addr \<Rightarrow> bool" where
  "free_addr s p \<longleftrightarrow> p \<noteq> NULL \<and> fst s p = None"

interpretation lists: fifo list_rep free_addr list_push list_is_empty list_front "list_del_fst free_node"
proof unfold_locales
  fix s :: "'a list_state" and xs k and x :: 'a
  assume "list_rep s xs" "free_addr s k"
  then obtain ps where "list_at (fst s) (snd s) ps" "xs = map snd ps" "k \<noteq> NULL" "fst s k = None"
    by (auto simp: list_rep_def free_addr_def)
  with list_push_at [of "fst s" "snd s" ps k x]
  obtain h' c' where "list_push k x s = Some (Some (), (h', c'))" "list_at h' c' (ps @ [(k, x)])"
    "\<forall>q. h' q = None \<longleftrightarrow> q \<noteq> k \<and> fst s q = None" by auto
  then show "\<exists>s'. list_push k x s = Some (Some (), s') \<and> list_rep s' (xs @ [x]) \<and>
      (\<forall>k'. k' \<noteq> k \<longrightarrow> free_addr s k' \<longrightarrow> free_addr s' k')"
    using \<open>xs = map snd ps\<close> by (fastforce simp: list_rep_def free_addr_def)
next
  fix s :: "'a list_state" and xs
  assume "list_rep s xs"
  then show "list_is_empty s \<longleftrightarrow> xs = []"
    by (auto simp: list_rep_def list_is_empty_def list_at_head)
next
  fix s :: "'a list_state" and x xs
  assume "list_rep s (x # xs)"
  then obtain p ps where "list_at (fst s) (snd s) ((p, x) # ps)" by (auto simp: list_rep_def)
  from list_front_at [OF this] show "list_front s = Some (Some x, s)" by simp
next
  fix s :: "'a list_state" and x xs
  assume "list_rep s (x # xs)"
  then obtain p ps where "list_at (fst s) (snd s) ((p, x) # ps)" "xs = map snd ps"
    by (auto simp: list_rep_def)
  with freeing.list_del_fst_at [OF this(1)] show "\<exists>s'. list_del_fst free_node s = Some (Some (), s') \<and> list_rep s' xs"
    by (auto simp: list_rep_def)
qed

subsection \<open>Searching\<close>

text \<open>
  The loops \<^verbatim>\<open>while (cur != NULL) { if (...) return cur; cur = cur->next; }\<close> of the file code: the
  address of the first node with the property, \<^verbatim>\<open>NULL\<close> without one.
\<close>

partial_function (option) find_from ::
    "('a \<Rightarrow> bool) \<Rightarrow> addr \<Rightarrow> 'a list_state \<Rightarrow> (addr option \<times> 'a list_state) option" where
  "find_from P cur s =
     (if cur = NULL then ret NULL
      else DO_OR_FAIL (deref cur) (\<lambda>(x, nxt). if P x then ret cur else find_from P nxt)) s"

lemma find_from_path:
  "path h p ps NULL \<Longrightarrow> find_from P p (h, c) =
    Some (Some (case find (\<lambda>(_, x). P x) ps of None \<Rightarrow> NULL | Some (a, _) \<Rightarrow> a), (h, c))"
proof (induction ps arbitrary: p)
  case Nil
  then show ?case by (simp add: find_from.simps)
next
  case (Cons ax ps)
  then obtain n where p: "p = fst ax" "p \<noteq> NULL" "h p = Some (snd ax, n)" "path h n ps NULL"
    by (cases ax) auto
  have "find_from P p (h, c) = (if P (snd ax) then Some (Some p, (h, c)) else find_from P n (h, c))"
    using p(2,3) by (subst find_from.simps) (simp add: list_op_simps DO_OR_FAIL_def)
  with Cons.IH [OF p(4)] p(1) show ?case by (cases ax) auto
qed

subsection \<open>Pairs and table entries\<close>

record ('f, 's) Pair =
  pair_f :: 'f
  pair_s :: 's

definition pair_ctor :: "'f \<Rightarrow> 's \<Rightarrow> ('f, 's) Pair" where
  "pair_ctor f s = \<lparr>pair_f = f, pair_s = s\<rparr>"

definition pair_cmp :: "('f \<Rightarrow> 'f \<Rightarrow> int) \<Rightarrow> ('s \<Rightarrow> 's \<Rightarrow> int) \<Rightarrow> ('f, 's) Pair \<Rightarrow> ('f, 's) Pair \<Rightarrow> int" where
  "pair_cmp f_cmp s_cmp this other =
     (let c = f_cmp (pair_f this) (pair_f other)
      in if c \<noteq> 0 then c else s_cmp (pair_s this) (pair_s other))"

definition sectoff_cmp :: "Sectoff \<Rightarrow> Sectoff \<Rightarrow> int" where
  "sectoff_cmp s1 s2 = memcmp (enc64 s1) (enc64 s2)"

definition fileoff_itm_cmp :: "Fileoff \<Rightarrow> Fileoff \<Rightarrow> int" where
  "fileoff_itm_cmp s1 s2 = (if s1 \<noteq> s2 then 1 else 0)"

definition pair_Json_Entity_cmp :: "(Json, Entity) Pair \<Rightarrow> (Json, Entity) Pair \<Rightarrow> int" where
  "pair_Json_Entity_cmp = pair_cmp json_cmp_wth_foff entity_cmp"

definition pair_Sectoff_Type_cmp :: "(Sectoff, Type) Pair \<Rightarrow> (Sectoff, Type) Pair \<Rightarrow> int" where
  "pair_Sectoff_Type_cmp = pair_cmp sectoff_cmp type_cmp"

lemma sectoff_cmp_zero_iff: "sectoff_cmp a b = 0 \<longleftrightarrow> a = b"
  by (simp add: sectoff_cmp_def memcmp_zero_iff u64_codec.enc_inject)

lemma fileoff_itm_cmp_zero_iff: "fileoff_itm_cmp a b = 0 \<longleftrightarrow> a = b"
  by (simp add: fileoff_itm_cmp_def)

lemma pair_cmp_zero_iff: "pair_cmp f s a b = 0 \<longleftrightarrow> f (pair_f a) (pair_f b) = 0 \<and> s (pair_s a) (pair_s b) = 0"
  by (simp add: pair_cmp_def Let_def)

subsection \<open>Properties\<close>

text \<open>C28: the linked list is the list it stands for, the empty one included. Adding a fresh node appends its
  element (to an empty list it becomes head and tail); deleting the first node drops the first element,
  if there is one, and deleting the node behind a given one removes that element alone, if there is one;
  in both cases the destructor is run on that node and on no other, whether it frees the node
  (\<open>left x n = None\<close>) or not. No operation follows a pointer to no node.\<close>

theorem linked_list_refines:
  assumes at: "list_at h c ps" and proper: "\<forall>x \<in> snd ` set ps. proper x"
    and dtor: "\<And>h p x n. h p = Some (x, n) \<Longrightarrow> proper x \<Longrightarrow> \<exists>r. dtor p h = Some (r, h(p := left x n))"
  shows "(\<forall>p y. p \<noteq> NULL \<and> h p = None \<longrightarrow>
       (\<exists>h' c'. list_push p y (h, c) = Some (Some (), (h', c')) \<and> list_at h' c' (ps @ [(p, y)]))) \<and>
    (\<exists>c'. list_del_fst dtor (h, c) = Some (Some (), (left_by left (fst ` set (take 1 ps)) h, c')) \<and>
       list_at (left_by left (fst ` set (take 1 ps)) h) c' (tl ps)) \<and>
    (\<forall>qs a x rs. ps = qs @ (a, x) # rs \<longrightarrow>
       (\<exists>h' c'. list_del_nxt dtor a (h, c) = Some (Some (), (h', c')) \<and> list_at h' c' (qs @ (a, x) # tl rs) \<and>
          (\<forall>p. p \<noteq> a \<longrightarrow> h' p = left_by left (fst ` set (take 1 rs)) h p)))"
proof (intro conjI allI impI)
  note nd = node_dtor.intro [of proper dtor left, OF dtor]
  fix p y
  assume "p \<noteq> NULL \<and> h p = None"
  with list_push_at [OF at, of p y]
  show "\<exists>h' c'. list_push p y (h, c) = Some (Some (), (h', c')) \<and> list_at h' c' (ps @ [(p, y)])" by auto
next
  note nd = node_dtor.intro [of proper dtor left, OF dtor]
  show "\<exists>c'. list_del_fst dtor (h, c) = Some (Some (), (left_by left (fst ` set (take 1 ps)) h, c')) \<and>
       list_at (left_by left (fst ` set (take 1 ps)) h) c' (tl ps)"
  proof (cases ps)
    case Nil
    then show ?thesis
      using at by (simp add: list_del_fst_def get_list_def DO_OR_FAIL_def left_by_def list_at_empty)
  next
    case (Cons px qs)
    obtain p x where px: "px = (p, x)" by (cases px)
    have "proper x" using proper by (simp add: Cons px)
    from node_dtor.list_del_fst_at [OF nd at [unfolded Cons px] this] show ?thesis by (simp add: Cons px)
  qed
next
  note nd = node_dtor.intro [of proper dtor left, OF dtor]
  fix qs a x rs
  assume ps: "ps = qs @ (a, x) # rs"
  show "\<exists>h' c'. list_del_nxt dtor a (h, c) = Some (Some (), (h', c')) \<and> list_at h' c' (qs @ (a, x) # tl rs) \<and>
          (\<forall>p. p \<noteq> a \<longrightarrow> h' p = left_by left (fst ` set (take 1 rs)) h p)"
  proof (cases rs)
    case Nil
    with at ps list_del_nxt_last [of h c qs a x dtor] show ?thesis by (simp add: left_by_def)
  next
    case (Cons bx rs')
    obtain b y where bx: "bx = (b, y)" by (cases bx)
    have "proper y" using proper by (simp add: ps Cons bx)
    from node_dtor.list_del_nxt_at [OF nd at [unfolded ps Cons bx] this] show ?thesis by (simp add: Cons bx)
  qed
qed

definition sample_heap :: "u64 heap" where
  "sample_heap = (\<lambda>_. None)(16 \<mapsto> (5, 32), 32 \<mapsto> (7, NULL))"

lemma sample_list: "list_at sample_heap \<lparr>l_head = 16, l_tail = 32, l_count = 2\<rparr> [(16, 5), (32, 7)]"
  by (simp add: list_at_def sample_heap_def)

theorem linked_list_refines_witness:
  "(\<exists>h' c'. list_push 16 5 (\<lambda>_. None, list_new) = Some (Some (), (h', c')) \<and> list_at h' c' [(16, 5 :: u64)]) \<and>
   (\<exists>h' c'. list_del_nxt free_node 16 (sample_heap, \<lparr>l_head = 16, l_tail = 32, l_count = 2\<rparr>) = Some (Some (), (h', c')) \<and>
    list_at h' c' [(16, 5)] \<and> h' 32 = None)"
proof
  have "\<forall>p (y :: u64). p \<noteq> NULL \<and> (\<lambda>_. None) p = (None :: (u64 \<times> addr) option) \<longrightarrow>
      (\<exists>h' c'. list_push p y (\<lambda>_. None, list_new) = Some (Some (), (h', c')) \<and> list_at h' c' ([] @ [(p, y)]))"
    by (rule conjunct1 [OF linked_list_refines [where h = "\<lambda>_. None" and proper = "\<lambda>_ :: u64. True" and dtor = free_node
          and left = "\<lambda>_ _. None", OF list_new_at]]) (simp_all add: free_node_def)
  from spec [OF spec [OF this, of 16], of 5]
  show "\<exists>h' c'. list_push 16 5 (\<lambda>_. None, list_new) = Some (Some (), (h', c')) \<and> list_at h' c' [(16, 5 :: u64)]"
    by simp
  have "\<forall>qs a x rs. [(16, 5), (32, 7)] = qs @ (a, x) # rs \<longrightarrow> (\<exists>h' c'. list_del_nxt free_node a
      (sample_heap, \<lparr>l_head = 16, l_tail = 32, l_count = 2\<rparr>) = Some (Some (), (h', c')) \<and>
      list_at h' c' (qs @ (a, x) # tl rs) \<and>
      (\<forall>p. p \<noteq> a \<longrightarrow> h' p = left_by (\<lambda>_ _. None) (fst ` set (take 1 rs)) sample_heap p))"
    by (rule conjunct2 [OF conjunct2 [OF linked_list_refines [where proper = "\<lambda>_. True" and dtor = free_node
          and left = "\<lambda>_ _. None", OF sample_list]]]) (simp_all add: free_node_def)
  from spec [OF spec [OF spec [OF spec [OF this, of "[]"], of 16], of 5], of "[(32, 7)]"]
  obtain h' c' where d: "list_del_nxt free_node 16 (sample_heap, \<lparr>l_head = 16, l_tail = 32, l_count = 2\<rparr>) = Some (Some (), (h', c'))"
    "list_at h' c' [(16, 5)]" "\<forall>p. p \<noteq> 16 \<longrightarrow> h' p = left_by (\<lambda>_ _. None) {32} sample_heap p" by auto
  have "h' 32 = left_by (\<lambda>_ _. None) {32} sample_heap 32" using d(3) by simp
  also have "\<dots> = None" by (simp add: left_by_def sample_heap_def)
  finally show "\<exists>h' c'. list_del_nxt free_node 16 (sample_heap, \<lparr>l_head = 16, l_tail = 32, l_count = 2\<rparr>) = Some (Some (), (h', c')) \<and>
    list_at h' c' [(16, 5)] \<and> h' 32 = None" using d(1,2) by blast
qed

text \<open>C29: \<open>list_add_lk_set\<close> keeps a list of pairwise different elements (as the comparison sees them): it
  adds the element exactly when none of the list equals it, and says so.\<close>

theorem add_lk_set_keeps_set:
  assumes at: "list_at h c ps" and set: "distinct (map (key \<circ> snd) ps)"
    and ent: "ent \<notin> fst ` set ps" "ent \<noteq> NULL" "h ent = Some (x, NULL)"
    and cmp: "\<And>y z. cmp y z = 0 \<longleftrightarrow> key y = key z"
  shows "\<exists>h' c' ps'. list_add_lk_set cmp ent (h, c) = Some (Some (key x \<notin> key ` snd ` set ps), (h', c')) \<and>
    list_at h' c' ps' \<and> distinct (map (key \<circ> snd) ps') \<and> key ` snd ` set ps' = insert (key x) (key ` snd ` set ps)"
proof -
  have new: "(\<forall>y \<in> set (map snd ps). cmp y x \<noteq> 0) \<longleftrightarrow> key x \<notin> key ` snd ` set ps"
    by (auto simp: cmp image_iff)
  define ps' where "ps' = (if key x \<notin> key ` snd ` set ps then ps @ [(ent, x)] else ps)"
  obtain h' c' where "list_add_lk_set cmp ent (h, c) = Some (Some (key x \<notin> key ` snd ` set ps), (h', c'))"
    "list_at h' c' ps'"
    using list_add_lk_set_at [OF at ent, of cmp] unfolding new ps'_def by blast
  moreover have "distinct (map (key \<circ> snd) ps')" using set by (force simp: ps'_def image_iff)
  moreover have "key ` snd ` set ps' = insert (key x) (key ` snd ` set ps)" by (auto simp: ps'_def)
  ultimately show ?thesis by blast
qed

theorem add_lk_set_keeps_set_witness:
  "\<exists>h' c' ps'. list_add_lk_set fileoff_itm_cmp 48 (sample_heap(48 \<mapsto> (7, NULL)), \<lparr>l_head = 16, l_tail = 32, l_count = 2\<rparr>) =
      Some (Some False, (h', c')) \<and> list_at h' c' ps' \<and> distinct (map (id \<circ> snd) ps') \<and> id ` snd ` set ps' = {5, 7}"
  using add_lk_set_keeps_set [of "sample_heap(48 \<mapsto> (7, NULL))" "\<lparr>l_head = 16, l_tail = 32, l_count = 2\<rparr>"
      "[(16, 5), (32, 7)]" id 48 7 fileoff_itm_cmp]
  by (simp add: fileoff_itm_cmp_zero_iff list_at_def sample_heap_def insert_commute)

text \<open>Filling a new list and using it up, as \<^verbatim>\<open>sect_ext_load\<close> and \<^verbatim>\<open>file_find\<close> do with a list of offsets,
  ends, and visits every element once, in the order in which they were added.\<close>

theorem list_loops_end:
  assumes "distinct (map fst kxs)" "\<forall>k \<in> fst ` set kxs. k \<noteq> NULL \<and> h k = None"
  shows "\<exists>s1 s2. fill list_push kxs (h, list_new) = Some (Some (), s1) \<and>
    drain list_is_empty list_front (list_del_fst free_node) body b s1 = Some (Some (fold body (map snd kxs) b), s2) \<and>
    list_rep s2 []"
proof (rule lists.fill_drain)
  show "list_rep (h, list_new) []" by (simp add: list_rep_def list_new_at)
qed (use assms in \<open>simp_all add: free_addr_def\<close>)

theorem list_loops_end_witness:
  "\<exists>s1 s2. fill list_push [(16, 5), (32, 7)] (\<lambda>_. None, list_new) = Some (Some (), s1) \<and>
    drain list_is_empty list_front (list_del_fst free_node) (\<lambda>x acc. acc @ [x]) [] s1 = Some (Some [5, 7 :: u64], s2) \<and>
    list_rep s2 []"
  using list_loops_end [of "[(16, 5), (32, 7 :: u64)]" "\<lambda>_. None" "\<lambda>x acc. acc @ [x]" "[]"] by auto

text \<open>C30: the destructor of a list returns, has called \<^verbatim>\<open>DTOR_FUNC\<close> on every node and has changed nothing else.
  What that leaves depends on \<^verbatim>\<open>DTOR_FUNC\<close>: one that ends in \<^verbatim>\<open>free\<close> leaves no node of the list; \<^verbatim>\<open>path_dtor\<close> leaves
  all of them, with their names freed, so that \<^verbatim>\<open>list_Path_dtor\<close> leaks the nodes; the destructors of sections
  leave those whose cleared header could not be written.\<close>

theorem list_dtor_effect:
  assumes "list_at h c ps" "list_at hp cp (map (\<lambda>(p, name). (p, Some name)) qs)" "list_at hs cs rs"
  shows "(\<exists>c'. list_dtor free_node (h, c) = Some (Some (), (\<lambda>p. if p \<in> fst ` set ps then None else h p, c')) \<and> l_head c' = NULL) \<and>
    (\<exists>c'. list_dtor path_dtor (hp, cp) = Some (Some (), (left_by (\<lambda>_ nxt. Some (None, nxt)) (fst ` set qs) hp, c')) \<and>
       l_head c' = NULL) \<and>
    (\<exists>c'. list_dtor (sect_node_dtor sync) (hs, cs) = Some (Some (), (left_by (\<lambda>x nxt.
         if sync (cleared_head x) then None else Some (cleared_head x, nxt)) (fst ` set rs) hs, c')) \<and> l_head c' = NULL)"
proof (intro conjI)
  have "left_by (\<lambda>_ _. None) (fst ` set ps) h = (\<lambda>p. if p \<in> fst ` set ps then None else h p)"
    by (auto simp: left_by_def fun_eq_iff split: option.splits)
  with freeing.list_dtor_path [of h c ps] assms(1)
  show "\<exists>c'. list_dtor free_node (h, c) = Some (Some (), (\<lambda>p. if p \<in> fst ` set ps then None else h p, c')) \<and> l_head c' = NULL"
    by (simp add: list_at_def)
next
  have "fst ` set (map (\<lambda>(p, name). (p, Some name)) qs) = fst ` set qs" by force
  with paths.list_dtor_path [of hp cp "map (\<lambda>(p, name). (p, Some name)) qs"] assms(2)
  show "\<exists>c'. list_dtor path_dtor (hp, cp) = Some (Some (), (left_by (\<lambda>_ nxt. Some (None, nxt)) (fst ` set qs) hp, c')) \<and>
      l_head c' = NULL"
    unfolding list_at_def by force
next
  from sections.list_dtor_path [of hs cs rs sync] assms(3)
  show "\<exists>c'. list_dtor (sect_node_dtor sync) (hs, cs) = Some (Some (), (left_by (\<lambda>x nxt.
         if sync (cleared_head x) then None else Some (cleared_head x, nxt)) (fst ` set rs) hs, c')) \<and> l_head c' = NULL"
    by (simp add: list_at_def)
qed

definition sample_path_heap :: "String option heap" where
  "sample_path_heap = (\<lambda>_. None)(16 \<mapsto> (Some [102], NULL))"

theorem list_dtor_effect_witness:
  "(\<exists>c'. list_dtor free_node (sample_heap, \<lparr>l_head = 16, l_tail = 32, l_count = 2\<rparr>) =
      Some (Some (), (\<lambda>p. if p \<in> {16, 32} then None else sample_heap p, c'))) \<and>
   (\<exists>h' c'. list_dtor path_dtor (sample_path_heap, \<lparr>l_head = 16, l_tail = 16, l_count = 1\<rparr>) = Some (Some (), (h', c')) \<and>
      h' 16 = Some (None, NULL))"
proof -
  have p: "list_at sample_path_heap \<lparr>l_head = 16, l_tail = 16, l_count = 1\<rparr> (map (\<lambda>(p, name). (p, Some name)) [(16, [102])])"
    by (simp add: list_at_def sample_path_heap_def)
  note eff = list_dtor_effect [OF sample_list p list_new_at [of "\<lambda>_. None"], of "\<lambda>_. True"]
  obtain c' where c': "list_dtor path_dtor (sample_path_heap, \<lparr>l_head = 16, l_tail = 16, l_count = 1\<rparr>) =
      Some (Some (), (left_by (\<lambda>_ nxt. Some (None, nxt)) {16} sample_path_heap, c'))"
    using conjunct1 [OF conjunct2 [OF eff]] by auto
  have "left_by (\<lambda>_ nxt. Some (None, nxt)) {16} sample_path_heap 16 = Some (None, NULL)"
    by (simp add: left_by_def sample_path_heap_def)
  with c' have paths: "\<exists>h' c'. list_dtor path_dtor (sample_path_heap, \<lparr>l_head = 16, l_tail = 16, l_count = 1\<rparr>) =
      Some (Some (), (h', c')) \<and> h' 16 = Some (None, NULL)" by blast
  obtain c2 where "list_dtor free_node (sample_heap, \<lparr>l_head = 16, l_tail = 32, l_count = 2\<rparr>) =
      Some (Some (), (\<lambda>p. if p \<in> fst ` set [(16 :: addr, 5 :: u64), (32, 7)] then None else sample_heap p, c2))"
    using conjunct1 [OF eff] by blast
  moreover have "fst ` set [(16 :: addr, 5 :: u64), (32, 7)] = {16, 32}" by simp
  ultimately show ?thesis using paths by (simp only:) blast
qed

end
