(* ===== verification/List_Clients.thy ===== *)
theory List_Clients
  imports Linked_List Iter
begin

text \<open>
  Two pieces of code that walk list pointers themselves instead of calling a list operation:
  \<^verbatim>\<open>get_sect_ext\<close> and \<^verbatim>\<open>get_sect_types\<close> of \<^verbatim>\<open>file.c\<close> search a list, \<^verbatim>\<open>iter_next\<close> of \<^verbatim>\<open>iter.c\<close> drops its first
  element. Here they are modelled with their pointers and related to the models on HOL lists, where a
  section is the index of its node.
\<close>

definition get_sect_ext_ptr :: "Fileoff \<Rightarrow> (Sect_head list_state, addr) prog" where
  "get_sect_ext_ptr foff =
     DO_OR_FAIL get_list (\<lambda>col.
     find_from (\<lambda>h. file_offset h \<le> foff \<and> file_offset h + SECTION_SIZE > foff) (l_head col))"

definition get_sect_types_ptr :: "Fileoff \<Rightarrow> (Sect_head list_state, addr) prog" where
  "get_sect_types_ptr foff =
     DO_OR_FAIL get_list (\<lambda>col.
     find_from (\<lambda>h. file_offset h \<le> foff \<and> file_offset h + SECTION_SIZE > foff) (l_head col))"

text \<open>The start of \<^verbatim>\<open>iter_next\<close>: the first pair is unlinked, not freed.\<close>

definition iter_pop :: "('a list_state, unit) prog" where
  "iter_pop =
     DO_OR_FAIL get_list (\<lambda>col.
     if l_count col > 1 then
       DO_OR_FAIL (deref (l_head col)) (\<lambda>(_, nxt).
       upd_list (\<lambda>c. c\<lparr>l_head := nxt, l_count := l_count c - 1\<rparr>))
     else if l_count col = 1 then
       upd_list (\<lambda>c. c\<lparr>l_head := NULL, l_tail := NULL, l_count := l_count c - 1\<rparr>)
     else ret ())"

lemma find_sect_from:
  "case_option NULL (\<lambda>i. fst (ps ! (i - k))) (find_sect k (map snd ps) foff) =
   (case find (\<lambda>(_, h). file_offset h \<le> foff \<and> file_offset h + SECTION_SIZE > foff) ps of
      None \<Rightarrow> NULL | Some (a, _) \<Rightarrow> a)"
proof (induction ps arbitrary: k)
  case (Cons ax ps)
  have ge: "find_sect (Suc k) hs foff = Some i \<Longrightarrow> Suc k \<le> i" for hs i k
    by (induction hs arbitrary: k) (auto split: if_splits dest: Suc_leD)
  show ?case
  proof (cases "find_sect (Suc k) (map snd ps) foff")
    case None
    then show ?thesis using Cons.IH [of "Suc k"] by (cases ax) (auto split: option.splits)
  next
    case (Some i)
    then have "i - k = Suc (i - Suc k)" using ge [OF Some] by simp
    then show ?thesis using Some Cons.IH [of "Suc k"] by (cases ax) auto
  qed
qed simp

lemma iter_pop_at:
  assumes "list_at h c ((p, x) # ps)"
  shows "\<exists>c'. iter_pop (h, c) = Some (Some (), (h, c')) \<and> list_at h c' ps"
proof -
  from assms obtain n where p: "l_head c = p" "p \<noteq> NULL" "h p = Some (x, n)" "path h n ps NULL"
    "distinct (map fst ps)" "unat (l_count c) = Suc (length ps)"
    by (auto simp: list_at_def)
  have "l_count c > 1 \<longleftrightarrow> ps \<noteq> []" "l_count c = 1 \<longleftrightarrow> ps = []"
    using p(6) by (auto simp: word_less_nat_alt dest: word_of_unat_eq)
  moreover have "unat (l_count c - 1) = length ps" using p(6) unat_sub_small [of 1 "l_count c"] by simp
  ultimately show ?thesis
    using p assms by (cases "ps = []") (auto simp: iter_pop_def list_op_simps DO_OR_FAIL_def list_at_def)
qed

text \<open>C31: on the linked lists of sections the two searches find the node whose index \<open>find_sect\<close> computes, or
  \<^verbatim>\<open>NULL\<close> when it finds none; and dropping the first hit of an iterator leaves the rest of its list.\<close>

theorem pointer_walks_refine:
  assumes "list_at h c ps"
  shows "get_sect_ext_ptr foff (h, c) =
      Some (Some (case find_sect 0 (map snd ps) foff of None \<Rightarrow> NULL | Some i \<Rightarrow> fst (ps ! i)), (h, c)) \<and>
    get_sect_types_ptr foff (h, c) = get_sect_ext_ptr foff (h, c) \<and>
    (\<exists>c'. iter_pop (h, c) = Some (Some (), (h, c')) \<and> list_at h c' (tl ps))"
proof (intro conjI)
  have "path h (l_head c) ps NULL" using assms by (simp add: list_at_def)
  from find_from_path [OF this] find_sect_from [of ps 0 foff, unfolded minus_nat.diff_0, symmetric]
  show "get_sect_ext_ptr foff (h, c) =
      Some (Some (case find_sect 0 (map snd ps) foff of None \<Rightarrow> NULL | Some i \<Rightarrow> fst (ps ! i)), (h, c))"
    by (simp add: get_sect_ext_ptr_def get_list_def DO_OR_FAIL_def)
  show "get_sect_types_ptr foff (h, c) = get_sect_ext_ptr foff (h, c)"
    by (simp add: get_sect_ext_ptr_def get_sect_types_ptr_def)
  show "\<exists>c'. iter_pop (h, c) = Some (Some (), (h, c')) \<and> list_at h c' (tl ps)"
  proof (cases ps)
    case Nil
    with assms show ?thesis
      by (auto simp: list_at_empty iter_pop_def list_op_simps DO_OR_FAIL_def)
  next
    case (Cons px ps')
    with assms iter_pop_at [of h c "fst px" "snd px" ps'] show ?thesis by simp
  qed
qed

theorem pointer_walks_refine_witness:
  "get_sect_ext_ptr 100 ((\<lambda>_. None)(16 \<mapsto> (sect_head_new\<lparr>file_offset := 8\<rparr>, NULL)),
      \<lparr>l_head = 16, l_tail = 16, l_count = 1\<rparr>) =
    Some (Some 16, ((\<lambda>_. None)(16 \<mapsto> (sect_head_new\<lparr>file_offset := 8\<rparr>, NULL)), \<lparr>l_head = 16, l_tail = 16, l_count = 1\<rparr>))"
  using pointer_walks_refine [of "(\<lambda>_. None)(16 \<mapsto> (sect_head_new\<lparr>file_offset := 8\<rparr>, NULL))"
      "\<lparr>l_head = 16, l_tail = 16, l_count = 1\<rparr>" "[(16, sect_head_new\<lparr>file_offset := 8\<rparr>)]" 100]
  by (simp add: list_at_def)

end
