(* ===== verification/Read_Spec.thy ===== *)
theory Read_Spec
  imports User_Spec
begin

text \<open>
  Reading is complete: over a table of slots without items under construction, the iterator of
  \<^verbatim>\<open>iter.c\<close> hands out exactly the documents the query accepts, each one once. \<open>type_name_at\<close> follows
  the type link of a document, \<open>query_check\<close> sees of a read document only its content.
\<close>

subsection \<open>Type links\<close>

text \<open>A link is 0 (below the root of a document) or the address of a type of that name.\<close>

definition link_ok :: "File \<Rightarrow> Fileoff \<Rightarrow> String option \<Rightarrow> bool" where
  "link_ok F tp name \<longleftrightarrow> (case name of
       None \<Rightarrow> tp = 0
     | Some nm \<Rightarrow> \<exists>i < length (f_types F). \<exists>soff t. tp = sect_head_get_fileoff (f_types F ! i) soff \<and>
         type_at (filp F) (f_types F ! i) (unat soff) t \<and> type_name t = nm)"

definition name_of :: "File \<Rightarrow> Fileoff \<Rightarrow> String option" where
  "name_of F tp = (case type_name_at tp F of Some (Some name, _) \<Rightarrow> name | _ \<Rightarrow> None)"

lemma find_sect_zero:
  "\<forall>h \<in> set hs. file_offset h \<noteq> 0 \<Longrightarrow> find_sect n hs 0 = None"
  by (induction hs arbitrary: n) auto

lemma type_name_at_link:
  assumes inv: "file_inv F" and l: "link_ok F tp name"
  shows "type_name_at tp F = Some (Some name, F)"
proof (cases name)
  case None
  have "file_offset h \<noteq> 0" if "h \<in> set (f_types F)" for h
    using file_invD(8) [OF inv, of h] that by (auto simp: sects_def)
  then have "get_sect_types F 0 = None" unfolding get_sect_types_def by (intro find_sect_zero) blast
  with l None show ?thesis by (simp add: type_name_at_def link_ok_def)
next
  case (Some nm)
  then obtain i soff t where i: "i < length (f_types F)" and tp: "tp = sect_head_get_fileoff (f_types F ! i) soff"
    and t: "type_at (filp F) (f_types F ! i) (unat soff) t" and nm: "type_name t = nm"
    using l by (auto simp: link_ok_def)
  let ?h = "f_types F ! i"
  have wf: "sect_wf (?h, filp F)" using file_invD(3) [OF inv] i by simp
  have s: "unat soff < 8192" using t wf by (auto simp: type_at_def items_len_def sect_wf_def)
  note a = fileoff_in_sect [OF wf s]
  have hit: "get_sect_types F tp = Some i"
    unfolding tp using a(1) s by (intro get_sect_types_hit [OF inv i]) simp_all
  obtain ent where rd: "read_type_name soff (?h, filp F) = Some (Some (ent, type_name t), (?h, filp F))"
    "read_attrs (unat (attr_cnt ent)) (soff + 24) (type_ctor (type_name t) []) (?h, filp F) = Some (Some t, (?h, filp F))"
    by (rule read_type_parts [OF wf t])
  show ?thesis
    unfolding type_name_at_def hit using rd
    by (simp add: on_types_def tp a(2) nm Some)
qed

lemma link_ok_name: "file_inv F \<Longrightarrow> link_ok F tp name \<Longrightarrow> name_of F tp = name"
  by (simp add: name_of_def type_name_at_link)

lemma link_ok_kept:
  assumes "link_ok F tp name" "types_kept F F'"
  shows "link_ok F' tp name"
proof (cases name)
  case None
  with assms(1) show ?thesis by (simp add: link_ok_def)
next
  case (Some nm)
  then obtain i soff t where i: "i < length (f_types F)" and tp: "tp = sect_head_get_fileoff (f_types F ! i) soff"
    and t: "type_at (filp F) (f_types F ! i) (unat soff) t" and nm: "type_name t = nm"
    using assms(1) by (auto simp: link_ok_def)
  have k: "keeps (f_types F ! i, filp F) (f_types F' ! i, filp F')" "i < length (f_types F')"
    using assms(2) i by (auto simp: types_kept_def)
  have "32 \<le> unat soff" using t by (simp add: type_at_def)
  then have t': "type_at (filp F') (f_types F' ! i) (unat soff) t" by (rule type_at_grow [OF t _ k(1)])
  have "tp = sect_head_get_fileoff (f_types F' ! i) soff"
    using tp keepsD(1) [OF k(1)] by (simp add: head_grows_def sect_head_get_fileoff_def)
  with k(2) t' nm Some show ?thesis unfolding link_ok_def by auto
qed

lemma extends_types_kept:
  assumes "types_inv F tss" "extends F F'"
  shows "types_kept F F'"
proof -
  have "f_types F' = f_types F" using assms(2) by (simp add: extends_def sects_grow_def)
  then show ?thesis using types_keeps [OF assms] by (simp add: types_kept_def)
qed

subsection \<open>Queries see the content\<close>

lemma bro_by_key_doc:
  "(case x of None \<Rightarrow> True | Some y \<Rightarrow> read_form y) \<Longrightarrow>
   bro_by_key (map_option doc_of x) key = map_option doc_of (bro_by_key x key) \<and>
   (case bro_by_key x key of None \<Rightarrow> True | Some y \<Rightarrow> read_form y)"
proof (induction x key rule: bro_by_key.induct)
  case (2 k v t b s n a key)
  then show ?case by (auto simp: map_option_case)
qed simp

lemma son_by_key_doc:
  assumes "read_form j"
  shows "json_son_by_key (doc_of j) key = map_option doc_of (json_son_by_key j key)"
    "json_son_by_key j key = Some y \<Longrightarrow> read_form y"
proof -
  have son: "json_son (doc_of j) = map_option doc_of (json_son j)"
    "case json_son j of None \<Rightarrow> True | Some y \<Rightarrow> read_form y"
    using assms by (cases j, simp add: map_option_case)+
  from bro_by_key_doc [OF son(2), of key] son(1)
  show "json_son_by_key (doc_of j) key = map_option doc_of (json_son_by_key j key)"
    "json_son_by_key j key = Some y \<Longrightarrow> read_form y"
    by (simp_all add: json_son_by_key_def split: option.splits)
qed

lemma drill_down_doc:
  "read_form j \<Longrightarrow> drill_down (doc_of j) ks = map_option doc_of (drill_down j ks) \<and>
     (\<forall>y. drill_down j ks = Some y \<longrightarrow> read_form y)"
proof (induction ks arbitrary: j)
  case (Cons k ks)
  show ?case
  proof (cases "json_son_by_key j k")
    case None
    with son_by_key_doc(1) [OF Cons.prems] show ?thesis by simp
  next
    case (Some y)
    with son_by_key_doc(1) [OF Cons.prems, of k] Cons.IH [OF son_by_key_doc(2) [OF Cons.prems Some]]
    show ?thesis by simp
  qed
qed simp

lemma jval_doc: "read_form j \<Longrightarrow> jval (doc_of j) = jval j"
  by (cases j) simp

lemma query_item_check_doc:
  assumes "read_form j"
  shows "query_item_check q (doc_of j) = query_item_check q j"
  using drill_down_doc [OF assms, of "q_key q"] jval_doc
  by (cases "drill_down j (q_key q)") (simp_all add: query_item_check_def split: Json_type.splits)

lemma check_items_doc: "read_form j \<Longrightarrow> check_items qs (doc_of j) = check_items qs j"
  by (induction qs) (simp_all add: query_item_check_doc split: option.splits bool.splits)

lemma query_check_doc: "read_form j \<Longrightarrow> query_check q (doc_of j) name = query_check q j name"
  by (simp add: query_check_def check_items_doc)

subsection \<open>One section\<close>

lemma ext_load_loop_ok:
  assumes wf: "sect_wf (h, f)" and n: "items h n"
    and rd: "\<And>k. k < n \<Longrightarrow> \<exists>x. sect_ext_read (word_of_nat (32 + 80 * k)) (h, f) = Some (Some x, (h, f))"
  shows "m \<le> n \<Longrightarrow> ext_load_loop (word_of_nat (32 + 80 * m)) col (h, f) =
    Some (Some (col @ map (\<lambda>k. sect_head_get_fileoff h (word_of_nat (32 + 80 * k))) [m..<n]), (h, f))"
proof (induction "n - m" arbitrary: m col)
  case 0
  have "\<not> word_of_nat (32 + 80 * m) < lst_itm_ptr h"
    using n 0 word_of_unat_eq [of "lst_itm_ptr h" "32 + 80 * n"] by (simp add: items_def)
  with 0 show ?case by (subst ext_load_loop.simps) simp
next
  case (Suc d)
  have m: "m < n" using Suc.hyps(2) by simp
  have l: "unat (lst_itm_ptr h) = 32 + 80 * n" "unat (lst_itm_ptr h) \<le> 8192"
    using n wf by (auto simp: items_def sect_wf_def)
  then have "unat (word_of_nat (32 + 80 * m) :: u64) = 32 + 80 * m"
    using m by (intro unat_of_nat_small) simp
  then have lt: "word_of_nat (32 + 80 * m) < lst_itm_ptr h"
    using m l by (simp add: word_less_nat_alt)
  obtain x where x: "sect_ext_read (word_of_nat (32 + 80 * m)) (h, f) = Some (Some x, (h, f))"
    using rd [OF m] by blast
  have step: "word_of_nat (32 + 80 * m) + sizeof_Entity = (word_of_nat (32 + 80 * Suc m) :: u64)"
    by simp
  have "ext_load_loop (word_of_nat (32 + 80 * m)) col (h, f) = ext_load_loop (word_of_nat (32 + 80 * Suc m))
      (col @ [sect_head_get_fileoff h (word_of_nat (32 + 80 * m))]) (h, f)"
    unfolding step [symmetric] by (subst ext_load_loop.simps) (use lt x in simp)
  also have "\<dots> = Some (Some (col @ map (\<lambda>k. sect_head_get_fileoff h (word_of_nat (32 + 80 * k))) [m..<n]), (h, f))"
    using Suc.hyps(1) [of "Suc m"] Suc.hyps(2) m by (simp add: upt_conv_Cons)
  finally show ?case .
qed

text \<open>A full table: no item is under construction.\<close>

abbreviation full :: "slot list list \<Rightarrow> bool" where
  "full dss \<equiv> holes dss = {}"

lemma fullD:
  assumes "full dss" "i < length dss" "k < length (dss ! i)"
  shows "\<exists>dad tp j. dss ! i ! k = Some (dad, tp, j)"
proof -
  have "dss ! i ! k \<noteq> None" using assms unfolding holes_def by blast
  then show ?thesis by auto
qed

lemma slot_addr_in:
  assumes inv: "file_inv F" and ok: "slots_ok P F dss" and i: "i < length dss" "k < length (dss ! i)"
  shows "unat (slot_addr F i k) = unat (file_offset (f_extent F ! i)) + (32 + 80 * k)"
    "get_sect_ext F (slot_addr F i k) = Some i"
    "sect_head_get_sectoff (f_extent F ! i) (slot_addr F i k) = word_of_nat (32 + 80 * k)"
proof -
  let ?h = "f_extent F ! i"
  have l: "i < length (f_extent F)" and n: "items ?h (length (dss ! i))" using slots_okD [OF ok] i(1) by simp_all
  have wf: "sect_wf (?h, filp F)" using file_invD(2) [OF inv] l by simp
  have "unat (lst_itm_ptr ?h) = 32 + 80 * length (dss ! i)" "unat (lst_itm_ptr ?h) \<le> 8192"
    using n wf by (auto simp: items_def sect_wf_def)
  then have b: "32 + 80 * k < 8192" using i(2) by simp
  then have u: "unat (word_of_nat (32 + 80 * k) :: u64) = 32 + 80 * k" by (intro unat_of_nat_small) simp
  note a = fileoff_in_sect [OF wf, of "word_of_nat (32 + 80 * k)", unfolded u, OF b]
  show "unat (slot_addr F i k) = unat (file_offset ?h) + (32 + 80 * k)" using a(1) by (simp add: slot_addr_def)
  then show "get_sect_ext F (slot_addr F i k) = Some i"
    using b by (intro get_sect_ext_hit [OF inv l]) simp_all
  show "sect_head_get_sectoff ?h (slot_addr F i k) = word_of_nat (32 + 80 * k)"
    using a(2) by (simp add: slot_addr_def)
qed

definition read_at :: "File \<Rightarrow> Fileoff \<Rightarrow> Json \<times> Entity" where
  "read_at F a = (case file_read a F of Some (Some r, _) \<Rightarrow> r)"

lemma wiped_item: "wiped P F (slot_addr F i k) \<Longrightarrow> unat (slot_addr F i k) = unat (file_offset (f_extent F ! i)) + (32 + 80 * k) \<Longrightarrow>
  item_ent (filp F) (f_extent F ! i) k = entity_new"
proof -
  assume b: "wiped P F (slot_addr F i k)" and u: "unat (slot_addr F i k) = unat (file_offset (f_extent F ! i)) + (32 + 80 * k)"
  have "fdata (filp F) c = 0"
    if "unat (file_offset (f_extent F ! i)) + 32 + 80 * k \<le> c" "c < unat (file_offset (f_extent F ! i)) + 32 + 80 * k + 80" for c
  proof -
    have "unat (slot_addr F i k) \<le> c" "c < unat (slot_addr F i k) + 80" using that unfolding u by simp_all
    with b show ?thesis by (simp add: wiped_def)
  qed
  then have "\<not> item_used (filp F) (f_extent F ! i) k" unfolding item_used_iff by blast
  then show ?thesis by (simp add: item_used_ent)
qed

text \<open>An item of zeros is read as a document.\<close>

lemma sect_ext_read_wiped:
  assumes wf: "sect_wf (h, f)" and n: "items h n" "k < n" and z: "item_ent f h k = entity_new"
  shows "sect_ext_read (word_of_nat (32 + 80 * k)) (h, f) = Some (Some (entity_new, ghost), (h, f))"
proof -
  have l: "32 + 80 * k + 80 \<le> unat (lst_itm_ptr h)" using n unfolding items_def by linarith
  have b: "file_ok f" "unat (lst_itm_ptr h) \<le> 8192" "unat (file_offset h) + unat (lst_itm_ptr h) \<le> fsize f"
    using wf by (auto simp: sect_wf_def)
  have u: "unat (word_of_nat (32 + 80 * k) :: u64) = 32 + 80 * k" using l b(2) by (intro unat_of_nat_small) simp
  have rd: "sect_ext_rd_itm (word_of_nat (32 + 80 * k)) (h, f) = Some (Some entity_new, (h, f))"
    using b l item_bytes [of f h k] z by (subst sect_ext_rd_itm_ok) (simp_all add: u add.assoc del: of_nat_add)
  have r0: "sect_head_read 0 0 (h, f) = Some (Some [], (h, f))" using b by (subst sect_head_read_opt) simp_all
  have "dec64 (replicate 8 0) = 0"
    using dec64_enc64 [of 0] by (simp add: dec64_def eval_nat_numeral)
  moreover have "type_of_code 0 = Some TYPE_INT32" by (simp add: type_of_code_def)
  moreover have "key_ptr entity_new = 0" "key_size entity_new = 0" "val_ptr entity_new = 0" "val_size entity_new = 0"
    "ent_type entity_new = 0"
    by (simp_all add: entity_new_def)
  ultimately show ?thesis
    using rd r0 sync_wf [OF wf]
    by (simp add: sect_ext_read_def read_union_def json_ctor_def string_ctor_def ghost_def del: of_nat_add)
qed

lemma slot_read_wiped:
  assumes inv: "file_inv F" and ok: "slots_ok P F dss" and i: "i < length dss" "k < length (dss ! i)"
    and b: "wiped P F (slot_addr F i k)"
  shows "file_read (slot_addr F i k) F = Some (Some (json_set_foff (slot_addr F i k) ghost, entity_new), F)"
    "sect_ext_read (word_of_nat (32 + 80 * k)) (f_extent F ! i, filp F) =
      Some (Some (entity_new, ghost), (f_extent F ! i, filp F))"
proof -
  note a = slot_addr_in [OF inv ok i]
  have l: "i < length (f_extent F)" and n: "items (f_extent F ! i) (length (dss ! i))"
    using slots_okD(1,2) [OF ok] i(1) by simp_all
  have wf: "sect_wf (f_extent F ! i, filp F)" using file_invD(2) [OF inv] l by simp
  show r: "sect_ext_read (word_of_nat (32 + 80 * k)) (f_extent F ! i, filp F) =
      Some (Some (entity_new, ghost), (f_extent F ! i, filp F))"
    by (rule sect_ext_read_wiped [OF wf n i(2) wiped_item [OF b a(1)]])
  have "ext_at (slot_addr F i k) sect_ext_read F = Some (Some (entity_new, ghost), F)"
    using r by (simp add: ext_at_def on_ext_def a(2,3) del: of_nat_add)
  then show "file_read (slot_addr F i k) F = Some (Some (json_set_foff (slot_addr F i k) ghost, entity_new), F)"
    by (subst file_read.simps) (simp add: entity_new_def Let_def)
qed

lemma sect_read_stored:
  assumes inv: "file_inv F" and ok: "slots_ok P F dss" and i: "i < length dss" "k < length (dss ! i)"
    and st: "json_ok j" "stored P F (slot_addr F i k) dad tp j"
  shows "\<exists>x. sect_ext_read (word_of_nat (32 + 80 * k)) (f_extent F ! i, filp F) = Some (Some x, (f_extent F ! i, filp F))"
proof -
  let ?a = "slot_addr F i k"
  obtain k' v t b s' n x where j: "j = Json k' v t b s' n x" by (cases j)
  obtain e' where e': "node_at P F ?a e' k' (val_bytes t v)" "ent_type e' = type_code t"
    using st(2) unfolding j by auto
  have "canonical k'" "val_ok t v" using st(1) unfolding j by simp_all
  from ext_at_read [OF inv e'(1) decode_json_val [OF e'(2) this(2,1)]]
  obtain y where y: "ext_at ?a sect_ext_read F = Some (Some y, F)" by blast
  then have "on_ext i (sect_ext_read (word_of_nat (32 + 80 * k))) F = Some (Some y, F)"
    using slot_addr_in(2,3) [OF inv ok i] by (simp add: ext_at_def on_ext_def)
  then obtain h' f' where hf: "sect_ext_read (word_of_nat (32 + 80 * k)) (f_extent F ! i, filp F) = Some (Some y, (h', f'))"
    "F\<lparr>filp := f', f_extent := (f_extent F)[i := h']\<rparr> = F"
    by (auto simp: on_ext_def)
  have "filp (F\<lparr>filp := f', f_extent := (f_extent F)[i := h']\<rparr>) = filp F"
    "f_extent (F\<lparr>filp := f', f_extent := (f_extent F)[i := h']\<rparr>) ! i = f_extent F ! i"
    using hf(2) by simp_all
  moreover have "i < length (f_extent F)" using slots_okD(1) [OF ok] i(1) by simp
  ultimately have "f' = filp F" "h' = f_extent F ! i" by simp_all
  with hf(1) show "\<exists>x. sect_ext_read (word_of_nat (32 + 80 * k)) (f_extent F ! i, filp F) = Some (Some x, (f_extent F ! i, filp F))"
    by blast
qed

lemma slot_read:
  assumes inv: "file_inv F" and ok: "slots_ok P F dss" and i: "i < length dss" "k < length (dss ! i)"
    and s: "dss ! i ! k = Some (dad, tp, j)"
  shows "file_read (slot_addr F i k) F = Some (Some (read_at F (slot_addr F i k)), F)"
    "doc_of (fst (read_at F (slot_addr F i k))) = doc_of j" "read_form (fst (read_at F (slot_addr F i k)))"
    "type_ptr (snd (read_at F (slot_addr F i k))) = tp" "jfoff (fst (read_at F (slot_addr F i k))) = slot_addr F i k"
    "\<exists>x. sect_ext_read (word_of_nat (32 + 80 * k)) (f_extent F ! i, filp F) = Some (Some x, (f_extent F ! i, filp F))"
proof -
  let ?a = "slot_addr F i k"
  have st: "json_ok j" "stored P F ?a dad tp j \<or> wiped P F ?a \<and> tp = 0 \<and> j = ghost"
    using slots_okD(3) [OF ok i] s by (auto simp: slot_ok_def)
  have "\<exists>j' e. file_read ?a F = Some (Some (j', e), F) \<and> doc_of j' = doc_of j \<and> type_ptr e = tp \<and> read_form j' \<and> jfoff j' = ?a"
  proof (cases "stored P F ?a dad tp j")
    case True
    from file_read_stored [OF inv True st(1)] show ?thesis by blast
  next
    case False
    then have b: "wiped P F ?a" "tp = 0" "j = ghost" using st(2) by simp_all
    show ?thesis using slot_read_wiped(1) [OF inv ok i b(1)] b(2,3) by (simp add: ghost_def entity_new_def)
  qed
  then obtain j' e where r: "file_read ?a F = Some (Some (j', e), F)" "doc_of j' = doc_of j" "type_ptr e = tp" "read_form j'" "jfoff j' = ?a"
    by blast
  have ra: "read_at F ?a = (j', e)" using r(1) by (simp add: read_at_def)
  show "file_read ?a F = Some (Some (read_at F ?a), F)" "doc_of (fst (read_at F ?a)) = doc_of j"
    "read_form (fst (read_at F ?a))" "type_ptr (snd (read_at F ?a)) = tp" "jfoff (fst (read_at F ?a)) = ?a"
    using r by (simp_all add: ra)
  show "\<exists>x. sect_ext_read (word_of_nat (32 + 80 * k)) (f_extent F ! i, filp F) = Some (Some x, (f_extent F ! i, filp F))"
    using st(2) sect_read_stored [OF inv ok i st(1)] slot_read_wiped(2) [OF inv ok i] by blast
qed

definition row_addrs :: "File \<Rightarrow> nat \<Rightarrow> nat \<Rightarrow> Fileoff list" where
  "row_addrs F i n = map (slot_addr F i) [0..<n]"

lemma on_ext_load:
  assumes inv: "file_inv F" and ok: "slots_ok P F dss" and full: "full dss" and i: "i < length dss"
  shows "on_ext i sect_ext_load F = Some (Some (row_addrs F i (length (dss ! i))), F)"
proof -
  let ?h = "f_extent F ! i"
  have l: "i < length (f_extent F)" and n: "items ?h (length (dss ! i))" using slots_okD [OF ok] i by simp_all
  have wf: "sect_wf (?h, filp F)" using file_invD(2) [OF inv] l by simp
  have rd: "\<exists>x. sect_ext_read (word_of_nat (32 + 80 * k)) (?h, filp F) = Some (Some x, (?h, filp F))"
    if k: "k < length (dss ! i)" for k
  proof -
    obtain dad tp j where "dss ! i ! k = Some (dad, tp, j)"
      using fullD [OF full i k] by blast
    from slot_read(6) [OF inv ok i k this] show ?thesis .
  qed
  from ext_load_loop_ok [OF wf n rd, of 0 "[]"] show ?thesis
    by (simp add: sect_ext_load_def on_ext_def row_addrs_def slot_addr_def [abs_def])
qed

subsection \<open>Hits\<close>

text \<open>What a query finds among the documents at given addresses.\<close>

definition accepts :: "File \<Rightarrow> Query \<Rightarrow> Json \<times> Entity \<Rightarrow> bool" where
  "accepts F q x \<longleftrightarrow> query_check q (fst x) (name_of F (type_ptr (snd x))) = Some True"

definition hits :: "File \<Rightarrow> Query \<Rightarrow> Fileoff list \<Rightarrow> (Json \<times> Entity) list" where
  "hits F q as = filter (accepts F q) (map (read_at F) as)"

definition readable :: "File \<Rightarrow> Fileoff \<Rightarrow> bool" where
  "readable F a \<longleftrightarrow> file_read a F = Some (Some (read_at F a), F) \<and>
     type_name_at (type_ptr (snd (read_at F a))) F = Some (Some (name_of F (type_ptr (snd (read_at F a)))), F)"

definition checkable :: "File \<Rightarrow> Query \<Rightarrow> Fileoff \<Rightarrow> bool" where
  "checkable F q a \<longleftrightarrow> query_check q (fst (read_at F a)) (name_of F (type_ptr (snd (read_at F a)))) \<noteq> None"

lemma find_matching_eq:
  "\<forall>a \<in> set as. readable F a \<Longrightarrow> find_matching as q col F =
     (if \<forall>a \<in> set as. checkable F q a then Some (Some (OK, col @ hits F q as), F) else None)"
proof (induction "as" arbitrary: col)
  case (Cons a "as")
  obtain j e where x: "read_at F a = (j, e)" by (cases "read_at F a")
  have r: "file_read a F = Some (Some (j, e), F)" "type_name_at (type_ptr e) F = Some (Some (name_of F (type_ptr e)), F)"
    using Cons.prems by (simp_all add: readable_def x)
  show ?case
  proof (cases "query_check q j (name_of F (type_ptr e))")
    case None
    then have "find_matching (a # as) q col F = None" "\<not> checkable F q a" using r by (simp_all add: checkable_def x)
    then show ?thesis by simp
  next
    case (Some c)
    then have "find_matching (a # as) q col F = find_matching as q (if c then col @ [(j, e)] else col) F"
      "checkable F q a" using r by (simp_all add: checkable_def x)
    with Cons Some show ?thesis by (simp add: hits_def accepts_def x)
  qed
qed (simp add: hits_def)

lemma file_find_eq:
  assumes "file_inv F" "slots_ok P F dss" "full dss" "i < length dss"
    and "\<And>k. k < length (dss ! i) \<Longrightarrow> readable F (slot_addr F i k)"
  shows "file_find i q [] F =
    (if \<forall>k < length (dss ! i). checkable F q (slot_addr F i k)
     then Some (Some (OK, hits F q (row_addrs F i (length (dss ! i)))), F) else None)"
proof -
  have "\<forall>a \<in> set (row_addrs F i (length (dss ! i))). readable F a"
    using assms(5) by (auto simp: row_addrs_def)
  from find_matching_eq [OF this, of q "[]"] on_ext_load [OF assms(1-4)]
  have "file_find i q [] F = (if \<forall>a \<in> set (row_addrs F i (length (dss ! i))). checkable F q a
     then Some (Some (OK, hits F q (row_addrs F i (length (dss ! i)))), F) else None)"
    by (simp add: file_find_def)
  moreover have "(\<forall>a \<in> set (row_addrs F i (length (dss ! i))). checkable F q a) \<longleftrightarrow>
      (\<forall>k < length (dss ! i). checkable F q (slot_addr F i k))"
    by (auto simp: row_addrs_def)
  ultimately show ?thesis by simp
qed

subsection \<open>The iterator\<close>

text \<open>
  \<open>yields F it xs\<close>: reading the iterator to its end on the unchanged file hands out \<open>xs\<close>, the way
  \<^verbatim>\<open>dbms_server.hpp\<close> and \<^verbatim>\<open>user.c\<close> loop over it.
\<close>

inductive yields :: "File \<Rightarrow> Iter \<Rightarrow> (Json \<times> Entity) list \<Rightarrow> bool" for F where
  at_end: "\<not> iter_is_avail it \<Longrightarrow> yields F it []"
| a_hit: "iter_is_avail it \<Longrightarrow> iter_next it F = Some (Some it', F) \<Longrightarrow> yields F it' xs \<Longrightarrow>
    yields F it ((iter_get_json it, iter_get_entity it) # xs)"

inductive_cases yieldsE: "yields F it xs"

lemma yields_det: "yields F it xs \<Longrightarrow> yields F it ys \<Longrightarrow> xs = ys"
proof (induction arbitrary: ys rule: yields.induct)
  case (at_end it)
  then show ?case by (auto elim: yieldsE)
next
  case (a_hit it it' xs)
  from a_hit.prems show ?case
  proof (rule yieldsE)
    fix it1 ys'
    assume "ys = (iter_get_json it, iter_get_entity it) # ys'" "iter_next it F = Some (Some it1, F)" "yields F it1 ys'"
    with a_hit.hyps(2) a_hit.IH show ?thesis by simp
  qed (use a_hit.hyps(1) in simp)
qed

text \<open>The first section with a hit.\<close>

definition found :: "(nat \<Rightarrow> 'a list) \<Rightarrow> nat list \<Rightarrow> nat \<Rightarrow> 'a list \<Rightarrow> bool" where
  "found row is i c \<longleftrightarrow> c = row i \<and> c \<noteq> [] \<and> (\<exists>bs as. is = bs @ i # as \<and> concat (map row bs) = [])"

lemma found_first: "row i \<noteq> [] \<Longrightarrow> found row (i # is) i (row i)"
proof -
  assume "row i \<noteq> []"
  moreover have "i # is = [] @ i # is \<and> concat (map row []) = []" by simp
  ultimately show ?thesis unfolding found_def by blast
qed

lemma found_later:
  assumes "row i = []" "found row is j c"
  shows "found row (i # is) j c"
proof -
  obtain bs "as" where "is = bs @ j # as" "concat (map row bs) = []" using assms(2) by (auto simp: found_def)
  with assms(1) have "i # is = (i # bs) @ j # as \<and> concat (map row (i # bs)) = []" by simp
  with assms(2) show ?thesis unfolding found_def by blast
qed

lemma first_hits_ok:
  assumes "\<And>i. i \<in> set is \<Longrightarrow> file_find i q [] F = Some (Some (OK, row i), F)"
  shows "concat (map row is) = [] \<and> first_hits is q F = Some (Some (None, []), F) \<or>
    (\<exists>i c. found row is i c \<and> first_hits is q F = Some (Some (Some i, c), F))"
  using assms
proof (induction "is")
  case (Cons i "is")
  have f: "file_find i q [] F = Some (Some (OK, row i), F)" using Cons.prems by simp
  show ?case
  proof (cases "row i = []")
    case False
    with f found_first [of row i "is"] show ?thesis by simp
  next
    case True
    with f have eq: "first_hits (i # is) q F = first_hits is q F" by simp
    have "concat (map row is) = [] \<and> first_hits is q F = Some (Some (None, []), F) \<or>
      (\<exists>i c. found row is i c \<and> first_hits is q F = Some (Some (Some i, c), F))"
      using Cons.prems by (intro Cons.IH) simp
    then show ?thesis unfolding eq using True found_later [of row i, OF True] by auto
  qed
qed simp

lemma next_hits_ok:
  assumes "\<And>i. i \<in> set is \<Longrightarrow> file_find i q [] F = Some (Some (OK, row i), F)"
  shows "concat (map row is) = [] \<and> (\<exists>i. next_hits is cur q F = Some (Some (i, []), F)) \<or>
    (\<exists>i c. found row is i c \<and> next_hits is cur q F = Some (Some (i, c), F))"
  using assms
proof (induction "is" arbitrary: cur)
  case (Cons i "is")
  have f: "file_find i q [] F = Some (Some (OK, row i), F)" using Cons.prems by simp
  show ?case
  proof (cases "row i = []")
    case False
    with f found_first [of row i "is"] show ?thesis by simp
  next
    case True
    with f have eq: "next_hits (i # is) cur q F = next_hits is i q F" by simp
    have "concat (map row is) = [] \<and> (\<exists>j. next_hits is i q F = Some (Some (j, []), F)) \<or>
      (\<exists>j c. found row is j c \<and> next_hits is i q F = Some (Some (j, c), F))"
      using Cons.prems by (intro Cons.IH) simp
    then show ?thesis unfolding eq using True found_later [of row i, OF True] by auto
  qed
qed simp

lemma upt_split: "[a..<n] = bs @ i # as \<Longrightarrow> as = [Suc i..<n] \<and> i < n"
proof -
  assume eq: "[a..<n] = bs @ i # as"
  then have len: "n - a = length bs + Suc (length as)" by (metis length_append length_Cons length_upt)
  have "[a..<n] ! length bs = i" using eq by simp
  then have i: "i = a + length bs" using len by simp
  have "drop (Suc (length bs)) [a..<n] = as" using eq by simp
  then show ?thesis using i len by (simp add: drop_upt)
qed

lemma found_upt:
  assumes "found row [a..<n] i c"
  shows "i < n" "c \<noteq> []" "c @ concat (map row [Suc i..<n]) = concat (map row [a..<n])"
proof -
  obtain bs "as" where eq: "[a..<n] = bs @ i # as" and bs: "concat (map row bs) = []" and c: "c = row i" "c \<noteq> []"
    using assms by (auto simp: found_def)
  note s = upt_split [OF eq]
  show "i < n" "c \<noteq> []" using s c by simp_all
  have "concat (map row [a..<n]) = concat (map row bs) @ row i @ concat (map row as)" by (simp add: eq)
  with s c bs show "c @ concat (map row [Suc i..<n]) = concat (map row [a..<n])" by simp
qed

text \<open>From a hit of section \<open>i\<close> on: the rest of its hits, then those of the later sections.\<close>

lemma yields_rest:
  assumes finds: "\<And>i. i < length (f_extent F) \<Longrightarrow> file_find i q [] F = Some (Some (OK, row i), F)"
  shows "it_query it = q \<Longrightarrow> cur_sect it = Some i \<Longrightarrow> cur_col it \<noteq> [] \<Longrightarrow>
    yields F it (cur_col it @ concat (map row [Suc i..<length (f_extent F)]))"
proof (induction "length (cur_col it @ concat (map row [Suc i..<length (f_extent F)]))" arbitrary: it i rule: less_induct)
  case less
  let ?n = "length (f_extent F)"
  obtain x xs where c: "cur_col it = x # xs" using less.prems(3) by (cases "cur_col it") auto
  have av: "iter_is_avail it" using c by (simp add: iter_is_avail_def)
  have hd: "(iter_get_json it, iter_get_entity it) = x" using c by (simp add: iter_get_json_def iter_get_entity_def)
  have "\<exists>it'. iter_next it F = Some (Some it', F) \<and> yields F it' (xs @ concat (map row [Suc i..<?n]))"
  proof (cases "xs = []")
    case False
    let ?it = "it\<lparr>cur_col := xs\<rparr>"
    have "iter_next it F = Some (Some ?it, F)" using c False by (simp add: iter_next_def)
    moreover have "yields F ?it (xs @ concat (map row [Suc i..<?n]))"
      using less.hyps [of ?it i] less.prems c False by simp
    ultimately show ?thesis by blast
  next
    case True
    have f: "file_find j q [] F = Some (Some (OK, row j), F)" if "j \<in> set [Suc i..<?n]" for j
      using finds that by simp
    consider (none) j where "concat (map row [Suc i..<?n]) = []" "next_hits [Suc i..<?n] i q F = Some (Some (j, []), F)"
      | (some) j c' where "found row [Suc i..<?n] j c'" "next_hits [Suc i..<?n] i q F = Some (Some (j, c'), F)"
      using next_hits_ok [of "[Suc i..<?n]", OF f] by blast
    then show ?thesis
    proof cases
      case none
      have "iter_next it F = Some (Some (it\<lparr>cur_col := [], cur_sect := Some j\<rparr>), F)"
        using c True less.prems none(2) by (simp add: iter_next_def)
      moreover have "yields F (it\<lparr>cur_col := [], cur_sect := Some j\<rparr>) []"
        by (rule at_end) (simp add: iter_is_avail_def)
      ultimately show ?thesis unfolding none(1) True append_Nil by blast
    next
      case some
      let ?it = "it\<lparr>cur_col := c', cur_sect := Some j\<rparr>"
      note u = found_upt [OF some(1)]
      have "iter_next it F = Some (Some ?it, F)"
        using c True less.prems some(2) by (simp add: iter_next_def)
      moreover have "yields F ?it (cur_col ?it @ concat (map row [Suc j..<?n]))"
      proof (rule less.hyps)
        have "length (c' @ concat (map row [Suc j..<?n])) = length (concat (map row [Suc i..<?n]))"
          by (simp only: u(3))
        then show "length (cur_col ?it @ concat (map row [Suc j..<?n])) < length (cur_col it @ concat (map row [Suc i..<?n]))"
          using c by simp
      qed (use less.prems u(2) in simp_all)
      ultimately show ?thesis using True u(3) by auto
    qed
  qed
  then obtain it' where "iter_next it F = Some (Some it', F)" "yields F it' (xs @ concat (map row [Suc i..<?n]))"
    by blast
  from a_hit [OF av this] show ?case unfolding hd by (simp add: c)
qed

lemma iter_ctor_yields:
  assumes finds: "\<And>i. i < length (f_extent F) \<Longrightarrow> file_find i q [] F = Some (Some (OK, row i), F)"
  shows "\<exists>it. iter_ctor q F = Some (Some it, F) \<and> yields F it (concat (map row [0..<length (f_extent F)]))"
proof -
  let ?n = "length (f_extent F)"
  have f: "file_find j q [] F = Some (Some (OK, row j), F)" if "j \<in> set [0..<?n]" for j
    using finds that by simp
  consider (none) "concat (map row [0..<?n]) = []" "first_hits [0..<?n] q F = Some (Some (None, []), F)"
    | (some) i c where "found row [0..<?n] i c" "first_hits [0..<?n] q F = Some (Some (Some i, c), F)"
    using first_hits_ok [of "[0..<?n]", OF f] by blast
  then show ?thesis
  proof cases
    case none
    let ?it = "\<lparr>it_query = q, cur_col = [], cur_sect = None\<rparr>"
    have "iter_ctor q F = Some (Some ?it, F)" using none(2) by (simp add: iter_ctor_def)
    moreover have "yields F ?it []" by (rule at_end) (simp add: iter_is_avail_def)
    ultimately show ?thesis unfolding none(1) by blast
  next
    case some
    let ?it = "\<lparr>it_query = q, cur_col = c, cur_sect = Some i\<rparr>"
    note u = found_upt [OF some(1)]
    have "iter_ctor q F = Some (Some ?it, F)" using some(2) by (simp add: iter_ctor_def)
    moreover have "yields F ?it (cur_col ?it @ concat (map row [Suc i..<?n]))"
      by (rule yields_rest [OF finds]) (simp_all add: u(2))
    ultimately show ?thesis using u(3) by auto
  qed
qed

subsection \<open>Reading finds what is there\<close>

text \<open>The documents of a database with the names of their types, and what a client sees of a hit.\<close>

definition docs_of :: "File \<Rightarrow> slot list list \<Rightarrow> (Json \<times> String option) multiset" where
  "docs_of F dss = image_mset (\<lambda>(d, tp). (d, name_of F tp)) (content dss)"

definition view_of :: "File \<Rightarrow> Json \<times> Entity \<Rightarrow> Json \<times> String option" where
  "view_of F x = (doc_of (fst x), name_of F (type_ptr (snd x)))"

definition links_ok :: "File \<Rightarrow> slot list list \<Rightarrow> bool" where
  "links_ok F dss \<longleftrightarrow> (\<forall>x \<in># content dss. \<exists>name. link_ok F (snd x) name)"

lemma mset_map_sum: "mset (map f xs) = sum_list (map (\<lambda>x. {#f x#}) xs)"
  by (induction xs) simp_all

lemma mset_concat_sum: "mset (concat xss) = sum_list (map mset xss)"
  by (induction xss) simp_all

lemma image_mset_sum_list: "image_mset f (sum_list Ms) = sum_list (map (image_mset f) Ms)"
  by (induction Ms) simp_all

lemma filter_image_sum:
  "filter_mset P (image_mset g (sum_list Ms)) = sum_list (map (\<lambda>M. filter_mset P (image_mset g M)) Ms)"
  by (induction Ms) simp_all

lemma row_views:
  assumes "file_inv F" "slots_ok P F dss" "full dss" "i < length dss"
  shows "mset (map (view_of F) (map (read_at F) (row_addrs F i (length (dss ! i))))) =
    image_mset (\<lambda>(d, tp). (d, name_of F tp)) (row_content (dss ! i))"
proof -
  let ?ds = "dss ! i" and ?g = "\<lambda>(d, tp). (d, name_of F tp)"
  have eq: "{#view_of F (read_at F (slot_addr F i k))#} = image_mset ?g (slot_content (?ds ! k))" if k: "k < length ?ds" for k
  proof -
    obtain dad tp j where s: "?ds ! k = Some (dad, tp, j)" using fullD [OF assms(3,4) k] by blast
    from slot_read [OF assms(1,2,4) k s] show ?thesis by (simp add: s view_of_def)
  qed
  have "mset (map (view_of F) (map (read_at F) (row_addrs F i (length ?ds)))) =
      sum_list (map (\<lambda>k. {#view_of F (read_at F (slot_addr F i k))#}) [0..<length ?ds])"
    by (simp add: row_addrs_def mset_map_sum comp_def)
  also have "\<dots> = sum_list (map (\<lambda>k. image_mset ?g (slot_content (?ds ! k))) [0..<length ?ds])"
    by (rule arg_cong [of _ _ sum_list]) (rule map_cong, simp_all add: eq)
  also have "\<dots> = image_mset ?g (sum_list (map slot_content (map ((!) ?ds) [0..<length ?ds])))"
    by (simp only: image_mset_sum_list map_map comp_def)
  finally show ?thesis by (simp only: map_nth row_content_def)
qed

lemma content_slot:
  assumes "i < length dss" "k < length (dss ! i)" "dss ! i ! k = Some (dad, tp, j)"
  shows "(doc_of j, tp) \<in># content dss"
proof -
  have "slot_content (dss ! i ! k) \<subseteq># row_content (dss ! i)"
    using row_content_update [OF assms(2), of None] by (metis add.right_neutral mset_subset_eq_add_right slot_content.simps(1))
  also have "row_content (dss ! i) \<subseteq># content dss"
    using content_update [OF assms(1), of "[]"]
    by (metis add.right_neutral list.simps(8) mset_subset_eq_add_right row_content_def sum_list.Nil)
  finally show ?thesis using assms(3) by (simp add: single_subset_iff)
qed

lemma slot_readable:
  assumes inv: "file_inv F" and ok: "slots_ok P F dss" and full: "full dss" and links: "links_ok F dss"
    and i: "i < length dss" "k < length (dss ! i)"
  shows "readable F (slot_addr F i k)"
proof -
  obtain dad tp j where s: "dss ! i ! k = Some (dad, tp, j)" using fullD [OF full i] by blast
  note r = slot_read [OF inv ok i s] and c = content_slot [OF i s]
  obtain name where name: "link_ok F tp name" using links c by (auto simp: links_ok_def)
  show ?thesis
    unfolding readable_def r(4) using r(1) type_name_at_link [OF inv name] link_ok_name [OF inv name] by simp
qed

lemma slot_checkable:
  assumes inv: "file_inv F" and ok: "slots_ok P F dss" and full: "full dss"
    and q: "\<And>d name. (d, name) \<in># docs_of F dss \<Longrightarrow> query_check q d name \<noteq> None"
    and i: "i < length dss" "k < length (dss ! i)"
  shows "checkable F q (slot_addr F i k)"
proof -
  obtain dad tp j where s: "dss ! i ! k = Some (dad, tp, j)" using fullD [OF full i] by blast
  note r = slot_read [OF inv ok i s] and c = content_slot [OF i s]
  have "(doc_of j, name_of F tp) \<in># docs_of F dss" using c by (force simp: docs_of_def)
  then have "query_check q (doc_of j) (name_of F tp) \<noteq> None" by (rule q)
  then show ?thesis unfolding checkable_def r(4) using query_check_doc [OF r(3)] r(2) by simp
qed

lemma hits_views:
  assumes inv: "file_inv F" and ok: "slots_ok P F dss" and full: "full dss" and i: "i < length dss"
  shows "mset (map (view_of F) (hits F q (row_addrs F i (length (dss ! i))))) =
    filter_mset (\<lambda>(d, name). query_check q d name = Some True)
      (image_mset (\<lambda>(d, tp). (d, name_of F tp)) (row_content (dss ! i)))"
proof -
  let ?xs = "map (read_at F) (row_addrs F i (length (dss ! i)))"
  have acc: "accepts F q x \<longleftrightarrow> (case view_of F x of (d, name) \<Rightarrow> query_check q d name = Some True)"
    if x: "x \<in> set ?xs" for x
  proof -
    obtain k where k: "k < length (dss ! i)" "x = read_at F (slot_addr F i k)" using x by (auto simp: row_addrs_def)
    obtain dad tp j where s: "dss ! i ! k = Some (dad, tp, j)" using fullD [OF full i k(1)] by blast
    show ?thesis
      using query_check_doc [OF slot_read(3) [OF inv ok i k(1) s]] by (simp add: accepts_def view_of_def k(2))
  qed
  have "map (view_of F) (hits F q (row_addrs F i (length (dss ! i)))) =
      filter (\<lambda>(d, name). query_check q d name = Some True) (map (view_of F) ?xs)"
    unfolding hits_def filter_map comp_def using acc by (intro arg_cong [of _ _ "map _"] filter_cong) simp_all
  then show ?thesis by (simp only: mset_filter row_views [OF inv ok full i])
qed

text \<open>Whatever the iterator yields is right.\<close>

lemma rows_views:
  assumes inv: "file_inv F" and ok: "slots_ok P F dss" and full: "full dss"
  shows "mset (map (view_of F) (concat (map (\<lambda>i. hits F q (row_addrs F i (length (dss ! i)))) [0..<length (f_extent F)]))) =
    filter_mset (\<lambda>(d, name). query_check q d name = Some True) (docs_of F dss)"
proof -
  let ?P = "\<lambda>(d, name). query_check q d name = Some True" and ?g = "\<lambda>(d, tp). (d, name_of F tp)"
  let ?row = "\<lambda>i. hits F q (row_addrs F i (length (dss ! i)))" and ?n = "length (f_extent F)"
  have n: "length dss = ?n" using slots_okD(1) [OF ok] .
  have "mset (map (view_of F) (concat (map ?row [0..<?n]))) =
      sum_list (map (\<lambda>i. mset (map (view_of F) (?row i))) [0..<?n])"
    by (simp only: map_concat mset_concat_sum map_map comp_def)
  also have "\<dots> = sum_list (map (\<lambda>i. filter_mset ?P (image_mset ?g (row_content (dss ! i)))) [0..<?n])"
    using hits_views [OF inv ok full] n by (intro arg_cong [of _ _ sum_list] map_cong) simp_all
  also have "\<dots> = filter_mset ?P (image_mset ?g (sum_list (map row_content (map ((!) dss) [0..<?n]))))"
    by (simp only: filter_image_sum map_map comp_def)
  also have "map ((!) dss) [0..<?n] = dss" using n map_nth [of dss] by simp
  finally show ?thesis unfolding docs_of_def content_def .
qed

lemma user_read_ok:
  assumes inv: "file_inv F" and ok: "slots_ok P F dss" and full: "full dss" and links: "links_ok F dss"
    and q: "\<And>d name. (d, name) \<in># docs_of F dss \<Longrightarrow> query_check q d name \<noteq> None"
  shows "\<exists>it xs. user_read q F = Some (Some it, F) \<and> yields F it xs \<and>
    mset (map (view_of F) xs) = filter_mset (\<lambda>(d, name). query_check q d name = Some True) (docs_of F dss)"
proof -
  let ?row = "\<lambda>i. hits F q (row_addrs F i (length (dss ! i)))"
  have finds: "file_find i q [] F = Some (Some (OK, ?row i), F)" if "i < length (f_extent F)" for i
    using file_find_eq [OF inv ok full _ slot_readable [OF inv ok full links], of i q]
      slot_checkable [OF inv ok full q, of i] that slots_okD(1) [OF ok] by simp
  obtain it where "iter_ctor q F = Some (Some it, F)" "yields F it (concat (map ?row [0..<length (f_extent F)]))"
    using iter_ctor_yields [of F q ?row, OF finds] by blast
  with rows_views [OF inv ok full, of q] show ?thesis unfolding user_read_def by blast
qed

text \<open>An iterator that could be read to its end has checked every document.\<close>

definition passed :: "(nat \<Rightarrow> bool) \<Rightarrow> nat list \<Rightarrow> nat \<Rightarrow> bool" where
  "passed ok is i \<longleftrightarrow> (\<exists>bs as. is = bs @ i # as \<and> (\<forall>j \<in> set bs. ok j) \<and> ok i)"

lemma passed_first: "ok i \<Longrightarrow> passed ok (i # is) i"
proof -
  assume "ok i"
  then have "i # is = [] @ i # is \<and> (\<forall>j \<in> set []. ok j) \<and> ok i" by simp
  then show ?thesis unfolding passed_def by blast
qed

lemma passed_later:
  assumes "ok i" "passed ok is k"
  shows "passed ok (i # is) k"
proof -
  obtain bs "as" where "is = bs @ k # as" "\<forall>j \<in> set bs. ok j" "ok k" using assms(2) by (auto simp: passed_def)
  with assms(1) have "i # is = (i # bs) @ k # as \<and> (\<forall>j \<in> set (i # bs). ok j) \<and> ok k" by simp
  then show ?thesis unfolding passed_def by blast
qed

lemma passed_upt:
  assumes "passed ok [a..<n] i" "\<And>j. j \<in> {Suc i..<n} \<Longrightarrow> ok j" "j \<in> {a..<n}"
  shows "ok j"
proof -
  obtain bs "as" where eq: "[a..<n] = bs @ i # as" and bs: "\<forall>j \<in> set bs. ok j" "ok i"
    using assms(1) by (auto simp: passed_def)
  have "j \<in> set (bs @ i # as)" using assms(3) unfolding eq [symmetric] by simp
  moreover have "as = [Suc i..<n]" using upt_split [OF eq] by simp
  ultimately show ?thesis using bs assms(2) [of j] by auto
qed

lemma next_hits_defined:
  assumes "\<And>i. i \<in> set is \<Longrightarrow> file_find i q [] F = (if ok i then Some (Some (OK, row i), F) else None)"
    and "next_hits is cur q F = Some r"
  shows "\<exists>i c. r = (Some (i, c), F) \<and> (c = [] \<and> (\<forall>j \<in> set is. ok j) \<or> c \<noteq> [] \<and> passed ok is i)"
  using assms
proof (induction "is" arbitrary: cur)
  case (Cons i "is")
  have f: "file_find i q [] F = (if ok i then Some (Some (OK, row i), F) else None)" using Cons.prems by simp
  then have ok: "ok i" using Cons.prems(2) by (cases "ok i") simp_all
  show ?case
  proof (cases "row i = []")
    case False
    then have "r = (Some (i, row i), F)" using Cons.prems(2) f ok by simp
    then show ?thesis using False passed_first [of ok i "is"] ok by blast
  next
    case True
    then have "next_hits is i q F = Some r" using Cons.prems(2) f ok by simp
    then obtain k c where "r = (Some (k, c), F)" "c = [] \<and> (\<forall>j \<in> set is. ok j) \<or> c \<noteq> [] \<and> passed ok is k"
      using Cons.IH [of i] Cons.prems(1) by auto
    with ok passed_later [of ok i "is" k] show ?thesis by auto
  qed
qed auto

lemma first_hits_defined:
  assumes "\<And>i. i \<in> set is \<Longrightarrow> file_find i q [] F = (if ok i then Some (Some (OK, row i), F) else None)"
    and "first_hits is q F = Some r"
  shows "\<exists>x c. r = (Some (x, c), F) \<and>
    (case x of None \<Rightarrow> \<forall>j \<in> set is. ok j | Some i \<Rightarrow> c \<noteq> [] \<and> passed ok is i)"
  using assms
proof (induction "is")
  case (Cons i "is")
  have f: "file_find i q [] F = (if ok i then Some (Some (OK, row i), F) else None)" using Cons.prems by simp
  then have ok: "ok i" using Cons.prems(2) by (cases "ok i") simp_all
  show ?case
  proof (cases "row i = []")
    case False
    with Cons.prems(2) f ok passed_first [of ok i "is"] show ?thesis by auto
  next
    case True
    then have "first_hits is q F = Some r" using Cons.prems(2) f ok by simp
    then obtain x c where r: "r = (Some (x, c), F)"
      and x: "case x of None \<Rightarrow> \<forall>j \<in> set is. ok j | Some i \<Rightarrow> c \<noteq> [] \<and> passed ok is i"
      using Cons.IH Cons.prems(1) by auto
    from x have "case x of None \<Rightarrow> \<forall>j \<in> set (i # is). ok j | Some k \<Rightarrow> c \<noteq> [] \<and> passed ok (i # is) k"
      using ok passed_later [of ok i "is"] by (cases x) simp_all
    with r show ?thesis by blast
  qed
qed auto

lemma yields_defined:
  assumes finds: "\<And>i. i < length (f_extent F) \<Longrightarrow>
      file_find i q [] F = (if ok i then Some (Some (OK, row i), F) else None)"
  shows "yields F it xs \<Longrightarrow> it_query it = q \<Longrightarrow> cur_sect it = Some i \<Longrightarrow> cur_col it \<noteq> [] \<Longrightarrow>
    j \<in> {Suc i..<length (f_extent F)} \<Longrightarrow> ok j"
proof (induction arbitrary: i j rule: yields.induct)
  case (at_end it)
  then show ?case by (simp add: iter_is_avail_def)
next
  case (a_hit it it' xs)
  let ?n = "length (f_extent F)"
  show ?case
  proof (cases "tl (cur_col it) = []")
    case False
    then have "it' = it\<lparr>cur_col := tl (cur_col it)\<rparr>" using a_hit.hyps(2) by (simp add: iter_next_def)
    with a_hit False show ?thesis by simp
  next
    case True
    obtain r where r: "next_hits [Suc i..<?n] i q F = Some r"
      using a_hit.hyps(2) a_hit.prems(1,2) True
      by (cases "next_hits [Suc i..<?n] i q F") (simp_all add: iter_next_def)
    have f: "file_find k q [] F = (if ok k then Some (Some (OK, row k), F) else None)" if "k \<in> set [Suc i..<?n]" for k
      using finds that by simp
    obtain k c where k: "r = (Some (k, c), F)" and
      c: "c = [] \<and> (\<forall>m \<in> set [Suc i..<?n]. ok m) \<or> c \<noteq> [] \<and> passed ok [Suc i..<?n] k"
      using next_hits_defined [of "[Suc i..<?n]" q F ok row, OF f r] by blast
    have it': "it' = it\<lparr>cur_col := c, cur_sect := Some k\<rparr>"
      using a_hit.hyps(2) a_hit.prems(1,2) True r k by (simp add: iter_next_def)
    from c show ?thesis
    proof (elim disjE conjE)
      assume "c \<noteq> []" and p: "passed ok [Suc i..<?n] k"
      then have "ok m" if "m \<in> {Suc k..<?n}" for m
        using a_hit.IH [of k m] a_hit.prems(1) that by (simp add: it')
      from passed_upt [OF p this a_hit.prems(4)] show ?thesis by simp
    qed (use a_hit.prems(4) in simp)
  qed
qed

text \<open>So reading is right whenever it comes to an end.\<close>

lemma user_read_sound:
  assumes inv: "file_inv F" and ok: "slots_ok P F dss" and full: "full dss" and links: "links_ok F dss"
    and r: "user_read q F = Some (Some it, F')" and y: "yields F' it xs"
  shows "F' = F" "mset (map (view_of F) xs) = filter_mset (\<lambda>(d, name). query_check q d name = Some True) (docs_of F dss)"
proof -
  let ?n = "length (f_extent F)"
  define row where "row i = hits F q (row_addrs F i (length (dss ! i)))" for i
  define defd where "defd i \<longleftrightarrow> (\<forall>k < length (dss ! i). checkable F q (slot_addr F i k))" for i
  have finds: "file_find i q [] F = (if defd i then Some (Some (OK, row i), F) else None)" if "i < ?n" for i
    using file_find_eq [OF inv ok full _ slot_readable [OF inv ok full links], of i q] that slots_okD(1) [OF ok]
    by (simp add: row_def defd_def)
  have f: "file_find i q [] F = (if defd i then Some (Some (OK, row i), F) else None)" if "i \<in> set [0..<?n]" for i
    using finds that by simp
  obtain s where s: "first_hits [0..<?n] q F = Some s"
    using r by (cases "first_hits [0..<?n] q F") (simp_all add: user_read_def iter_ctor_def)
  obtain x c where x: "s = (Some (x, c), F)" "case x of None \<Rightarrow> \<forall>j \<in> set [0..<?n]. defd j | Some i \<Rightarrow> c \<noteq> [] \<and> passed defd [0..<?n] i"
    using first_hits_defined [of "[0..<?n]" q F defd row, OF f s] by blast
  have it: "it = \<lparr>it_query = q, cur_col = c, cur_sect = x\<rparr>" and F': "F' = F"
    using r s x(1) by (simp_all add: user_read_def iter_ctor_def)
  show "F' = F" by (rule F')
  have all: "defd j" if j: "j < ?n" for j
  proof (cases x)
    case None
    with x(2) j show ?thesis by simp
  next
    case (Some i)
    then have i: "c \<noteq> []" "passed defd [0..<?n] i" using x(2) by simp_all
    have "defd m" if "m \<in> {Suc i..<?n}" for m
      using yields_defined [OF finds y [unfolded F'], of i m] that i(1) Some by (simp add: it)
    from passed_upt [OF i(2) this] j show ?thesis by simp
  qed
  have "file_find i q [] F = Some (Some (OK, row i), F)" if "i < ?n" for i
    using finds [OF that] all [OF that] by simp
  then obtain it' where "iter_ctor q F = Some (Some it', F)" "yields F it' (concat (map row [0..<?n]))"
    using iter_ctor_yields [of F q row] by blast
  with r y F' have "xs = concat (map row [0..<?n])"
    using yields_det by (simp add: user_read_def)
  with rows_views [OF inv ok full, of q]
  show "mset (map (view_of F) xs) = filter_mset (\<lambda>(d, name). query_check q d name = Some True) (docs_of F dss)"
    by (simp add: row_def [abs_def])
qed

end
