(* ===== verification/Database.thy ===== *)
theory Database
  imports Read_Spec
begin

text \<open>
  The database as its user sees it: the types by name and a multiset of documents, each with the name
  of its type. \<open>db_rep F D\<close> says that the file \<open>F\<close> holds the abstract database \<open>D\<close>. The operations of
  \<^verbatim>\<open>user.c\<close> that add types, insert and read are steps of a relation on files, and every step is one
  of the abstract relation; so sequences of operations are traces of the abstract database. Deleting
  and updating are not part of the relation: they can give back bytes of records that are in use
  (theory \<open>Delete_Damage\<close>). Under a condition that excludes this, \<open>Tidy_Db\<close> adds deletions.
\<close>

subsection \<open>The abstract database\<close>

type_synonym named_doc = "Json \<times> String option"

record Db =
  db_types :: "String \<rightharpoonup> Type"
  db_docs :: "named_doc multiset"

definition db_empty :: Db where
  "db_empty = \<lparr>db_types = (\<lambda>_. None), db_docs = {#}\<rparr>"

text \<open>An inserted document is its root, named after its type, and all nodes below it.\<close>

fun doc_nodes :: "String option \<Rightarrow> Json \<Rightarrow> named_doc multiset" where
  "doc_nodes name (Json k v t b s n x) = add_mset (doc_of (Json k v t b s n x), name)
     ((case b of None \<Rightarrow> {#} | Some y \<Rightarrow> doc_nodes None y) + (case s of None \<Rightarrow> {#} | Some y \<Rightarrow> doc_nodes None y))"

datatype Event =
    Added Type
  | Inserted Json String
  | Refused Json String
  | Answered Query "named_doc multiset"

definition insertable :: "Db \<Rightarrow> Json \<Rightarrow> String \<Rightarrow> bool" where
  "insertable D j tname \<longleftrightarrow> (\<exists>t. db_types D tname = Some t \<and> json_is_apply_type j t = OK)"

text \<open>
  A type of a new name is added; of two types with one name either may be the one that is found.
\<close>

inductive db_next :: "Db \<Rightarrow> Event \<Rightarrow> Db \<Rightarrow> bool" where
  new_type: "db_types D (type_name t) = None \<Longrightarrow>
    db_next D (Added t) (D\<lparr>db_types := (db_types D)(type_name t \<mapsto> t)\<rparr>)"
| same_name: "db_types D (type_name t) = Some t' \<Longrightarrow> t'' \<in> {t, t'} \<Longrightarrow>
    db_next D (Added t) (D\<lparr>db_types := (db_types D)(type_name t \<mapsto> t'')\<rparr>)"
| inserted: "insertable D j tname \<Longrightarrow>
    db_next D (Inserted j tname) (D\<lparr>db_docs := db_docs D + doc_nodes (Some tname) j\<rparr>)"
| refused: "\<not> insertable D j tname \<Longrightarrow> db_next D (Refused j tname) D"
| answered: "db_next D (Answered q (filter_mset (\<lambda>(d, name). query_check q d name = Some True) (db_docs D))) D"

inductive_cases db_next_AddedE: "db_next D (Added t) D'"
inductive_cases db_next_InsertedE: "db_next D (Inserted j tname) D'"
inductive_simps db_next_Refused: "db_next D (Refused j tname) D'"
inductive_simps db_next_Answered: "db_next D (Answered q xs) D'"

subsection \<open>Representation\<close>

definition db_rep :: "File \<Rightarrow> Db \<Rightarrow> bool" where
  "db_rep F D \<longleftrightarrow> (\<exists>tss dss. types_inv F tss \<and> slots_ok (ext_alloc F) F dss \<and> full dss \<and> links_ok F dss \<and>
     db_types D = (\<lambda>name. first_named name tss) \<and> db_docs D = docs_of F dss)"

lemma db_repE:
  assumes "db_rep F D"
  obtains tss dss where "types_inv F tss" "slots_ok (ext_alloc F) F dss" "full dss" "links_ok F dss"
    "db_types D = (\<lambda>name. first_named name tss)" "db_docs D = docs_of F dss"
  using assms unfolding db_rep_def by blast

lemma db_repI:
  "types_inv F tss \<Longrightarrow> slots_ok (ext_alloc F) F dss \<Longrightarrow> full dss \<Longrightarrow> links_ok F dss \<Longrightarrow>
   db_types D = (\<lambda>name. first_named name tss) \<Longrightarrow> db_docs D = docs_of F dss \<Longrightarrow> db_rep F D"
  unfolding db_rep_def by blast

text \<open>Links and their names outlive every change that keeps the types.\<close>

lemma links_ok_kept:
  assumes "file_inv F" "file_inv F'" "types_kept F F'" "links_ok F dss" "content dss' = content dss"
  shows "links_ok F' dss'" "docs_of F' dss' = docs_of F dss"
proof -
  have l: "\<exists>name. link_ok F tp name \<and> link_ok F' tp name" if "(d, tp) \<in># content dss" for d tp
    using assms(4) that link_ok_kept [OF _ assms(3)] unfolding links_ok_def by fastforce
  then show "links_ok F' dss'" unfolding links_ok_def assms(5) by fastforce
  have "name_of F' tp = name_of F tp" if "(d, tp) \<in># content dss" for d tp
    using l [OF that] link_ok_name assms(1,2) by metis
  then show "docs_of F' dss' = docs_of F dss"
    unfolding docs_of_def assms(5) by (intro image_mset_cong) auto
qed

lemma nodes_of_named:
  "g 0 = None \<Longrightarrow> image_mset (\<lambda>(d, tp). (d, g tp)) (nodes_of tp j) = doc_nodes (g tp) j"
proof (induction j arbitrary: tp)
  case (Json k v t b s n x)
  have "image_mset (\<lambda>(d, tp). (d, g tp)) (nodes_of 0 y) = doc_nodes None y" if "b = Some y \<or> s = Some y" for y
    using that Json.IH(1,2) [of y 0] Json.prems by auto
  then show ?case by (cases b; cases s) simp_all
qed

lemma nodes_of_links: "(d, tp') \<in># nodes_of tp j \<Longrightarrow> tp' = tp \<or> tp' = 0"
proof (induction j arbitrary: tp)
  case (Json k v t b s n x)
  have "tp' = 0" if "(d, tp') \<in># nodes_of 0 y" "b = Some y \<or> s = Some y" for y
    using that Json.IH(1,2) [of y 0] by auto
  with Json.prems show ?case by (auto split: option.splits)
qed

lemma name_of_zero: "file_inv F \<Longrightarrow> name_of F 0 = None"
  by (intro link_ok_name) (simp_all add: link_ok_def)

subsection \<open>Operations\<close>

text \<open>A new database.\<close>

lemma open_rep:
  assumes "8 \<le> cap" "cap < LONG_LIMIT"
  shows "user_open_file cap = Some (empty_db cap)" "db_rep (empty_db cap) db_empty"
proof -
  show "user_open_file cap = Some (empty_db cap)"
    by (simp add: user_open_file_def file_ctor_fopen [OF assms] file_new_def empty_db_def)
  show "db_rep (empty_db cap) db_empty"
  proof (rule db_repI [of _ "[]" "[]"])
    show "types_inv (empty_db cap) []" using empty_db_types [OF assms] .
  qed (simp_all add: slots_ok_def holes_def links_ok_def content_def docs_of_def db_empty_def first_named_def,
       simp add: empty_db_def)
qed

text \<open>Adding a type.\<close>

lemma add_type_rep:
  assumes rep: "db_rep F D" and t: "canonical_type t" "items_len t + names_len t \<le> 8160" and room: "room_for_sect F"
  shows "\<exists>F' D'. user_add_type t F = Some (Some (), F') \<and> db_rep F' D' \<and> db_next D (Added t) D' \<and>
    fcap (filp F') = fcap (filp F) \<and> unat (lst_sect_ptr F') \<le> unat (lst_sect_ptr F) + 8192"
proof -
  obtain tss dss where inv: "types_inv F tss" and ok: "slots_ok (ext_alloc F) F dss" and full: "full dss"
    and links: "links_ok F dss" and D: "db_types D = (\<lambda>name. first_named name tss)" "db_docs D = docs_of F dss"
    using rep by (rule db_repE)
  obtain F' tss' where w: "user_add_type t F = Some (Some (), F')" and inv': "types_inv F' tss'"
    and added: "type_added t tss tss'" and docs: "docs_same F F'" and kept: "types_kept F F'"
    and l: "unat (lst_sect_ptr F') \<le> unat (lst_sect_ptr F) + 8192"
    using user_add_type_kept [OF inv t room] by blast
  have al: "ext_alloc F' = ext_alloc F" and f_ext: "f_extent F' = f_extent F" and cap: "fcap (filp F') = fcap (filp F)"
    using docs by (simp_all add: docs_same_def ext_alloc_def)
  have ok': "slots_ok (ext_alloc F') F' dss"
    using ok f_ext by (rule slots_ok_same) (use docs al in \<open>simp_all add: docs_same_def\<close>)
  note lk = links_ok_kept [OF types_invD(1) [OF inv] types_invD(1) [OF inv'] kept links refl]
  define D' where "D' = D\<lparr>db_types := (\<lambda>name. first_named name tss')\<rparr>"
  have rep': "db_rep F' D'"
    by (rule db_repI [OF inv' ok' full lk(1)]) (simp_all add: D'_def D(2) lk(2))
  have types: "(\<lambda>name. first_named name tss') = (db_types D)(type_name t := first_named (type_name t) tss')"
    using first_named_added(1) [OF added] by (auto simp: D(1))
  have "db_next D (Added t) D'"
  proof (cases "first_named (type_name t) tss")
    case None
    then have "D' = D\<lparr>db_types := (db_types D)(type_name t \<mapsto> t)\<rparr>"
      using first_named_added(2) [OF added] by (simp add: D'_def types)
    then show ?thesis using new_type [of D t] None by (simp add: D(1))
  next
    case (Some t')
    then obtain t'' where t'': "first_named (type_name t) tss' = Some t''" "t'' \<in> {t, t'}"
      using first_named_again [OF added] by auto
    then have "D' = D\<lparr>db_types := (db_types D)(type_name t \<mapsto> t'')\<rparr>" by (simp add: D'_def types)
    then show ?thesis using same_name [of D t t' t''] Some t''(2) by (simp add: D(1))
  qed
  with w rep' cap l show ?thesis by blast
qed

text \<open>Inserting.\<close>

lemma insert_rep:
  assumes rep: "db_rep F D" and can: "canonical tname" and j: "json_ok j" and room: "room_for (json_nodes j) F"
    and ins: "insertable D j tname"
  shows "\<exists>F' D'. user_write j tname F = Some (Some (), F') \<and> db_rep F' D' \<and> db_next D (Inserted j tname) D' \<and>
    fcap (filp F') = fcap (filp F) \<and> unat (lst_sect_ptr F') \<le> unat (lst_sect_ptr F) + 8192 * json_nodes j"
proof -
  obtain tss dss where inv: "types_inv F tss" and ok: "slots_ok (ext_alloc F) F dss" and full: "full dss"
    and links: "links_ok F dss" and D: "db_types D = (\<lambda>name. first_named name tss)" "db_docs D = docs_of F dss"
    using rep by (rule db_repE)
  obtain t where t: "first_named tname tss = Some t" "json_is_apply_type j t = OK"
    using ins by (auto simp: insertable_def D)
  obtain F' a i soff where w: "user_write j tname F = Some (Some (), F')" and i: "i < length (f_types F)"
    and ta: "type_at (filp F) (f_types F ! i) (unat soff) t"
    and p: "write_post j 0 (sect_head_get_fileoff (f_types F ! i) soff) F a F'"
    using user_write_post [OF inv can t j room] by blast
  define tp where "tp = sect_head_get_fileoff (f_types F ! i) soff"
  have fi': "file_inv F'" and ext: "extends F F'" and ws: "write_slots (nodes_of tp j) F F'"
    and l: "unat (lst_sect_ptr F') \<le> unat (lst_sect_ptr F) + 8192 * json_nodes j"
    using p by (simp_all add: write_post_def tp_def)
  have inv': "types_inv F' tss" using inv ext fi' by (rule types_inv_extends)
  obtain dss' where ok': "slots_ok (ext_alloc F \<union> (ext_alloc F' - ext_alloc F)) F' dss'"
    and cont: "content dss' = content dss + nodes_of tp j" and holes: "full dss'"
    using ws [unfolded write_slots_def, rule_format, OF subset_refl ok] full by (metis subset_empty)
  have al: "ext_alloc F \<union> (ext_alloc F' - ext_alloc F) = ext_alloc F'"
    using ext_alloc_mono [OF extends_grow [OF ext]] by blast
  have kept: "types_kept F F'" by (rule extends_types_kept [OF inv ext])
  have fi: "file_inv F" using inv by (rule types_invD)
  note lk = links_ok_kept [OF fi fi' kept links refl]
  have "type_name t = tname" using find_SomeD [OF t(1) [unfolded first_named_def]] by simp
  then have "link_ok F tp (Some tname)" unfolding link_ok_def tp_def using i ta by auto
  then have link: "link_ok F' tp (Some tname)" using kept by (rule link_ok_kept)
  have z: "link_ok F' 0 None" by (simp add: link_ok_def)
  have links': "links_ok F' dss'"
    unfolding links_ok_def
  proof
    fix x assume "x \<in># content dss'"
    then consider "x \<in># content dss" | "(fst x, snd x) \<in># nodes_of tp j" by (auto simp: cont)
    then show "\<exists>name. link_ok F' (snd x) name"
    proof cases
      case 1
      with lk(1) show ?thesis by (simp add: links_ok_def)
    next
      case 2
      from nodes_of_links [OF this] link z show ?thesis by auto
    qed
  qed
  have "image_mset (\<lambda>(d, tp). (d, name_of F' tp)) (nodes_of tp j) = doc_nodes (Some tname) j"
    using nodes_of_named [of "name_of F'" tp j] name_of_zero [OF fi'] link_ok_name [OF fi' link] by simp
  then have docs: "docs_of F' dss' = docs_of F dss + doc_nodes (Some tname) j"
    using lk(2) by (simp add: docs_of_def cont)
  let ?D = "D\<lparr>db_docs := db_docs D + doc_nodes (Some tname) j\<rparr>"
  have "db_rep F' ?D"
    by (rule db_repI [OF inv' ok' [unfolded al] holes links']) (simp_all add: D docs)
  moreover have "fcap (filp F') = fcap (filp F)" using ext by (simp add: extends_def sects_grow_def)
  ultimately show ?thesis using w l inserted [OF ins] by blast
qed

lemma refuse_rep:
  assumes rep: "db_rep F D" and can: "canonical tname" and ins: "\<not> insertable D j tname"
  shows "user_write j tname F = Some (None, F)"
proof -
  obtain tss where inv: "types_inv F tss" and D: "db_types D = (\<lambda>name. first_named name tss)"
    using rep by (rule db_repE)
  show ?thesis
  proof (cases "first_named tname tss")
    case None
    then show ?thesis by (rule user_write_unknown [OF inv can])
  next
    case (Some t)
    then have "json_is_apply_type j t \<noteq> OK" using ins by (auto simp: insertable_def D)
    with user_write_known [OF inv can Some, of j] show ?thesis by auto
  qed
qed

text \<open>Reading.\<close>

lemma read_rep:
  assumes rep: "db_rep F D" and r: "user_read q F = Some (Some it, F')" and y: "yields F' it xs"
  shows "F' = F" "db_next D (Answered q (mset (map (view_of F) xs))) D"
proof -
  obtain tss dss where inv: "types_inv F tss" and ok: "slots_ok (ext_alloc F) F dss" and full: "full dss"
    and links: "links_ok F dss" and D: "db_docs D = docs_of F dss"
    using rep by (rule db_repE)
  note s = user_read_sound [OF types_invD(1) [OF inv] ok full links r y]
  show "F' = F" by (rule s(1))
  show "db_next D (Answered q (mset (map (view_of F) xs))) D"
    unfolding s(2) D [symmetric] by (rule answered)
qed

lemma read_total:
  assumes rep: "db_rep F D" and q: "\<And>d name. (d, name) \<in># db_docs D \<Longrightarrow> query_check q d name \<noteq> None"
  shows "\<exists>it xs. user_read q F = Some (Some it, F) \<and> yields F it xs \<and>
    mset (map (view_of F) xs) = filter_mset (\<lambda>(d, name). query_check q d name = Some True) (db_docs D)"
proof -
  obtain tss dss where inv: "types_inv F tss" and ok: "slots_ok (ext_alloc F) F dss" and full: "full dss"
    and links: "links_ok F dss" and D: "db_docs D = docs_of F dss"
    using rep by (rule db_repE)
  from user_read_ok [OF types_invD(1) [OF inv] ok full links, of q] q show ?thesis unfolding D by blast
qed

subsection \<open>Steps and runs\<close>

text \<open>
  One operation of the interface on an open file, with what the theorems need of its arguments: strings
  built by \<open>string_ctor\<close>, a type and documents that fit into empty sections, room on the device. A
  reading step is a query whose iterator was read to its end.
\<close>

inductive step :: "File \<Rightarrow> Event \<Rightarrow> File \<Rightarrow> bool" where
  add_step: "canonical_type t \<Longrightarrow> items_len t + names_len t \<le> 8160 \<Longrightarrow> room_for_sect F \<Longrightarrow>
    user_add_type t F = Some (Some (), F') \<Longrightarrow> step F (Added t) F'"
| insert_step: "cmd_type c = INSERT \<Longrightarrow> canonical (cmd_type_name c) \<Longrightarrow> json_ok (cmd_json c) \<Longrightarrow>
    room_for (json_nodes (cmd_json c)) F \<Longrightarrow> user_apply c F = Some (Some r, F') \<Longrightarrow>
    step F (Inserted (cmd_json c) (cmd_type_name c)) F'"
| refuse_step: "cmd_type c = INSERT \<Longrightarrow> canonical (cmd_type_name c) \<Longrightarrow> json_ok (cmd_json c) \<Longrightarrow>
    room_for (json_nodes (cmd_json c)) F \<Longrightarrow> user_apply c F = Some (None, F') \<Longrightarrow>
    step F (Refused (cmd_json c) (cmd_type_name c)) F'"
| read_step: "cmd_type c = READ \<Longrightarrow> user_apply c F = Some (Some (Some it), F') \<Longrightarrow> yields F' it xs \<Longrightarrow>
    step F (Answered (cmd_query c) (mset (map (view_of F') xs))) F'"

inductive run :: "File \<Rightarrow> Event list \<Rightarrow> File \<Rightarrow> bool" where
  run_nil: "run F [] F"
| run_snoc: "run F evs F' \<Longrightarrow> step F' ev F'' \<Longrightarrow> run F (evs @ [ev]) F''"

inductive db_run :: "Db \<Rightarrow> Event list \<Rightarrow> Db \<Rightarrow> bool" where
  db_run_nil: "db_run D [] D"
| db_run_snoc: "db_run D evs D' \<Longrightarrow> db_next D' ev D'' \<Longrightarrow> db_run D (evs @ [ev]) D''"

lemma user_apply_insert:
  assumes "cmd_type c = INSERT"
  shows "user_apply c F = (case user_write (cmd_json c) (cmd_type_name c) F of
    None \<Rightarrow> None | Some (r, F') \<Rightarrow> Some (map_option (\<lambda>_. None) r, F'))"
  using assms by (auto simp: user_apply_def DO_OR_FAIL_def split: option.splits)

lemma user_apply_read:
  assumes "cmd_type c = READ"
  shows "user_apply c F = (case user_read (cmd_query c) F of
    None \<Rightarrow> None | Some (r, F') \<Rightarrow> Some (map_option Some r, F'))"
  using assms by (auto simp: user_apply_def DO_OR_FAIL_def split: option.splits)

lemma user_write_rep:
  assumes rep: "db_rep F D" and a: "canonical tname" "json_ok j" "room_for (json_nodes j) F"
  shows "\<exists>F' D'. user_write j tname F = Some (if insertable D j tname then Some () else None, F') \<and> db_rep F' D' \<and>
    db_next D (if insertable D j tname then Inserted j tname else Refused j tname) D'"
proof (cases "insertable D j tname")
  case True
  from insert_rep [OF rep a True] True show ?thesis by auto
next
  case False
  from refuse_rep [OF rep a(1) False] False rep refused [OF False] show ?thesis by auto
qed

lemma step_refines:
  assumes "step F ev F'" "db_rep F D"
  shows "\<exists>D'. db_rep F' D' \<and> db_next D ev D'"
  using assms
proof (cases rule: step.cases)
  case (add_step t)
  from add_type_rep [OF assms(2) add_step(2-4)] add_step show ?thesis by auto
next
  case (insert_step c r)
  obtain G D' where "user_write (cmd_json c) (cmd_type_name c) F =
      Some (if insertable D (cmd_json c) (cmd_type_name c) then Some () else None, G)" "db_rep G D'"
    "db_next D (if insertable D (cmd_json c) (cmd_type_name c) then Inserted (cmd_json c) (cmd_type_name c)
      else Refused (cmd_json c) (cmd_type_name c)) D'"
    using user_write_rep [OF assms(2) insert_step(3-5)] by blast
  with insert_step show ?thesis by (auto simp: user_apply_insert split: if_splits)
next
  case (refuse_step c)
  obtain G D' where "user_write (cmd_json c) (cmd_type_name c) F =
      Some (if insertable D (cmd_json c) (cmd_type_name c) then Some () else None, G)" "db_rep G D'"
    "db_next D (if insertable D (cmd_json c) (cmd_type_name c) then Inserted (cmd_json c) (cmd_type_name c)
      else Refused (cmd_json c) (cmd_type_name c)) D'"
    using user_write_rep [OF assms(2) refuse_step(3-5)] by blast
  with refuse_step show ?thesis by (auto simp: user_apply_insert split: if_splits)
next
  case (read_step c it xs)
  have r: "user_read (cmd_query c) F = Some (Some it, F')"
    using read_step(3) unfolding user_apply_read [OF read_step(2)] by (auto split: option.splits)
  from read_rep [OF assms(2) r read_step(4)] assms(2) read_step(1) show ?thesis by auto
qed

lemma run_refines:
  "run F evs F' \<Longrightarrow> db_rep F D \<Longrightarrow> \<exists>D'. db_rep F' D' \<and> db_run D evs D'"
proof (induction rule: run.induct)
  case (run_snoc F evs F' ev F'')
  then obtain D' where "db_rep F' D'" "db_run D evs D'" by blast
  with step_refines [OF run_snoc.hyps(2)] db_run_snoc show ?case by blast
qed (use db_run_nil in blast)

subsection \<open>Invariants of the abstract database\<close>

text \<open>Types are found under their own names, and every named document has a known type.\<close>

definition db_ok :: "Db \<Rightarrow> bool" where
  "db_ok D \<longleftrightarrow> (\<forall>name t. db_types D name = Some t \<longrightarrow> type_name t = name) \<and>
     (\<forall>d name. (d, Some name) \<in># db_docs D \<longrightarrow> db_types D name \<noteq> None)"

lemma doc_nodes_name: "(d, Some nm) \<in># doc_nodes name j \<Longrightarrow> name = Some nm"
proof (induction j arbitrary: name)
  case (Json k v t b s n x)
  have "False" if "(d, Some nm) \<in># doc_nodes None y" "b = Some y \<or> s = Some y" for y
    using that Json.IH(1,2) [of y None] by auto
  with Json.prems show ?case by (auto split: option.splits)
qed

lemma db_next_ok: "db_next D ev D' \<Longrightarrow> db_ok D \<Longrightarrow> db_ok D'"
proof (induction rule: db_next.induct)
  case (same_name D t t' t'')
  have "type_name t'' = type_name t" using same_name by (auto simp: db_ok_def)
  with same_name.prems show ?case by (auto simp: db_ok_def)
next
  case (inserted D j tname)
  have "db_types D tname \<noteq> None" using inserted(1) by (auto simp: insertable_def)
  with inserted.prems show ?case by (auto simp: db_ok_def dest: doc_nodes_name)
qed (auto simp: db_ok_def)

lemma db_run_ok: "db_run D evs D' \<Longrightarrow> db_ok D \<Longrightarrow> db_ok D'"
  by (induction rule: db_run.induct) (auto intro: db_next_ok)

lemma db_empty_ok: "db_ok db_empty"
  by (simp add: db_ok_def db_empty_def)

text \<open>A database keeps all its documents, and grows by the nodes inserted.\<close>

definition inserted_nodes :: "Event list \<Rightarrow> named_doc multiset" where
  "inserted_nodes evs = sum_list (map (\<lambda>ev. case ev of Inserted j tname \<Rightarrow> doc_nodes (Some tname) j | _ \<Rightarrow> {#}) evs)"

lemma db_run_docs: "db_run D evs D' \<Longrightarrow> db_docs D' = db_docs D + inserted_nodes evs"
proof (induction rule: db_run.induct)
  case (db_run_snoc D evs D' ev D'')
  from db_run_snoc.hyps(2) have "db_docs D'' = db_docs D' + inserted_nodes [ev]"
    by cases (simp_all add: inserted_nodes_def)
  with db_run_snoc.IH show ?case by (simp add: inserted_nodes_def ac_simps)
qed (simp add: inserted_nodes_def)

subsection \<open>Serving requests\<close>

text \<open>
  What a client wants, the number of sections it may take (one for a type, one for each node of a
  document), and the events that answer it.
\<close>

datatype Demand = Want_type Type | Want_insert Json String

fun demand_ok :: "Demand \<Rightarrow> bool" where
  "demand_ok (Want_type t) \<longleftrightarrow> canonical_type t \<and> items_len t + names_len t \<le> 8160"
| "demand_ok (Want_insert j tname) \<longleftrightarrow> canonical tname \<and> json_ok j"

fun sections :: "Demand \<Rightarrow> nat" where
  "sections (Want_type t) = 1"
| "sections (Want_insert j tname) = json_nodes j"

fun meets :: "Demand \<Rightarrow> Event \<Rightarrow> bool" where
  "meets (Want_type t) (Added t') \<longleftrightarrow> t = t'"
| "meets (Want_insert j tname) (Inserted j' tname') \<longleftrightarrow> j = j' \<and> tname = tname'"
| "meets (Want_insert j tname) (Refused j' tname') \<longleftrightarrow> j = j' \<and> tname = tname'"
| "meets _ _ \<longleftrightarrow> False"

text \<open>
  The answer to a demand: a type is added; a document is inserted when its type is known and accepts it, and
  refused only when not. \<open>served\<close> answers demands in order, each by the database as it is by then.
\<close>

fun answer :: "Db \<Rightarrow> Demand \<Rightarrow> Event" where
  "answer D (Want_type t) = Added t"
| "answer D (Want_insert j tname) = (if insertable D j tname then Inserted j tname else Refused j tname)"

inductive served :: "Db \<Rightarrow> Demand list \<Rightarrow> Event list \<Rightarrow> Db \<Rightarrow> bool" where
  served_nil: "served D [] [] D"
| served_snoc: "served D ds evs D' \<Longrightarrow> db_next D' (answer D' d) D'' \<Longrightarrow> served D (ds @ [d]) (evs @ [answer D' d]) D''"

lemma answer_meets: "meets d (answer D d)"
  by (cases d) simp_all

lemma served_meets: "served D ds evs D' \<Longrightarrow> list_all2 meets ds evs"
  by (induction rule: served.induct) (auto intro: list_all2_appendI answer_meets)

lemma served_run: "served D ds evs D' \<Longrightarrow> db_run D evs D'"
  by (induction rule: served.induct) (auto intro: db_run_nil db_run_snoc)

definition insert_command :: "Json \<Rightarrow> String \<Rightarrow> Command" where
  "insert_command j tname = \<lparr>cmd_type = INSERT, cmd_type_name = tname, cmd_query = query_new, cmd_json = j\<rparr>"

lemma serve_one:
  assumes rep: "db_rep F D" and ok: "demand_ok d" and room: "room_for (sections d) F"
  shows "\<exists>F' D'. step F (answer D d) F' \<and> db_next D (answer D d) D' \<and> db_rep F' D' \<and> fcap (filp F') = fcap (filp F) \<and>
    unat (lst_sect_ptr F') \<le> unat (lst_sect_ptr F) + 8192 * sections d"
proof (cases d)
  case (Want_type t)
  have t: "canonical_type t" "items_len t + names_len t \<le> 8160" "room_for_sect F"
    using ok room by (simp_all add: Want_type room_for_def room_for_sect_def)
  obtain F' D' where w: "user_add_type t F = Some (Some (), F')" "db_rep F' D'"
    "fcap (filp F') = fcap (filp F)" "unat (lst_sect_ptr F') \<le> unat (lst_sect_ptr F) + 8192" "db_next D (Added t) D'"
    using add_type_rep [OF rep t] by blast
  have "step F (Added t) F'" by (rule add_step [OF t w(1)])
  with w(2-5) show ?thesis unfolding Want_type answer.simps sections.simps by (metis mult.right_neutral)
next
  case (Want_insert j tname)
  have a: "canonical tname" "json_ok j" "room_for (json_nodes j) F"
    using ok room by (simp_all add: Want_insert)
  let ?c = "insert_command j tname"
  have c: "cmd_type ?c = INSERT" "cmd_type_name ?c = tname" "cmd_json ?c = j" by (simp_all add: insert_command_def)
  show ?thesis
  proof (cases "insertable D j tname")
    case True
    obtain F' D' where w: "user_write j tname F = Some (Some (), F')" "db_rep F' D'"
      "fcap (filp F') = fcap (filp F)" "unat (lst_sect_ptr F') \<le> unat (lst_sect_ptr F) + 8192 * json_nodes j"
      "db_next D (Inserted j tname) D'"
      using insert_rep [OF rep a True] by blast
    have "user_apply ?c F = Some (Some None, F')" by (simp add: user_apply_insert c w(1))
    then have "step F (Inserted j tname) F'"
      using insert_step [of ?c F None F'] a unfolding c by simp
    with w(2-5) True show ?thesis by (auto simp: Want_insert)
  next
    case False
    have "user_apply ?c F = Some (None, F)"
      by (simp add: user_apply_insert c refuse_rep [OF rep a(1) False])
    then have "step F (Refused j tname) F"
      using refuse_step [of ?c F F] a unfolding c by simp
    with rep refused [OF False] False show ?thesis
      by (intro exI [of _ F] exI [of _ D]) (simp add: Want_insert)
  qed
qed

lemma serve_all:
  "db_rep F D \<Longrightarrow> \<forall>d \<in> set ds. demand_ok d \<Longrightarrow> room_for (sum_list (map sections ds)) F \<Longrightarrow>
   \<exists>evs F' D'. run F evs F' \<and> served D ds evs D' \<and> db_rep F' D' \<and> fcap (filp F') = fcap (filp F) \<and>
     unat (lst_sect_ptr F') \<le> unat (lst_sect_ptr F) + 8192 * sum_list (map sections ds)"
proof (induction ds rule: rev_induct)
  case Nil
  then show ?case using run_nil [of F] served_nil [of D] by (intro exI [of _ "[]"] exI [of _ F] exI [of _ D]) simp
next
  case (snoc d ds)
  have "room_for (sum_list (map sections ds)) F" using snoc.prems(3) by (simp add: room_for_def)
  then obtain evs F' D' where r: "run F evs F'" "served D ds evs D'" "db_rep F' D'" "fcap (filp F') = fcap (filp F)"
    "unat (lst_sect_ptr F') \<le> unat (lst_sect_ptr F) + 8192 * sum_list (map sections ds)"
    using snoc by auto
  have "room_for (sections d) F'" using snoc.prems(3) r(4,5) by (simp add: room_for_def)
  moreover have "demand_ok d" using snoc.prems(2) by simp
  ultimately obtain F'' D'' where s: "step F' (answer D' d) F''" "db_next D' (answer D' d) D''" "db_rep F'' D''" "fcap (filp F'') = fcap (filp F')"
    "unat (lst_sect_ptr F'') \<le> unat (lst_sect_ptr F') + 8192 * sections d"
    using serve_one [OF r(3)] by blast
  have "run F (evs @ [answer D' d]) F''" by (rule run_snoc [OF r(1) s(1)])
  moreover have "served D (ds @ [d]) (evs @ [answer D' d]) D''" by (rule served_snoc [OF r(2) s(2)])
  moreover have "unat (lst_sect_ptr F'') \<le> unat (lst_sect_ptr F) + 8192 * sum_list (map sections (ds @ [d]))"
    using r(5) s(5) by simp
  ultimately show ?case using s(3,4) r(4) by metis
qed

end
