(* ===== verification/Bench.thy ===== *)
theory Bench
  imports Database
begin

text \<open>
  \<^verbatim>\<open>dbms/src/bench/bench.c\<close>: the benchmarks of the repository, client programs of the whole database.
  The clock readings and the parts of the output that depend on them are left out; a benchmark returns
  the numbers of documents it prints. Statuses the C code ignores are ignored (\<open>attempt\<close>).
\<close>

subsection \<open>Loops\<close>

fun for_each :: "'i list \<Rightarrow> ('i \<Rightarrow> 'c \<Rightarrow> ('s, 'c) prog) \<Rightarrow> 'c \<Rightarrow> ('s, 'c) prog" where
  "for_each [] body c = ret c"
| "for_each (i # is) body c = DO_OR_FAIL (body i c) (for_each is body)"

partial_function (option) read_loop :: "Iter \<Rightarrow> File \<Rightarrow> (unit option \<times> File) option" where
  "read_loop it F = (if iter_is_avail it then DO_OR_FAIL (iter_next it) read_loop else ret ()) F"

text \<open>\<^verbatim>\<open>user_apply(file, command, NULL)\<close> as a statement.\<close>

definition apply_stmt :: "Command \<Rightarrow> (File, unit) prog" where
  "apply_stmt c = DO_OR_FAIL (attempt (user_apply c)) (\<lambda>_. ret ())"

definition on_new_file :: "nat \<Rightarrow> (File, 'a) prog \<Rightarrow> ('a option \<times> File) option" where
  "on_new_file cap m = Option.bind (user_open_file cap) m"

subsection \<open>Documents and queries\<close>

text \<open>String literals, and the macros \<^verbatim>\<open>JSON_VALUE_INIT\<close>, \<^verbatim>\<open>TYPE_INIT\<close>.\<close>

definition lit :: "char list \<Rightarrow> u8 list" where
  "lit s = map of_char s"

definition json_string :: "char list \<Rightarrow> char list \<Rightarrow> Json" where
  "json_string key val = json_set_val (VStr (string_ctor (lit val))) (json_ctor TYPE_STRING (lit key))"

definition json_int32 :: "char list \<Rightarrow> u32 \<Rightarrow> Json" where
  "json_int32 key val = json_set_val (VRaw (ucast val)) (json_ctor TYPE_INT32 (lit key))"

definition json_bool :: "char list \<Rightarrow> bool \<Rightarrow> Json" where
  "json_bool key val = json_set_val (VRaw (if val then 1 else 0)) (json_ctor TYPE_BOOL (lit key))"

definition json_object :: "char list \<Rightarrow> Json" where
  "json_object key = json_ctor TYPE_OBJECT (lit key)"

definition TYPE_INIT :: "char list \<Rightarrow> Type" where
  "TYPE_INIT name = type_ctor (string_ctor (lit name)) []"

text \<open>
  The nodes are linked by pointers: once \<^verbatim>\<open>amount_json\<close> is added to the sons of \<^verbatim>\<open>city_json\<close>, it is
  the brother of \<^verbatim>\<open>location_json\<close>.
\<close>

definition location_json :: "u32 \<Rightarrow> Json" where
  "location_json amount = json_add_bro (json_string ''location'' ''Moscow'') (Some (json_int32 ''amount'' amount))"

definition flag_json :: Json where
  "flag_json = json_bool ''flag'' True"

definition city_json :: "u32 \<Rightarrow> Json" where
  "city_json amount =
     json_add_son (json_add_son (json_object ''city'') (Some (json_string ''location'' ''Moscow'')))
       (Some (json_int32 ''amount'' amount))"

definition info_json :: "u32 \<Rightarrow> Json" where
  "info_json amount = json_add_son (json_add_son (json_object ''info'') (Some (city_json amount))) (Some flag_json)"

definition glossary :: Json where
  "glossary = json_add_son (json_add_son (json_add_son (json_add_son (json_object ''glossary'')
     (Some (json_string ''sort'' ''SGML'')))
     (Some (json_string ''glossterm'' ''Standard Generalized Markup Language'')))
     (Some (json_string ''acronym'' ''SGML'')))
     (Some (json_string ''abbrev'' ''ISO 8879:1986''))"

definition flag_item :: "Json_type \<Rightarrow> Query_item" where
  "flag_item t = (query_item_ctor t [string_ctor (lit ''flag'')] EQ)\<lparr>query_val := VRaw 1\<rparr>"

definition sort_item :: Query_item where
  "sort_item = (query_item_ctor TYPE_STRING [string_ctor (lit ''sort'')] EQ)
     \<lparr>query_val := VStr (string_ctor (lit ''SGML''))\<rparr>"

text \<open>The designated initialisers of \<^verbatim>\<open>Command\<close>; members left out are null and not used.\<close>

definition insert_cmd :: "Json \<Rightarrow> Type \<Rightarrow> Command" where
  "insert_cmd j t = \<lparr>cmd_type = INSERT, cmd_type_name = type_name t, cmd_query = query_new, cmd_json = j\<rparr>"

definition query_cmd :: "CommandType \<Rightarrow> Query \<Rightarrow> Json \<Rightarrow> Command" where
  "query_cmd ct q j = \<lparr>cmd_type = ct, cmd_type_name = [], cmd_query = q, cmd_json = j\<rparr>"

definition add_type_stmt :: "Type \<Rightarrow> (File, unit) prog" where
  "add_type_stmt t = DO_OR_FAIL (attempt (user_add_type t)) (\<lambda>_. ret ())"

subsection \<open>The benchmarks\<close>

text \<open>The numbers of rounds and of insertions per round are parameters of the loops.\<close>

definition write_rounds :: "nat \<Rightarrow> nat \<Rightarrow> Type \<Rightarrow> (File, nat \<times> nat list) prog" where
  "write_rounds rounds k V_type =
     for_each [0..<rounds] (\<lambda>i (ins_cnt, out).
       DO_OR_FAIL (for_each [0..<k] (\<lambda>_ _. apply_stmt (insert_cmd (info_json 50000) V_type)) ()) (\<lambda>_.
       ret (ins_cnt + 1, out @ [ins_cnt + 1]))) (0, [])"

definition bench_write :: "nat \<Rightarrow> (nat list option \<times> File) option" where
  "bench_write cap = on_new_file cap
     (let V_type = TYPE_INIT ''V'' in
      DO_OR_FAIL (add_type_stmt V_type) (\<lambda>_.
      DO_OR_FAIL (write_rounds 500 200 V_type) (\<lambda>(_, out). ret out)))"

definition read_stmt :: "Query \<Rightarrow> (File, unit) prog" where
  "read_stmt q = DO_OR_FAIL (attempt (user_apply (query_cmd READ q flag_json))) (\<lambda>r. case r of
       Some (Some it) \<Rightarrow> read_loop it
     | _ \<Rightarrow> undef)"

definition flag_query :: Query where
  "flag_query = query_item_add (query_ctor (Some (string_ctor (lit ''K''))) query_new) (flag_item TYPE_INT32)"

definition read_inserts :: "Type \<Rightarrow> nat \<Rightarrow> (File, nat) prog" where
  "read_inserts K_type ins_cnt =
     DO_OR_FAIL (apply_stmt (insert_cmd (info_json 50000) K_type)) (\<lambda>_.
     DO_OR_FAIL (apply_stmt (insert_cmd (location_json 50000) K_type)) (\<lambda>_.
     DO_OR_FAIL (apply_stmt (insert_cmd flag_json K_type)) (\<lambda>_.
     ret (ins_cnt + 3))))"

definition read_rounds :: "nat \<Rightarrow> nat \<Rightarrow> Type \<Rightarrow> (File, nat \<times> nat list) prog" where
  "read_rounds rounds k K_type =
     for_each [0..<rounds] (\<lambda>i (ins_cnt, out).
       DO_OR_FAIL (for_each [0..<k] (\<lambda>_. read_inserts K_type) ins_cnt) (\<lambda>ins_cnt.
       DO_OR_FAIL (read_stmt flag_query) (\<lambda>_.
       ret (ins_cnt, out @ [ins_cnt])))) (0, [])"

definition bench_read :: "nat \<Rightarrow> (nat list option \<times> File) option" where
  "bench_read cap = on_new_file cap
     (DO_OR_FAIL (add_type_stmt (TYPE_INIT ''K'')) (\<lambda>_.
      DO_OR_FAIL (add_type_stmt (TYPE_INIT ''T'')) (\<lambda>_.
      DO_OR_FAIL (add_type_stmt (TYPE_INIT ''V'')) (\<lambda>_.
      DO_OR_FAIL (read_rounds 200 50 (TYPE_INIT ''K'')) (\<lambda>(_, out). ret out)))))"

text \<open>\<^verbatim>\<open>user_close_file\<close> at the end; its status is ignored.\<close>

definition close_stmt :: "(File, unit) prog" where
  "close_stmt = DO_OR_FAIL (attempt user_close_file) (\<lambda>_. ret ())"

definition delete_rounds :: "nat \<Rightarrow> nat \<Rightarrow> Type \<Rightarrow> (File, nat list) prog" where
  "delete_rounds rounds k V_type =
     for_each [0..<rounds] (\<lambda>i out.
       DO_OR_FAIL (for_each [0..<k * i] (\<lambda>_ _.
         DO_OR_FAIL (apply_stmt (insert_cmd (info_json 5) V_type)) (\<lambda>_.
         apply_stmt (insert_cmd glossary V_type))) ()) (\<lambda>_.
       DO_OR_FAIL (apply_stmt (query_cmd DELETE (query_item_add query_new (flag_item TYPE_INT32)) glossary)) (\<lambda>_.
       DO_OR_FAIL (apply_stmt (query_cmd DELETE (query_item_add query_new sort_item) glossary)) (\<lambda>_.
       ret (out @ [k * i]))))) []"

definition bench_delete :: "nat \<Rightarrow> (nat list option \<times> File) option" where
  "bench_delete cap = on_new_file cap
     (let V_type = TYPE_INIT ''V'' in
      DO_OR_FAIL (add_type_stmt V_type) (\<lambda>_.
      DO_OR_FAIL (delete_rounds 30 50 V_type) (\<lambda>out.
      DO_OR_FAIL close_stmt (\<lambda>_. ret out))))"

text \<open>An insertion that is counted when it returned \<^verbatim>\<open>OK\<close>.\<close>

definition counted_insert :: "Json \<Rightarrow> Type \<Rightarrow> nat \<Rightarrow> (File, nat) prog" where
  "counted_insert j t ins_cnt =
     DO_OR_FAIL (attempt (user_apply (insert_cmd j t))) (\<lambda>r.
     ret (if r \<noteq> None then ins_cnt + 1 else ins_cnt))"

definition update_rounds :: "nat \<Rightarrow> nat \<Rightarrow> Type \<Rightarrow> (File, nat list) prog" where
  "update_rounds rounds k V_type =
     for_each [1..<rounds] (\<lambda>i out.
       DO_OR_FAIL (for_each [0..<k * i] (\<lambda>_ ins_cnt.
         DO_OR_FAIL (counted_insert (info_json 5) V_type ins_cnt) (\<lambda>ins_cnt.
         DO_OR_FAIL (apply_stmt (insert_cmd glossary V_type)) (\<lambda>_. ret ins_cnt))) 0) (\<lambda>ins_cnt.
       DO_OR_FAIL (apply_stmt (query_cmd UPDATE (query_item_add query_new (flag_item TYPE_INT32)) glossary)) (\<lambda>_.
       DO_OR_FAIL (apply_stmt (query_cmd DELETE (query_item_add query_new sort_item) glossary)) (\<lambda>_.
       ret (out @ [ins_cnt]))))) []"

definition bench_update :: "nat \<Rightarrow> (nat list option \<times> File) option" where
  "bench_update cap = on_new_file cap
     (let V_type = TYPE_INIT ''V'' in
      DO_OR_FAIL (add_type_stmt V_type) (\<lambda>_.
      DO_OR_FAIL (update_rounds 51 200 V_type) (\<lambda>out.
      DO_OR_FAIL close_stmt (\<lambda>_. ret out))))"

text \<open>
  \<^verbatim>\<open>bench_read_inner\<close> sends an insertion where a query was meant: its iterator is a variable that was
  never set, and using it has no defined outcome.
\<close>

definition inner_read :: "Type \<Rightarrow> (File, unit) prog" where
  "inner_read V_type =
     DO_OR_FAIL (attempt (user_apply (insert_cmd (info_json 50000) V_type))) (\<lambda>r. case r of
       Some (Some it) \<Rightarrow> read_loop it
     | _ \<Rightarrow> undef)"

definition inner_rounds :: "nat \<Rightarrow> nat \<Rightarrow> Type \<Rightarrow> (File, nat list) prog" where
  "inner_rounds rounds k V_type =
     for_each [1..<rounds] (\<lambda>i out.
       DO_OR_FAIL (for_each [0..<k * i] (\<lambda>_. counted_insert (info_json 50000) V_type) 0) (\<lambda>ins_cnt.
       DO_OR_FAIL (inner_read V_type) (\<lambda>_.
       DO_OR_FAIL (apply_stmt (query_cmd DELETE (query_item_add query_new (flag_item TYPE_BOOL)) flag_json)) (\<lambda>_.
       ret (out @ [ins_cnt]))))) []"

definition bench_read_inner :: "nat \<Rightarrow> (nat list option \<times> File) option" where
  "bench_read_inner cap = on_new_file cap
     (let V_type = TYPE_INIT ''V'' in
      DO_OR_FAIL (add_type_stmt V_type) (\<lambda>_.
      DO_OR_FAIL (inner_rounds 51 200 V_type) (\<lambda>out.
      DO_OR_FAIL close_stmt (\<lambda>_. ret out))))"

subsection \<open>Loops that keep an invariant\<close>

lemma for_upt:
  assumes "\<And>i c s. a \<le> i \<Longrightarrow> i < b \<Longrightarrow> I i c s \<Longrightarrow> \<exists>c' s'. body i c s = Some (Some c', s') \<and> I (Suc i) c' s'"
  shows "a \<le> b \<Longrightarrow> I a c s \<Longrightarrow> \<exists>c' s'. for_each [a..<b] body c s = Some (Some c', s') \<and> I b c' s'"
  using assms
proof (induction "b - a" arbitrary: a c s)
  case 0
  then show ?case by simp
next
  case (Suc d)
  have l: "a < b" using Suc.hyps(2) by simp
  obtain c' s' where 1: "body a c s = Some (Some c', s')" "I (Suc a) c' s'"
    using Suc.prems(3) [of a c s] Suc.prems(2) l by blast
  have "\<exists>c'' s''. for_each [Suc a..<b] body c' s' = Some (Some c'', s'') \<and> I b c'' s''"
  proof (rule Suc.hyps(1))
    show "d = b - Suc a" "Suc a \<le> b" using Suc.hyps(2) l by simp_all
    show "I (Suc a) c' s'" by (rule 1(2))
    show "\<exists>c' s'. body i c s = Some (Some c', s') \<and> I (Suc i) c' s'" if "Suc a \<le> i" "i < b" "I i c s" for i c s
      using Suc.prems(3) [of i c s] that by simp
  qed
  with 1(1) show ?case by (simp add: upt_conv_Cons [OF l])
qed

lemma read_loop_yields: "yields F it xs \<Longrightarrow> read_loop it F = Some (Some (), F)"
proof (induction rule: yields.induct)
  case (at_end it)
  then show ?case by (subst read_loop.simps) simp
next
  case (a_hit it it' xs)
  then show ?case by (subst read_loop.simps) simp
qed

subsection \<open>Statements\<close>

text \<open>A database on a device of a given size that has used up at most \<open>m\<close> sections.\<close>

definition holds :: "nat \<Rightarrow> nat \<Rightarrow> File \<Rightarrow> Db \<Rightarrow> bool" where
  "holds cap m F D \<longleftrightarrow> db_rep F D \<and> fcap (filp F) = cap \<and> unat (lst_sect_ptr F) \<le> 8 + 8192 * m"

definition add_docs :: "Db \<Rightarrow> named_doc multiset \<Rightarrow> Db" where
  "add_docs D N = D\<lparr>db_docs := db_docs D + N\<rparr>"

lemma add_docs_simps [simp]:
  "db_types (add_docs D N) = db_types D" "db_docs (add_docs D N) = db_docs D + N"
  "add_docs (add_docs D N) M = add_docs D (N + M)" "add_docs D {#} = D"
  by (simp_all add: add_docs_def add.assoc)

lemma insert_holds:
  assumes h: "holds cap m F D" and t: "db_types D (type_name t) = Some t" "json_is_apply_type j t = OK" "canonical (type_name t)"
    and j: "json_ok j" and cap: "8 + 8192 * (m + json_nodes j) \<le> cap"
  shows "\<exists>F'. apply_stmt (insert_cmd j t) F = Some (Some (), F') \<and>
    holds cap (m + json_nodes j) F' (add_docs D (doc_nodes (Some (type_name t)) j))"
proof -
  have rep: "db_rep F D" and room: "room_for (json_nodes j) F" using h cap by (simp_all add: holds_def room_for_def)
  have ins: "insertable D j (type_name t)" using t by (simp add: insertable_def)
  obtain F' D' where w: "user_write j (type_name t) F = Some (Some (), F')" and rep': "db_rep F' D'"
    and nxt: "db_next D (Inserted j (type_name t)) D'" and f: "fcap (filp F') = fcap (filp F)"
    "unat (lst_sect_ptr F') \<le> unat (lst_sect_ptr F) + 8192 * json_nodes j"
    using insert_rep [OF rep t(3) j room ins] by blast
  have "D' = add_docs D (doc_nodes (Some (type_name t)) j)"
    using nxt by (auto simp: add_docs_def elim: db_next_InsertedE)
  moreover have "apply_stmt (insert_cmd j t) F = Some (Some (), F')"
    using w by (simp add: apply_stmt_def user_apply_insert insert_cmd_def)
  ultimately show ?thesis using rep' f h by (simp add: holds_def)
qed

lemma add_type_holds:
  assumes h: "holds cap m F D" and new: "db_types D (type_name t) = None"
    and t: "canonical_type t" "items_len t + names_len t \<le> 8160" and cap: "8 + 8192 * (m + 1) \<le> cap"
  shows "\<exists>F'. add_type_stmt t F = Some (Some (), F') \<and>
    holds cap (m + 1) F' (D\<lparr>db_types := (db_types D)(type_name t \<mapsto> t)\<rparr>)"
proof -
  have rep: "db_rep F D" and room: "room_for_sect F" using h cap by (simp_all add: holds_def room_for_sect_def)
  obtain F' D' where w: "user_add_type t F = Some (Some (), F')" and rep': "db_rep F' D'"
    and nxt: "db_next D (Added t) D'" and f: "fcap (filp F') = fcap (filp F)"
    "unat (lst_sect_ptr F') \<le> unat (lst_sect_ptr F) + 8192"
    using add_type_rep [OF rep t room] by blast
  have "D' = D\<lparr>db_types := (db_types D)(type_name t \<mapsto> t)\<rparr>"
    using nxt new by (auto elim: db_next_AddedE)
  moreover have "add_type_stmt t F = Some (Some (), F')" using w by (simp add: add_type_stmt_def)
  ultimately show ?thesis using rep' f h by (simp add: holds_def)
qed

lemma open_holds:
  assumes "8 \<le> cap" "cap < LONG_LIMIT"
  shows "user_open_file cap = Some (empty_db cap)" "holds cap 0 (empty_db cap) db_empty"
  using open_rep [OF assms] by (simp_all add: holds_def) (simp_all add: empty_db_def fopen_w_def)

lemma read_holds:
  assumes h: "holds cap m F D" and q: "\<And>d name. (d, name) \<in># db_docs D \<Longrightarrow> query_check q d name \<noteq> None"
  shows "read_stmt q F = Some (Some (), F)"
proof -
  obtain it xs where it: "user_read q F = Some (Some it, F)" "yields F it xs"
    using read_total [of F D q] h q by (auto simp: holds_def)
  have "user_apply (query_cmd READ q flag_json) F = Some (Some (Some it), F)"
    using it(1) by (simp add: user_apply_read query_cmd_def)
  then show ?thesis using read_loop_yields [OF it(2)] by (simp add: read_stmt_def)
qed

subsection \<open>The documents\<close>

lemma apply_type_loop_Nil [simp]: "apply_type_loop x [] = OK"
  by (cases x) simp_all

lemma bench_types:
  "canonical_type (TYPE_INIT name)" "type_name (TYPE_INIT name) = string_ctor (lit name)"
  "json_is_apply_type j (TYPE_INIT name) = OK" "canonical (type_name (TYPE_INIT name))"
  by (simp_all add: TYPE_INIT_def type_ctor_def canonical_type_def json_is_apply_type_def)

lemma length_lit [simp]: "length (lit s) = length s"
  by (simp add: lit_def)

lemmas bench_docs = info_json_def city_json_def location_json_def flag_json_def json_object_def json_string_def
  json_int32_def json_bool_def json_ctor_def

lemma bench_docs_ok:
  "json_ok (info_json a)" "json_nodes (info_json a) = 5"
  "json_ok (location_json a)" "json_nodes (location_json a) = 2"
  "json_ok flag_json" "json_nodes flag_json = 1"
  by (simp_all add: bench_docs val_ok_def)

lemma keys_differ:
  "string_cmp (string_ctor (lit ''city'')) (string_ctor (lit ''flag'')) \<noteq> 0"
  "string_cmp (string_ctor (lit ''location'')) (string_ctor (lit ''flag'')) \<noteq> 0"
  "string_cmp (string_ctor (lit ''amount'')) (string_ctor (lit ''flag'')) \<noteq> 0"
  "string_cmp (string_ctor (lit ''flag'')) (string_ctor (lit ''flag'')) = 0"
  by code_simp+

text \<open>Where a document has the field \<^verbatim>\<open>flag\<close>, the query of \<^verbatim>\<open>bench_read\<close> compares the integers.\<close>

lemma flag_query_check:
  "query_check flag_query d name =
     (case json_son_by_key d (string_ctor (lit ''flag'')) of
        None \<Rightarrow> Some False
      | Some y \<Rightarrow> (case int32_val (jval y) of
          None \<Rightarrow> None
        | Some v \<Rightarrow> Some (v = 1 \<and> query_check_type flag_query name)))"
  by (auto simp: query_check_def flag_query_def query_item_add_def query_ctor_def query_new_def flag_item_def
      query_item_ctor_def query_item_check_def check_int32_def on_ints_def split: option.splits bool.splits)

lemma flag_found:
  "json_son_by_key (doc_of (info_json a)) (string_ctor (lit ''flag'')) = Some (doc_of flag_json)"
  "json_son_by_key (doc_of (the (json_son (info_json a)))) (string_ctor (lit ''flag'')) = None"
  "json_son_by_key (doc_of (location_json a)) (string_ctor (lit ''flag'')) = None"
  "json_son_by_key (doc_of (the (jbro (location_json a)))) (string_ctor (lit ''flag'')) = None"
  "json_son_by_key (doc_of flag_json) (string_ctor (lit ''flag'')) = None"
  using keys_differ by (simp_all add: bench_docs json_son_by_key_def)

lemma doc_nodes_parts:
  "doc_nodes name (info_json a) = {#(doc_of (info_json a), name), (doc_of (the (json_son (info_json a))), None),
     (doc_of (location_json a), None), (doc_of (the (jbro (location_json a))), None), (doc_of flag_json, None)#}"
  "doc_nodes name (location_json a) = {#(doc_of (location_json a), name), (doc_of (the (jbro (location_json a))), None)#}"
  "doc_nodes name flag_json = {#(doc_of flag_json, name)#}"
  by (simp_all add: bench_docs)

lemma int32_flag: "int32_val (jval (doc_of flag_json)) = Some 1"
  by (simp add: bench_docs)

lemma type_test:
  "query_check_type flag_query (Some (string_ctor (lit ''K'')))" "\<not> query_check_type flag_query None"
  by code_simp+

definition round_docs :: "named_doc multiset" where
  "round_docs = doc_nodes (Some (string_ctor (lit ''K''))) (info_json 50000) +
     doc_nodes (Some (string_ctor (lit ''K''))) (location_json 50000) +
     doc_nodes (Some (string_ctor (lit ''K''))) flag_json"

lemma round_docs_checked:
  "(d, name) \<in># round_docs \<Longrightarrow> query_check flag_query d name \<noteq> None"
  "filter_mset (\<lambda>(d, name). query_check flag_query d name = Some True) round_docs =
     {#(doc_of (info_json 50000), Some (string_ctor (lit ''K'')))#}"
  by (auto simp: round_docs_def doc_nodes_parts flag_query_check flag_found int32_flag type_test)

text \<open>A document of the type \<^verbatim>\<open>K\<close> with a son of the name \<^verbatim>\<open>flag\<close> whose value is true.\<close>

definition has_flag :: "named_doc \<Rightarrow> bool" where
  "has_flag = (\<lambda>(d, name). name = Some (string_ctor (lit ''K'')) \<and>
     (case json_son_by_key d (string_ctor (lit ''flag'')) of None \<Rightarrow> False | Some y \<Rightarrow> bool_val (jval y) = Some True))"

lemma round_docs_flag: "filter_mset has_flag round_docs = {#(doc_of (info_json 50000), Some (string_ctor (lit ''K'')))#}"
proof -
  have "bool_val (jval (doc_of flag_json)) = Some True" by (simp add: bench_docs)
  then show ?thesis by (simp add: round_docs_def doc_nodes_parts has_flag_def flag_found)
qed

subsection \<open>The rounds\<close>

lemma write_rounds_ok:
  assumes h: "holds cap m F D" and t: "db_types D (type_name (TYPE_INIT name)) = Some (TYPE_INIT name)"
    and cap: "8 + 8192 * (m + 5 * (rounds * k)) \<le> cap"
  shows "\<exists>F'. write_rounds rounds k (TYPE_INIT name) F = Some (Some (rounds, map Suc [0..<rounds]), F') \<and>
    holds cap (m + 5 * (rounds * k)) F' (add_docs D
      (repeat_mset (rounds * k) (doc_nodes (Some (string_ctor (lit name))) (info_json 50000))))"
proof -
  let ?N = "doc_nodes (Some (string_ctor (lit name))) (info_json 50000)" and ?t = "TYPE_INIT name"
  have one: "\<exists>F'. apply_stmt (insert_cmd (info_json 50000) ?t) G = Some (Some (), F') \<and>
      holds cap (m + 5 * Suc n) F' (add_docs D (repeat_mset (Suc n) ?N))"
    if n: "n < rounds * k" and g: "holds cap (m + 5 * n) G (add_docs D (repeat_mset n ?N))" for n G
  proof -
    have "8 + 8192 * (m + 5 * n + json_nodes (info_json 50000)) \<le> cap" using n cap by (simp add: bench_docs_ok)
    from insert_holds [OF g _ bench_types(3) _ bench_docs_ok(1) this, of name] t show ?thesis
      by (simp add: bench_types bench_docs_ok ac_simps)
  qed
  let ?I = "\<lambda>i (ins_cnt, out) G. ins_cnt = i \<and> out = map Suc [0..<i] \<and>
    holds cap (m + 5 * (i * k)) G (add_docs D (repeat_mset (i * k) ?N))"
  have "\<exists>c F'. write_rounds rounds k ?t F = Some (Some c, F') \<and> ?I rounds c F'"
    unfolding write_rounds_def
  proof (rule for_upt [where I = ?I])
    show "?I 0 (0, []) F" using h by simp
    fix i c G assume i: "i < rounds" and inv: "?I i c G"
    obtain ins_cnt out where c: "c = (ins_cnt, out)" by (cases c)
    let ?J = "\<lambda>j (_ :: unit) H. holds cap (m + 5 * (i * k + j)) H (add_docs D (repeat_mset (i * k + j) ?N))"
    have "\<exists>u H. for_each [0..<k] (\<lambda>_ _. apply_stmt (insert_cmd (info_json 50000) ?t)) () G = Some (Some u, H) \<and> ?J k u H"
    proof (rule for_upt [where I = ?J])
      show "?J 0 () G" using inv by (simp add: c)
      fix j u H assume j: "j < k" and J: "?J j u H"
      have "i * k + j < Suc i * k" using j by simp
      also have "\<dots> \<le> rounds * k" using i by (intro mult_le_mono1) simp
      finally show "\<exists>u H'. apply_stmt (insert_cmd (info_json 50000) ?t) H = Some (Some u, H') \<and> ?J (Suc j) u H'"
        using one [of "i * k + j" H] J by simp
    qed simp
    then obtain H where H: "for_each [0..<k] (\<lambda>_ _. apply_stmt (insert_cmd (info_json 50000) ?t)) () G = Some (Some (), H)"
      "?J k () H" by auto
    have "?I (Suc i) (ins_cnt + 1, out @ [ins_cnt + 1]) H" using H(2) inv by (simp add: c ac_simps)
    with H(1) show "\<exists>c' s'. (case c of (ins_cnt, out) \<Rightarrow>
        DO_OR_FAIL (for_each [0..<k] (\<lambda>_ _. apply_stmt (insert_cmd (info_json 50000) ?t)) ()) (\<lambda>_.
        ret (ins_cnt + 1, out @ [ins_cnt + 1]))) G = Some (Some c', s') \<and> ?I (Suc i) c' s'"
      by (simp add: c)
  qed simp
  then show ?thesis by auto
qed

lemma read_inserts_ok:
  assumes h: "holds cap m F D"
    and t: "db_types D (type_name (TYPE_INIT ''K'')) = Some (TYPE_INIT ''K'')" and cap: "8 + 8192 * (m + 8) \<le> cap"
  shows "\<exists>F'. read_inserts (TYPE_INIT ''K'') n F = Some (Some (n + 3), F') \<and> holds cap (m + 8) F' (add_docs D round_docs)"
proof -
  let ?t = "TYPE_INIT ''K''" and ?K = "Some (string_ctor (lit ''K''))"
  have c1: "8 + 8192 * (m + json_nodes (info_json 50000)) \<le> cap"
    and c2: "8 + 8192 * (m + 5 + json_nodes (location_json 50000)) \<le> cap"
    and c3: "8 + 8192 * (m + 7 + json_nodes flag_json) \<le> cap"
    using cap by (simp_all add: bench_docs_ok)
  obtain F1 where 1: "apply_stmt (insert_cmd (info_json 50000) ?t) F = Some (Some (), F1)"
    "holds cap (m + 5) F1 (add_docs D (doc_nodes ?K (info_json 50000)))"
    using insert_holds [OF h t bench_types(3,4) bench_docs_ok(1) c1] by (auto simp: bench_types bench_docs_ok)
  obtain F2 where 2: "apply_stmt (insert_cmd (location_json 50000) ?t) F1 = Some (Some (), F2)"
    "holds cap (m + 5 + 2) F2 (add_docs (add_docs D (doc_nodes ?K (info_json 50000))) (doc_nodes ?K (location_json 50000)))"
    using insert_holds [OF 1(2) _ bench_types(3,4) bench_docs_ok(3) c2] t
    by (auto simp: bench_types bench_docs_ok simp del: add_docs_simps(3))
  have m7: "m + 5 + 2 = m + 7" by simp
  obtain F3 where 3: "apply_stmt (insert_cmd flag_json ?t) F2 = Some (Some (), F3)"
    "holds cap (m + 7 + 1) F3 (add_docs (add_docs (add_docs D (doc_nodes ?K (info_json 50000))) (doc_nodes ?K (location_json 50000)))
       (doc_nodes ?K flag_json))"
    using insert_holds [OF 2(2) [unfolded m7] _ bench_types(3,4) bench_docs_ok(5) c3] t
    by (auto simp: bench_types bench_docs_ok simp del: add_docs_simps(3))
  have "holds cap (m + 8) F3 (add_docs D round_docs)"
    using 3(2) by (simp add: round_docs_def ac_simps)
  with 1(1) 2(1) 3(1) show ?thesis by (simp add: read_inserts_def)
qed

lemma read_rounds_ok:
  assumes h: "holds cap m F D" and docs: "db_docs D = {#}"
    and t: "db_types D (type_name (TYPE_INIT ''K'')) = Some (TYPE_INIT ''K'')"
    and cap: "8 + 8192 * (m + 8 * (rounds * k)) \<le> cap"
  shows "\<exists>F'. read_rounds rounds k (TYPE_INIT ''K'') F =
      Some (Some (3 * (rounds * k), map (\<lambda>i. 3 * (Suc i * k)) [0..<rounds]), F') \<and>
    holds cap (m + 8 * (rounds * k)) F' (add_docs D (repeat_mset (rounds * k) round_docs))"
proof -
  let ?t = "TYPE_INIT ''K''"
  have one: "\<exists>F'. read_inserts ?t c G = Some (Some (c + 3), F') \<and>
      holds cap (m + 8 * Suc n) F' (add_docs D (repeat_mset (Suc n) round_docs))"
    if n: "n < rounds * k" and g: "holds cap (m + 8 * n) G (add_docs D (repeat_mset n round_docs))" for n c G
  proof -
    have "8 + 8192 * (m + 8 * n + 8) \<le> cap" using n cap by simp
    from read_inserts_ok [OF g _ this, of c] t show ?thesis
      by (simp add: ac_simps)
  qed
  let ?I = "\<lambda>i (ins_cnt, out) G. ins_cnt = 3 * (i * k) \<and> out = map (\<lambda>i. 3 * (Suc i * k)) [0..<i] \<and>
    holds cap (m + 8 * (i * k)) G (add_docs D (repeat_mset (i * k) round_docs))"
  have "\<exists>c F'. read_rounds rounds k ?t F = Some (Some c, F') \<and> ?I rounds c F'"
    unfolding read_rounds_def
  proof (rule for_upt [where I = ?I])
    show "?I 0 (0, []) F" using h by simp
    fix i c G assume i: "i < rounds" and inv: "?I i c G"
    obtain ins_cnt out where c: "c = (ins_cnt, out)" by (cases c)
    let ?J = "\<lambda>j cnt H. cnt = 3 * (i * k + j) \<and>
      holds cap (m + 8 * (i * k + j)) H (add_docs D (repeat_mset (i * k + j) round_docs))"
    have "\<exists>u H. for_each [0..<k] (\<lambda>_. read_inserts ?t) ins_cnt G = Some (Some u, H) \<and> ?J k u H"
    proof (rule for_upt [where I = ?J])
      show "?J 0 ins_cnt G" using inv by (simp add: c)
      fix j u H assume j: "j < k" and J: "?J j u H"
      have "i * k + j < Suc i * k" using j by simp
      also have "\<dots> \<le> rounds * k" using i by (intro mult_le_mono1) simp
      finally show "\<exists>u' H'. read_inserts ?t u H = Some (Some u', H') \<and> ?J (Suc j) u' H'"
        using one [of "i * k + j" H u] J by (simp add: ac_simps)
    qed simp
    then obtain u H where H: "for_each [0..<k] (\<lambda>_. read_inserts ?t) ins_cnt G = Some (Some u, H)" "?J k u H" by blast
    have "read_stmt flag_query H = Some (Some (), H)"
    proof (rule read_holds)
      show "holds cap (m + 8 * (i * k + k)) H (add_docs D (repeat_mset (i * k + k) round_docs))" using H(2) by simp
      fix d name assume "(d, name) \<in># db_docs (add_docs D (repeat_mset (i * k + k) round_docs))"
      then have "(d, name) \<in># round_docs" by (simp add: docs flip: count_greater_zero_iff)
      then show "query_check flag_query d name \<noteq> None" by (rule round_docs_checked(1))
    qed
    moreover have "?I (Suc i) (u, out @ [u]) H" using H(2) inv by (simp add: c algebra_simps)
    ultimately show "\<exists>c' s'. (case c of (ins_cnt, out) \<Rightarrow>
        DO_OR_FAIL (for_each [0..<k] (\<lambda>_. read_inserts ?t) ins_cnt) (\<lambda>ins_cnt.
        DO_OR_FAIL (read_stmt flag_query) (\<lambda>_. ret (ins_cnt, out @ [ins_cnt])))) G =
          Some (Some c', s') \<and> ?I (Suc i) c' s'"
      using H(1) by (simp add: c)
  qed simp
  then show ?thesis by auto
qed

subsection \<open>Whole benchmarks\<close>

lemma bench_type_len: "length name \<le> 100 \<Longrightarrow> items_len (TYPE_INIT name) + names_len (TYPE_INIT name) \<le> 8160"
  by (simp add: TYPE_INIT_def type_ctor_def items_len_def names_len_def)

lemma write_program:
  assumes "8 + 8192 * (1 + 5 * (rounds * k)) \<le> cap" "cap < LONG_LIMIT" "length name \<le> 100"
  shows "\<exists>F D. on_new_file cap (DO_OR_FAIL (add_type_stmt (TYPE_INIT name)) (\<lambda>_.
      DO_OR_FAIL (write_rounds rounds k (TYPE_INIT name)) (\<lambda>(_, out). ret out))) =
        Some (Some (map Suc [0..<rounds]), F) \<and> db_rep F D \<and>
    db_docs D = repeat_mset (rounds * k) (doc_nodes (Some (string_ctor (lit name))) (info_json 50000))"
proof -
  let ?t = "TYPE_INIT name"
  have c: "8 \<le> cap" "8 + 8192 * (0 + 1) \<le> cap" "8 + 8192 * (1 + 5 * (rounds * k)) \<le> cap"
    using assms(1) by simp_all
  note o = open_holds [OF c(1) assms(2)]
  obtain F1 where 1: "add_type_stmt ?t (empty_db cap) = Some (Some (), F1)"
    "holds cap 1 F1 (db_empty\<lparr>db_types := (db_types db_empty)(type_name ?t \<mapsto> ?t)\<rparr>)"
    using add_type_holds [OF o(2) _ bench_types(1) bench_type_len [OF assms(3)] c(2)] by (auto simp: db_empty_def)
  obtain F2 where 2: "write_rounds rounds k ?t F1 = Some (Some (rounds, map Suc [0..<rounds]), F2)"
    "holds cap (1 + 5 * (rounds * k)) F2 (add_docs (db_empty\<lparr>db_types := (db_types db_empty)(type_name ?t \<mapsto> ?t)\<rparr>)
      (repeat_mset (rounds * k) (doc_nodes (Some (string_ctor (lit name))) (info_json 50000))))"
    using write_rounds_ok [OF 1(2) _ c(3), of name] by auto
  have "on_new_file cap (DO_OR_FAIL (add_type_stmt ?t) (\<lambda>_.
      DO_OR_FAIL (write_rounds rounds k ?t) (\<lambda>(_, out). ret out))) = Some (Some (map Suc [0..<rounds]), F2)"
    using o(1) 1(1) 2(1) by (simp add: on_new_file_def)
  with 2(2) show ?thesis unfolding holds_def by (force simp: db_empty_def)
qed

lemma names_differ:
  "string_ctor (lit ''K'') \<noteq> string_ctor (lit ''T'')" "string_ctor (lit ''K'') \<noteq> string_ctor (lit ''V'')"
  "string_ctor (lit ''T'') \<noteq> string_ctor (lit ''V'')"
  by code_simp+

lemma filter_repeat: "filter_mset P (repeat_mset n M) = repeat_mset n (filter_mset P M)"
  by (induction n) simp_all

lemma repeat_single: "repeat_mset n {#x#} = replicate_mset n x"
  by (induction n) simp_all

lemma read_program:
  assumes "8 + 8192 * (3 + 8 * (rounds * k)) \<le> cap" "cap < LONG_LIMIT"
  shows "\<exists>F D it xs. on_new_file cap
      (DO_OR_FAIL (add_type_stmt (TYPE_INIT ''K'')) (\<lambda>_.
       DO_OR_FAIL (add_type_stmt (TYPE_INIT ''T'')) (\<lambda>_.
       DO_OR_FAIL (add_type_stmt (TYPE_INIT ''V'')) (\<lambda>_.
       DO_OR_FAIL (read_rounds rounds k (TYPE_INIT ''K'')) (\<lambda>(_, out). ret out))))) =
        Some (Some (map (\<lambda>i. 3 * (Suc i * k)) [0..<rounds]), F) \<and> db_rep F D \<and>
    db_docs D = repeat_mset (rounds * k) round_docs \<and>
    user_read flag_query F = Some (Some it, F) \<and> yields F it xs \<and>
    mset (map (view_of F) xs) = replicate_mset (rounds * k) (doc_of (info_json 50000), Some (string_ctor (lit ''K''))) \<and>
    mset (map (view_of F) xs) = filter_mset has_flag (db_docs D)"
proof -
  have c: "8 \<le> cap" "8 + 8192 * (0 + 1) \<le> cap" "8 + 8192 * (1 + 1) \<le> cap" "8 + 8192 * (2 + 1) \<le> cap"
    using assms(1) by simp_all
  note o = open_holds [OF c(1) assms(2)] and l = bench_type_len
  let ?K = "TYPE_INIT ''K''" and ?T = "TYPE_INIT ''T''" and ?V = "TYPE_INIT ''V''"
  define D1 where "D1 = db_empty\<lparr>db_types := (db_types db_empty)(type_name ?K \<mapsto> ?K)\<rparr>"
  define D2 where "D2 = D1\<lparr>db_types := (db_types D1)(type_name ?T \<mapsto> ?T)\<rparr>"
  define D3 where "D3 = D2\<lparr>db_types := (db_types D2)(type_name ?V \<mapsto> ?V)\<rparr>"
  have n: "db_types db_empty (type_name ?K) = None" "db_types D1 (type_name ?T) = None" "db_types D2 (type_name ?V) = None"
    "db_types D3 (type_name ?K) = Some ?K" "db_docs D3 = {#}"
    using names_differ by (simp_all add: D1_def D2_def D3_def db_empty_def bench_types)
  obtain F1 where 1: "add_type_stmt ?K (empty_db cap) = Some (Some (), F1)" "holds cap 1 F1 D1"
    using add_type_holds [OF o(2) n(1) bench_types(1) l c(2)] by (auto simp: D1_def)
  obtain F2 where 2: "add_type_stmt ?T F1 = Some (Some (), F2)" "holds cap 2 F2 D2"
    using add_type_holds [OF 1(2) n(2) bench_types(1) l c(3)] by (auto simp: D2_def numeral_2_eq_2)
  obtain F3 where 3: "add_type_stmt ?V F2 = Some (Some (), F3)" "holds cap 3 F3 D3"
    using add_type_holds [OF 2(2) n(3) bench_types(1) l c(4)] by (auto simp: D3_def)
  obtain F4 where 4: "read_rounds rounds k ?K F3 =
      Some (Some (3 * (rounds * k), map (\<lambda>i. 3 * (Suc i * k)) [0..<rounds]), F4)"
    "holds cap (3 + 8 * (rounds * k)) F4 (add_docs D3 (repeat_mset (rounds * k) round_docs))"
    using read_rounds_ok [OF 3(2) n(5,4) assms(1)] by blast
  have rep: "db_rep F4 (add_docs D3 (repeat_mset (rounds * k) round_docs))" using 4(2) by (simp add: holds_def)
  have docs: "db_docs (add_docs D3 (repeat_mset (rounds * k) round_docs)) = repeat_mset (rounds * k) round_docs"
    by (simp add: n)
  have ck: "query_check flag_query d name \<noteq> None" if "(d, name) \<in># db_docs (add_docs D3 (repeat_mset (rounds * k) round_docs))" for d name
    using that unfolding docs by (intro round_docs_checked(1)) (simp flip: count_greater_zero_iff)
  obtain it xs where it: "user_read flag_query F4 = Some (Some it, F4)" "yields F4 it xs"
    and xs: "mset (map (view_of F4) xs) = filter_mset (\<lambda>(d, name). query_check flag_query d name = Some True)
      (db_docs (add_docs D3 (repeat_mset (rounds * k) round_docs)))"
    using read_total [OF rep ck] by blast
  have hits: "mset (map (view_of F4) xs) = repeat_mset (rounds * k) {#(doc_of (info_json 50000), Some (string_ctor (lit ''K'')))#}"
    unfolding xs docs filter_repeat round_docs_checked(2) ..
  then have len: "mset (map (view_of F4) xs) = replicate_mset (rounds * k) (doc_of (info_json 50000), Some (string_ctor (lit ''K'')))"
    by (simp only: repeat_single)
  have flag: "mset (map (view_of F4) xs) = filter_mset has_flag (repeat_mset (rounds * k) round_docs)"
    unfolding hits filter_repeat round_docs_flag ..
  have "on_new_file cap (DO_OR_FAIL (add_type_stmt ?K) (\<lambda>_. DO_OR_FAIL (add_type_stmt ?T) (\<lambda>_.
      DO_OR_FAIL (add_type_stmt ?V) (\<lambda>_. DO_OR_FAIL (read_rounds rounds k ?K) (\<lambda>(_, out). ret out))))) =
      Some (Some (map (\<lambda>i. 3 * (Suc i * k)) [0..<rounds]), F4)"
    using o(1) 1(1) 2(1) 3(1) 4(1) by (simp add: on_new_file_def)
  with rep docs it len flag show ?thesis by metis
qed

text \<open>Statements never fail as a whole, they can only have no outcome.\<close>

definition no_fail :: "('a option \<times> 's) option \<Rightarrow> bool" where
  "no_fail r \<longleftrightarrow> (case r of Some (None, _) \<Rightarrow> False | _ \<Rightarrow> True)"

lemma no_fail_cases: "no_fail r \<Longrightarrow> r = None \<or> (\<exists>x s. r = Some (Some x, s))"
  by (auto simp: no_fail_def split: option.splits)

lemma no_fail_attempt: "(\<And>r s. no_fail (k r s)) \<Longrightarrow> no_fail (DO_OR_FAIL (attempt m) k s)"
proof -
  assume k: "\<And>r s. no_fail (k r s)"
  show ?thesis
  proof (cases "m s")
    case None
    then show ?thesis by (simp add: no_fail_def)
  next
    case (Some x)
    then have "DO_OR_FAIL (attempt m) k s = k (fst x) (snd x)" by (cases x) simp
    with k show ?thesis by simp
  qed
qed

lemma no_fail_ret [simp]: "no_fail (ret x s)"
  by (simp add: no_fail_def)

lemma no_fail_for_each: "(\<And>i c s. no_fail (body i c s)) \<Longrightarrow> no_fail (for_each is body c s)"
proof (induction "is" arbitrary: c s)
  case (Cons i "is")
  from no_fail_cases [OF Cons.prems [of i c s]] show ?case
  proof (elim disjE exE)
    assume "body i c s = None"
    then show ?thesis by (simp add: no_fail_def)
  next
    fix x s' assume "body i c s = Some (Some x, s')"
    with Cons show ?thesis by simp
  qed
qed (simp add: no_fail_def)

lemma inner_read_undefined: "inner_read t F = None"
  by (auto simp: inner_read_def DO_OR_FAIL_def attempt_def user_apply_insert insert_cmd_def split: option.splits)

lemma inner_rounds_undefined:
  assumes "1 < rounds"
  shows "inner_rounds rounds k t F = None"
proof -
  have "no_fail (for_each [0..<k * 1] (\<lambda>_. counted_insert (info_json 50000) t) 0 F)"
    unfolding counted_insert_def by (intro no_fail_for_each no_fail_attempt no_fail_ret)
  from no_fail_cases [OF this] show ?thesis
    unfolding inner_rounds_def upt_conv_Cons [OF assms] for_each.simps
    by (elim disjE exE) (simp_all add: inner_read_undefined)
qed

subsection \<open>Properties\<close>

text \<open>C18: \<^verbatim>\<open>bench_write\<close> runs to its end on a device with room for one section per node: it prints the
  numbers from 1 to 500, and the database then holds its document one hundred thousand times.\<close>

theorem bench_write_runs:
  assumes "8 + 8192 * (1 + 5 * (500 * 200)) \<le> cap" "cap < LONG_LIMIT"
  shows "\<exists>F D. bench_write cap = Some (Some (map Suc [0..<500]), F) \<and> db_rep F D \<and>
    db_docs D = repeat_mset (500 * 200) (doc_nodes (Some (string_ctor (lit ''V''))) (info_json 50000))"
  unfolding bench_write_def Let_def by (rule write_program [OF assms]) simp

theorem bench_write_runs_witness:
  "\<exists>F D. bench_write 5000000000 = Some (Some (map Suc [0..<500]), F) \<and> db_rep F D \<and>
    db_docs D = repeat_mset (500 * 200) (doc_nodes (Some (string_ctor (lit ''V''))) (info_json 50000))"
  by (rule bench_write_runs) (simp_all del: upt_rec_numeral)

text \<open>C17: \<^verbatim>\<open>bench_read\<close> runs to its end too: it prints the multiples of 150, and its query then hands out exactly
  the documents of the type \<^verbatim>\<open>K\<close> that have a true flag, which is ten thousand times the info document, and
  none of the seventy thousand other documents and nodes.\<close>

theorem bench_read_runs:
  assumes "8 + 8192 * (3 + 8 * (200 * 50)) \<le> cap" "cap < LONG_LIMIT"
  shows "\<exists>F D it xs. bench_read cap = Some (Some (map (\<lambda>i. 3 * (Suc i * 50)) [0..<200]), F) \<and> db_rep F D \<and>
    db_docs D = repeat_mset (200 * 50) round_docs \<and>
    user_read flag_query F = Some (Some it, F) \<and> yields F it xs \<and>
    mset (map (view_of F) xs) = replicate_mset (200 * 50) (doc_of (info_json 50000), Some (string_ctor (lit ''K''))) \<and>
    mset (map (view_of F) xs) = filter_mset has_flag (db_docs D)"
  unfolding bench_read_def by (rule read_program [OF assms])

theorem bench_read_runs_witness:
  "\<exists>F D it xs. bench_read 1000000000 = Some (Some (map (\<lambda>i. 3 * (Suc i * 50)) [0..<200]), F) \<and> db_rep F D \<and>
    db_docs D = repeat_mset (200 * 50) round_docs \<and>
    user_read flag_query F = Some (Some it, F) \<and> yields F it xs \<and>
    mset (map (view_of F) xs) = replicate_mset (200 * 50) (doc_of (info_json 50000), Some (string_ctor (lit ''K''))) \<and>
    mset (map (view_of F) xs) = filter_mset has_flag (db_docs D)"
  by (rule bench_read_runs) simp_all

text \<open>\<^verbatim>\<open>bench_read_inner\<close> has no defined outcome, whatever the device: it uses an iterator that the
  insertion it sends instead of a query never sets.\<close>

theorem bench_read_inner_undefined: "bench_read_inner cap = None"
proof -
  have "DO_OR_FAIL (add_type_stmt t) (\<lambda>_. DO_OR_FAIL (inner_rounds 51 200 t) k) F = None" for t F and k :: "nat list \<Rightarrow> (File, nat list) prog"
  proof -
    have "no_fail (add_type_stmt t F)"
      unfolding add_type_stmt_def by (intro no_fail_attempt no_fail_ret)
    from no_fail_cases [OF this] show ?thesis
      by (elim disjE exE) (simp_all add: inner_rounds_undefined)
  qed
  then show ?thesis
    unfolding bench_read_inner_def on_new_file_def Let_def by (cases "user_open_file cap") simp_all
qed

end
