(* ===== verification/Drops.thy ===== *)
theory Drops
  imports Read_Spec
begin

text \<open>
  \<^verbatim>\<open>file_delete\<close> on a tidy file: deleting a node that no other node links to takes exactly its items and
  those of its relatives from the file. \<open>drops X F F'\<close> says that the items \<open>X\<close> are gone and that all others are
  where they were, with their records; \<open>stock F\<close> is the invariant that makes this compose along the
  recursion: every item in use holds a document, and the links form a forest.
\<close>

subsection \<open>Items that go\<close>

definition same_shape :: "File \<Rightarrow> File \<Rightarrow> bool" where
  "same_shape F F' \<longleftrightarrow> length (f_extent F') = length (f_extent F) \<and> f_types F' = f_types F \<and>
     lst_sect_ptr F' = lst_sect_ptr F \<and> fcap (filp F') = fcap (filp F) \<and>
     (\<forall>i < length (f_extent F). file_offset (f_extent F' ! i) = file_offset (f_extent F ! i)) \<and>
     (\<forall>h \<in> set (f_types F). \<forall>b \<in> sect_bytes h. fdata (filp F') b = fdata (filp F) b)"

definition drops :: "place set \<Rightarrow> File \<Rightarrow> File \<Rightarrow> bool" where
  "drops X F F' \<longleftrightarrow> file_inv F' \<and> tidy_file F' \<and> same_shape F F' \<and> used F' = used F - X \<and>
     (\<forall>s \<in> used F - X. \<forall>b \<in> parea F s. fdata (filp F') b = fdata (filp F) b)"

lemma dropsD:
  assumes "drops X F F'"
  shows "file_inv F'" "tidy_file F'" "same_shape F F'" "used F' = used F - X"
    "s \<in> used F \<Longrightarrow> s \<notin> X \<Longrightarrow> b \<in> parea F s \<Longrightarrow> fdata (filp F') b = fdata (filp F) b"
  using assms unfolding drops_def by blast+

lemma drops_shape:
  assumes "drops X F F'"
  shows "length (f_extent F') = length (f_extent F)" "f_types F' = f_types F" "lst_sect_ptr F' = lst_sect_ptr F"
    "fcap (filp F') = fcap (filp F)" "i < length (f_extent F) \<Longrightarrow> file_offset (f_extent F' ! i) = file_offset (f_extent F ! i)"
    "h \<in> set (f_types F) \<Longrightarrow> b \<in> sect_bytes h \<Longrightarrow> fdata (filp F') b = fdata (filp F) b"
  using dropsD(3) [OF assms] unfolding same_shape_def by blast+

lemma drops_addr: "drops X F F' \<Longrightarrow> fst s < length (f_extent F) \<Longrightarrow> paddr F' s = paddr F s"
  using drops_shape(5) by (auto simp: paddr_def slot_addr_def sect_head_get_fileoff_def split: prod.split)

lemma drops_addr_used: "drops X F F' \<Longrightarrow> s \<in> used F \<Longrightarrow> paddr F' s = paddr F s"
  by (rule drops_addr) (auto simp: used_def)

lemma drops_pent:
  assumes d: "drops X F F'" and s: "s \<in> used F" "s \<notin> X"
  shows "pent F' s = pent F s"
proof -
  obtain i k where ik: "s = (i, k)" by (cases s)
  have i: "i < length (f_extent F)" using s(1) by (simp add: ik used_def)
  have "fdata (filp F') b = fdata (filp F) b" if "b \<in> item_area (f_extent F ! i) k (pent F s)" for b
    using dropsD(5) [OF d s] that by (simp add: parea_def ik)
  from item_same(1) [OF this drops_shape(5) [OF d i]] show ?thesis by (simp add: pent_def ik)
qed

lemma drops_parea:
  assumes d: "drops X F F'" and s: "s \<in> used F" "s \<notin> X"
  shows "parea F' s = parea F s"
proof -
  obtain i k where ik: "s = (i, k)" by (cases s)
  have "i < length (f_extent F)" using s(1) by (simp add: ik used_def)
  with drops_shape(5) [OF d this] drops_pent [OF d s] show ?thesis
    by (simp add: parea_def item_area_def ik)
qed

lemma drops_refl: "file_inv F \<Longrightarrow> tidy_file F \<Longrightarrow> drops {} F F"
  by (simp add: drops_def same_shape_def)

lemma drops_trans:
  assumes a: "drops X F F1" and b: "drops Y F1 F2"
  shows "drops (X \<union> Y) F F2"
proof -
  have "used F2 = used F - (X \<union> Y)" using dropsD(4) [OF a] dropsD(4) [OF b] by blast
  moreover have "fdata (filp F2) c = fdata (filp F) c" if "s \<in> used F - (X \<union> Y)" "c \<in> parea F s" for s c
  proof -
    have s: "s \<in> used F" "s \<notin> X" "s \<in> used F1" "s \<notin> Y" using that(1) dropsD(4) [OF a] by blast+
    show ?thesis
      using dropsD(5) [OF a s(1,2) that(2)] dropsD(5) [OF b s(3,4)] that(2) drops_parea [OF a s(1,2)] by simp
  qed
  moreover have "same_shape F F2"
    using dropsD(3) [OF a] dropsD(3) [OF b] unfolding same_shape_def by simp
  ultimately show ?thesis using dropsD(1,2) [OF b] unfolding drops_def by blast
qed

lemma drops_more: "drops X F F' \<Longrightarrow> X \<inter> used F = Y \<inter> used F \<Longrightarrow> drops Y F F'"
  unfolding drops_def by (metis Diff_Int2 Int_Diff Int_absorb)

subsection \<open>One item\<close>

lemma delete_item:
  assumes inv: "file_inv F" and t: "tidy_file F" and s: "s \<in> used F"
  shows "\<exists>F'. ext_at (paddr F s) sect_ext_delete F = Some (Some (pent F s), F') \<and> drops {s} F F'"
proof -
  obtain i k where ik: "s = (i, k)" by (cases s)
  let ?h = "f_extent F ! i"
  note u = used_items [OF t s [unfolded ik]] and a = paddr_used [OF inv t s [unfolded ik]]
  obtain n where n: "items ?h n" "k < n" using u(2) by blast
  have wf: "sect_wf (?h, filp F)" using file_invD(2) [OF inv] u(1) by simp
  have ti: "tidy (?h, filp F)" using t u(1) by (rule tidy_fileD)
  obtain h' f' where d: "sect_ext_delete (sect_head_get_sectoff ?h (paddr F (i, k))) (?h, filp F) =
      Some (Some (item_ent (filp F) ?h k), (h', f'))" and st: "sect_step (?h, filp F) (h', f')" and ti': "tidy (h', f')"
    and del: "deleted k (?h, filp F) (h', f')"
    using tidy_delete [OF wf ti n u(3) a(3)] by blast
  let ?F = "with_sect F i (h', f')"
  note o = with_sect_others [OF inv t u(1) st ti']
  have e: "ext_at (paddr F s) sect_ext_delete F = Some (Some (pent F s), ?F)"
    using a(2) d by (simp add: ext_at_def on_ext_def ik pent_def with_sect_def)
  obtain n' where n': "n' \<le> n" "items h' n'" using deletedD(1) [OF del n(1)] by blast
  have i': "i < length (f_extent ?F)" "items (f_extent ?F ! i) n'" using u(1) n'(2) by simp_all
  have same: "(i, l) \<in> used ?F \<longleftrightarrow> (i, l) \<in> used F \<and> l \<noteq> k" for l
  proof
    assume "(i, l) \<in> used ?F"
    then have l: "l < n'" "item_used f' h' l" using used_iff [OF i'(2,1), of l] u(1) by simp_all
    with deletedD(4) [OF del n(1) n'(2) l] n'(1) show "(i, l) \<in> used F \<and> l \<noteq> k"
      by (simp add: used_iff [OF n(1) u(1)])
  next
    assume "(i, l) \<in> used F \<and> l \<noteq> k"
    then have l: "l < n" "l \<noteq> k" "item_used (filp F) ?h l" by (simp_all add: used_iff [OF n(1) u(1)])
    have "l < n'" by (rule deletedD(2) [OF del n(1) l n'(2)])
    moreover have "item_used f' h' l"
      using item_same(2) [of ?h l "item_ent (filp F) ?h l" f' "filp F" h', OF deletedD(3) [OF del n(1) l] sect_stepD(2) [OF st]] l(3)
      by blast
    ultimately show "(i, l) \<in> used ?F" using used_iff [OF i'(2,1), of l] u(1) by simp
  qed
  have us: "used ?F = used F - {s}"
  proof (rule set_eqI)
    fix x show "x \<in> used ?F \<longleftrightarrow> x \<in> used F - {s}"
      using same o(3) by (cases x; cases "fst x = i") (auto simp: ik)
  qed
  have keep: "fdata f' b = fdata (filp F) b" if x: "x \<in> used F" "x \<noteq> s" "b \<in> parea F x" for x b
  proof -
    obtain j l where jl: "x = (j, l)" by (cases x)
    note v = used_items [OF t x(1) [unfolded jl]]
    show ?thesis
    proof (cases "j = i")
      case True
      then have l: "l < n" "l \<noteq> k" "item_used (filp F) ?h l"
        using x(1,2) by (simp_all add: used_iff [OF n(1) u(1)] jl ik)
      show ?thesis using deletedD(3) [OF del n(1) l] x(3) True by (simp add: parea_def pent_def jl)
    next
      case False
      obtain m where m: "items (f_extent F ! j) m" "l < m" using v(2) by blast
      have wj: "sect_wf (f_extent F ! j, filp F)" using file_invD(2) [OF inv] v(1) by simp
      have "rec_ok (filp F) (f_extent F ! j) (item_ent (filp F) (f_extent F ! j) l)"
        by (rule tidyD(1) [OF tidy_fileD [OF t v(1)] m v(3)])
      moreover have "32 + 80 * l + 80 \<le> 8192" using used_bound [OF inv t x(1) [unfolded jl]] .
      ultimately have "b \<in> sect_bytes (f_extent F ! j)"
        using x(3) by (auto simp: parea_def item_area_def sect_bytes_def rec_ok_def jl pent_def)
      with o(6) [OF v(1) False] show ?thesis by blast
    qed
  qed
  have "fdata f' b = fdata (filp F) b" if "g \<in> set (f_types F)" "b \<in> sect_bytes g" for g b
  proof (rule sect_stepD(5) [OF st])
    have "apart (unat (file_offset ?h)) (unat (file_offset g))" using ext_types_apart [OF inv _ that(1)] u(1) by simp
    with that(2) show "b < unat (file_offset ?h) \<or> unat (file_offset ?h) + 8192 \<le> b"
      unfolding apart_def sect_bytes_def by auto
  qed
  moreover have "file_offset ((f_extent F)[i := h'] ! j) = file_offset (f_extent F ! j)" if "j < length (f_extent F)" for j
    using that sect_stepD(2) [OF st] by (cases "j = i") simp_all
  ultimately have "same_shape F ?F"
    using sect_stepD(3) [OF st] by (simp add: same_shape_def)
  moreover have "\<forall>x \<in> used F - {s}. \<forall>b \<in> parea F x. fdata (filp ?F) b = fdata (filp F) b"
  proof (intro ballI)
    fix x b assume "x \<in> used F - {s}" "b \<in> parea F x"
    then have "x \<in> used F" "x \<noteq> s" "b \<in> parea F x" by blast+
    then show "fdata (filp ?F) b = fdata (filp F) b" unfolding with_sect_fields by (rule keep)
  qed
  ultimately have "drops {s} F ?F" using o(1,2) us unfolding drops_def by blast
  with e show ?thesis by blast
qed

subsection \<open>Nodes and documents\<close>

definition pkey :: "File \<Rightarrow> place \<Rightarrow> String" where
  "pkey F s = rec_key (filp F) (f_extent F ! fst s) (pent F s)"

definition pval :: "File \<Rightarrow> place \<Rightarrow> u8 list" where
  "pval F s = rec_val (filp F) (f_extent F ! fst s) (pent F s)"

lemma parea_alloc:
  assumes inv: "file_inv F" and t: "tidy_file F" and s: "s \<in> used F"
  shows "parea F s \<subseteq> ext_alloc F"
proof -
  obtain i k where ik: "s = (i, k)" by (cases s)
  note u = used_items [OF t s [unfolded ik]]
  obtain n where n: "items (f_extent F ! i) n" "k < n" using u(2) by blast
  have r: "rec_ok (filp F) (f_extent F ! i) (item_ent (filp F) (f_extent F ! i) k)"
    by (rule tidyD(1) [OF tidy_fileD [OF t u(1)] n u(3)])
  have "32 + 80 * k + 80 \<le> unat (lst_itm_ptr (f_extent F ! i))" using n unfolding items_def by linarith
  then have "parea F s \<subseteq> sect_alloc (f_extent F ! i)"
    using r by (auto simp: parea_def item_area_def sect_alloc_def rec_ok_def Let_def ik pent_def)
  with nth_mem [OF u(1)] show ?thesis unfolding ext_alloc_def by blast
qed

lemma place_node:
  assumes inv: "file_inv F" and t: "tidy_file F" and s: "s \<in> used F"
  shows "node_at (ext_alloc F) F (paddr F s) (pent F s) (pkey F s) (pval F s)"
proof -
  obtain i k where ik: "s = (i, k)" by (cases s)
  note u = used_items [OF t s [unfolded ik]] and a = paddr_used [OF inv t s [unfolded ik]]
  obtain n where n: "items (f_extent F ! i) n" "k < n" using u(2) by blast
  have "item_area (f_extent F ! i) k (item_ent (filp F) (f_extent F ! i) k) \<subseteq> ext_alloc F"
    using parea_alloc [OF inv t s] by (simp add: parea_def ik pent_def)
  from tidy_entity [OF tidy_fileD [OF t u(1)] n u(3) this] show ?thesis
    unfolding node_at_def using u(1) a(1) by (intro exI [of _ i]) (simp add: ik pkey_def pval_def pent_def)
qed

lemma node_place:
  assumes inv: "file_inv F" and t: "tidy_file F" and s: "s \<in> used F" and n: "node_at A F (paddr F s) e key val"
  shows "e = pent F s" "key = pkey F s" "val = pval F s"
proof -
  obtain i k where ik: "s = (i, k)" by (cases s)
  note u = used_items [OF t s [unfolded ik]] and a = paddr_used [OF inv t s [unfolded ik]]
  obtain m where m: "m < length (f_extent F)" "unat (file_offset (f_extent F ! m)) \<le> unat (paddr F s)"
    and e: "entity_in A (filp F) (f_extent F ! m) (unat (paddr F s) - unat (file_offset (f_extent F ! m))) e key val"
    using n by (auto simp: node_at_def)
  have wf: "sect_wf (f_extent F ! m, filp F)" using file_invD(2) [OF inv] m(1) by simp
  have "unat (paddr F s) - unat (file_offset (f_extent F ! m)) + 80 \<le> 8192"
    using e wf by (simp add: entity_in_def sect_wf_def Let_def)
  then have "get_sect_ext F (paddr F s) = Some m" using m by (intro get_sect_ext_hit [OF inv]) auto
  then have "m = i" using a(2) by (simp add: ik)
  with e a(1) have "entity_in A (filp F) (f_extent F ! i) (32 + 80 * k) e key val" by (simp add: ik)
  from entity_in_item [OF this] show "e = pent F s" "key = pkey F s" "val = pval F s"
    by (simp_all add: ik pent_def pkey_def pval_def)
qed

lemma drops_node:
  assumes inv: "file_inv F" and t: "tidy_file F" and d: "drops X F F'" and s: "s \<in> used F" "s \<notin> X"
    and n: "node_at A F (paddr F s) e key val"
  shows "node_at (ext_alloc F') F' (paddr F s) e key val"
proof -
  obtain i k where ik: "s = (i, k)" by (cases s)
  let ?e = "pent F s" and ?h = "f_extent F ! i" and ?h' = "f_extent F' ! i"
  note u = used_items [OF t s(1) [unfolded ik]]
  obtain m where m: "items ?h m" "k < m" using u(2) by blast
  have r: "rec_ok (filp F) ?h ?e"
    using tidyD(1) [OF tidy_fileD [OF t u(1)] m u(3)] by (simp add: ik pent_def)
  have s': "s \<in> used F'" using s dropsD(4) [OF d] by blast
  have o: "file_offset ?h' = file_offset ?h" by (rule drops_shape(5) [OF d u(1)])
  have fs: "fst s = i" by (simp add: ik)
  have b: "fdata (filp F') b = fdata (filp F) b"
    if "unat (file_offset ?h) + unat (val_ptr ?e) \<le> b" "b < unat (file_offset ?h) + rec_end ?e" for b
    using that by (intro dropsD(5) [OF d s]) (simp add: parea_def item_area_def ik)
  have l: "unat (key_ptr ?e) = unat (val_ptr ?e) + unat (val_size ?e)" using r by (simp add: rec_ok_def)
  have "pkey F' s = pkey F s"
    unfolding pkey_def rec_key_def drops_pent [OF d s] fs o
    by (rule fget_cong) (rule b, use l in \<open>simp_all add: rec_end_def\<close>)
  moreover have "pval F' s = pval F s"
    unfolding pval_def rec_val_def drops_pent [OF d s] fs o
    by (rule fget_cong) (rule b, use l in \<open>simp_all add: rec_end_def\<close>)
  moreover note node_place [OF inv t s(1) n]
  ultimately show ?thesis
    using place_node [OF dropsD(1,2) [OF d] s'] drops_pent [OF d s] drops_addr_used [OF d s(1)] by simp
qed

text \<open>A document stays stored when its items are among those that stay.\<close>

lemma drops_stored:
  assumes inv: "file_inv F" and t: "tidy_file F" and d: "drops X F F'" and S: "S \<subseteq> used F - X"
    and closed: "\<And>s. s \<in> S \<Longrightarrow> refs (pent F s) \<subseteq> paddr F ` S"
  shows "s \<in> S \<Longrightarrow> stored A F (paddr F s) dad tp j \<Longrightarrow> stored (ext_alloc F') F' (paddr F s) dad tp j"
proof (induction j arbitrary: s dad tp)
  case (Json k v ty b sn x y)
  have s: "s \<in> used F" "s \<notin> X" using Json.prems(1) S by blast+
  obtain e where e: "node_at A F (paddr F s) e k (val_bytes ty v)" "ent_type e = type_code ty" "dad_ptr (fam_addr e) = dad" "type_ptr e = tp"
    "case b of None \<Rightarrow> bro_ptr (fam_addr e) = 0
      | Some bj \<Rightarrow> bro_ptr (fam_addr e) \<noteq> 0 \<and> stored A F (bro_ptr (fam_addr e)) dad 0 bj"
    "case sn of None \<Rightarrow> son_ptr (fam_addr e) = 0
      | Some sj \<Rightarrow> son_ptr (fam_addr e) \<noteq> 0 \<and> stored A F (son_ptr (fam_addr e)) (paddr F s) 0 sj"
    using Json.prems(2) unfolding stored.simps by blast
  have pe: "pent F s = e" using node_place(1) [OF inv t s(1) e(1)] by simp
  have to: "\<exists>u \<in> S. paddr F u = a" if "a = bro_ptr (fam_addr e) \<or> a = son_ptr (fam_addr e)" "a \<noteq> 0" for a
  proof -
    have "a \<in> refs (pent F s)" using that by (auto simp: pe refs_def)
    then have "a \<in> paddr F ` S" using closed [OF Json.prems(1)] by blast
    then show ?thesis by blast
  qed
  have "case b of None \<Rightarrow> bro_ptr (fam_addr e) = 0
      | Some bj \<Rightarrow> bro_ptr (fam_addr e) \<noteq> 0 \<and> stored (ext_alloc F') F' (bro_ptr (fam_addr e)) dad 0 bj"
  proof (cases b)
    case (Some bj)
    then have nz: "bro_ptr (fam_addr e) \<noteq> 0" "stored A F (bro_ptr (fam_addr e)) dad 0 bj" using e(5) by simp_all
    obtain u where "u \<in> S" "paddr F u = bro_ptr (fam_addr e)" using to [OF _ nz(1)] by blast
    with Json.IH(1) [of bj u dad 0] nz Some show ?thesis by simp
  qed (use e(5) in simp)
  moreover have "case sn of None \<Rightarrow> son_ptr (fam_addr e) = 0
      | Some sj \<Rightarrow> son_ptr (fam_addr e) \<noteq> 0 \<and> stored (ext_alloc F') F' (son_ptr (fam_addr e)) (paddr F s) 0 sj"
  proof (cases sn)
    case (Some sj)
    then have nz: "son_ptr (fam_addr e) \<noteq> 0" "stored A F (son_ptr (fam_addr e)) (paddr F s) 0 sj" using e(6) by simp_all
    obtain u where "u \<in> S" "paddr F u = son_ptr (fam_addr e)" using to [OF _ nz(1)] by blast
    with Json.IH(2) [of sj u "paddr F s" 0] nz Some show ?thesis by simp
  qed (use e(6) in simp)
  ultimately show ?case
    unfolding stored.simps using drops_node [OF inv t d s e(1)] e(2-4) by blast
qed

subsection \<open>The forest\<close>

definition lk :: "File \<Rightarrow> (place \<times> place) set" where
  "lk F = {(s, t). s \<in> used F \<and> t \<in> used F \<and> paddr F t \<in> refs (pent F s)}"

definition desc :: "File \<Rightarrow> place \<Rightarrow> place set" where
  "desc F t = {x. (t, x) \<in> (lk F)\<^sup>*}"

definition unref :: "File \<Rightarrow> place \<Rightarrow> bool" where
  "unref F t \<longleftrightarrow> (\<forall>s \<in> used F. paddr F t \<notin> refs (pent F s))"

text \<open>No item outside \<open>X\<close> links into it.\<close>

definition cut :: "File \<Rightarrow> place set \<Rightarrow> bool" where
  "cut F X \<longleftrightarrow> (\<forall>s \<in> used F - X. refs (pent F s) \<subseteq> paddr F ` (used F - X))"

definition filed :: "File \<Rightarrow> bool" where
  "filed F \<longleftrightarrow> (\<forall>s \<in> used F. \<exists>dad tp j. json_ok j \<and> stored (ext_alloc F) F (paddr F s) dad tp j)"

definition rooted :: "File \<Rightarrow> bool" where
  "rooted F \<longleftrightarrow> (\<forall>s \<in> used F. type_ptr (pent F s) \<noteq> 0 \<longrightarrow> dad_ptr (fam_addr (pent F s)) = 0)"

definition stock :: "File \<Rightarrow> bool" where
  "stock F \<longleftrightarrow> file_inv F \<and> tidy_file F \<and> linked F \<and> filed F \<and> rooted F"

lemma stockD:
  assumes "stock F"
  shows "file_inv F" "tidy_file F" "linked F" "filed F" "rooted F"
  using assms by (simp_all add: stock_def)

lemma linkedD:
  assumes "linked F"
  shows "s \<in> used F \<Longrightarrow> refs (pent F s) \<subseteq> paddr F ` used F" "s \<in> used F \<Longrightarrow> once (pent F s)"
    "t \<in> used F \<Longrightarrow> type_ptr (pent F t) \<noteq> 0 \<Longrightarrow> unref F t"
    "s \<in> used F \<Longrightarrow> t \<in> used F \<Longrightarrow> a \<in> refs (pent F s) \<Longrightarrow> a \<in> refs (pent F t) \<Longrightarrow> s = t"
proof -
  obtain R T where "forest F (used F) R T" using assms by (auto simp: linked_def)
  note f = forestD [OF this]
  show "refs (pent F s) \<subseteq> paddr F ` used F" if "s \<in> used F" using f(3) [OF that] by blast
  show "once (pent F s)" if "s \<in> used F" using f(4) [OF that] .
  show "unref F t" if "t \<in> used F" "type_ptr (pent F t) \<noteq> 0"
    unfolding unref_def using f(2,3) f(5) [OF that] by blast
  show "s = t" if "s \<in> used F" "t \<in> used F" "a \<in> refs (pent F s)" "a \<in> refs (pent F t)" using f(6) that by blast
qed

lemma desc_used: "t \<in> used F \<Longrightarrow> desc F t \<subseteq> used F"
proof
  fix x assume t: "t \<in> used F" and "x \<in> desc F t"
  then have "(t, x) \<in> (lk F)\<^sup>*" by (simp add: desc_def)
  then show "x \<in> used F" by (induction rule: rtrancl_induct) (use t in \<open>auto simp: lk_def\<close>)
qed

lemma desc_self: "t \<in> desc F t"
  by (simp add: desc_def)

lemma desc_step: "x \<in> desc F t \<Longrightarrow> (x, y) \<in> lk F \<Longrightarrow> y \<in> desc F t"
  by (simp add: desc_def)

text \<open>The items below an item nothing links to are cut off from the others.\<close>

lemma desc_last:
  assumes "x \<in> desc F t" "x \<noteq> t"
  shows "\<exists>p \<in> desc F t. (p, x) \<in> lk F"
proof -
  have "(t, x) \<in> (lk F)\<^sup>*" using assms(1) by (simp add: desc_def)
  then show ?thesis
  proof (cases rule: rtranclE)
    case (step p)
    then have "p \<in> desc F t" by (simp add: desc_def)
    with step(2) show ?thesis by blast
  qed (use assms(2) in simp)
qed

lemma desc_unref: "unref F u \<Longrightarrow> u \<in> desc F t \<Longrightarrow> u = t"
  using desc_last [of u F t] by (auto simp: unref_def lk_def)

lemma cut_desc:
  assumes st: "stock F" and t: "t \<in> used F" "unref F t"
  shows "cut F (desc F t)"
  unfolding cut_def
proof (intro ballI subsetI)
  fix s a assume s: "s \<in> used F - desc F t" and a: "a \<in> refs (pent F s)"
  note l = linkedD [OF stockD(3) [OF st]]
  have su: "s \<in> used F" using s by blast
  obtain u where u: "u \<in> used F" "paddr F u = a" using l(1) [OF su] a by blast
  have "u \<notin> desc F t"
  proof
    assume ud: "u \<in> desc F t"
    have "u \<noteq> t" using t(2) su a u(2) by (auto simp: unref_def)
    then obtain p where p: "p \<in> desc F t" "(p, u) \<in> lk F" using desc_last [OF ud] by blast
    have "p = s" using l(4) [of p s a] p(2) su a u(2) by (simp add: lk_def)
    with p(1) s show False by blast
  qed
  with u show "a \<in> paddr F ` (used F - desc F t)" by blast
qed

lemma cut_single: "stock F \<Longrightarrow> s \<in> used F \<Longrightarrow> unref F s \<Longrightarrow> cut F {s}"
  using linkedD(1) [OF stockD(3), of F] by (fastforce simp: cut_def unref_def)

text \<open>What is left when a part that is cut off goes.\<close>

lemma drops_lk:
  assumes d: "drops X F F'"
  shows "lk F' = lk F \<inter> (used F - X) \<times> (used F - X)"
  using drops_addr_used [OF d] drops_pent [OF d] dropsD(4) [OF d] by (auto simp: lk_def)

lemma cut_lk: "cut F X \<Longrightarrow> file_inv F \<Longrightarrow> tidy_file F \<Longrightarrow> (s, t) \<in> lk F \<Longrightarrow> s \<notin> X \<Longrightarrow> t \<notin> X"
  using paddr_inj [of F _ t] by (fastforce simp: cut_def lk_def)

lemma drops_desc:
  assumes st: "stock F" and d: "drops X F F'" and c: "cut F X" and t: "t \<in> used F" "t \<notin> X"
  shows "desc F' t = desc F t" "desc F t \<subseteq> used F - X"
proof -
  have fw: "(t, x) \<in> (lk F')\<^sup>* \<and> x \<in> used F - X" if "(t, x) \<in> (lk F)\<^sup>*" for x
    using that
  proof (induction rule: rtrancl_induct)
    case (step y z)
    then have z: "z \<in> used F - X" using cut_lk [OF c stockD(1,2) [OF st] step.hyps(2)] by (auto simp: lk_def)
    then have "(y, z) \<in> lk F'" using step unfolding drops_lk [OF d] by blast
    with step.IH z show ?case by (auto intro: rtrancl_into_rtrancl)
  qed (use t in simp)
  then show "desc F t \<subseteq> used F - X" by (auto simp: desc_def)
  have "(lk F')\<^sup>* \<subseteq> (lk F)\<^sup>*" unfolding drops_lk [OF d] by (intro rtrancl_mono) blast
  with fw show "desc F' t = desc F t" unfolding desc_def by blast
qed

lemma drops_stock:
  assumes st: "stock F" and d: "drops X F F'" and c: "cut F X"
  shows "stock F'"
proof -
  note i = stockD [OF st] and us = dropsD(4) [OF d]
  let ?N = "used F - X"
  have pe: "pent F' s = pent F s" "paddr F' s = paddr F s" if "s \<in> ?N" for s
    using drops_pent [OF d] drops_addr_used [OF d] that by blast+
  have im: "paddr F' ` ?N = paddr F ` ?N" using pe(2) by (rule image_cong [OF refl])
  obtain R T where "forest F (used F) R T" using i(3) by (auto simp: linked_def)
  note f = forestD [OF this]
  have "forest F' ?N (R \<inter> paddr F ` ?N) (T \<inter> paddr F ` ?N)"
  proof (rule forestI, unfold im)
    show "refs (pent F' s) \<subseteq> paddr F ` ?N - R \<inter> paddr F ` ?N" if "s \<in> ?N" for s
      using f(3) [of s] c that unfolding pe(1) [OF that] cut_def by blast
    show "once (pent F' s)" if "s \<in> ?N" for s using f(4) [of s] pe(1) [OF that] that by simp
    show "paddr F' s \<in> T \<inter> paddr F ` ?N" if "s \<in> ?N" "type_ptr (pent F' s) \<noteq> 0" for s
      using f(5) [of s] pe [OF that(1)] that by simp
    show "refs (pent F' s) \<inter> refs (pent F' t) = {}" if "s \<in> ?N" "t \<in> ?N" "s \<noteq> t" for s t
      using f(6) [of s t] pe(1) that by simp
  qed (use f(2) in blast)+
  then have "linked F'" unfolding linked_def us by blast
  moreover have "filed F'"
    unfolding filed_def us
  proof
    fix s assume s: "s \<in> ?N"
    then obtain dad tp j where j: "json_ok j" "stored (ext_alloc F) F (paddr F s) dad tp j"
      using i(4) unfolding filed_def by blast
    have "stored (ext_alloc F') F' (paddr F s) dad tp j"
      using drops_stored [OF i(1,2) d subset_refl _ s j(2)] c unfolding cut_def by blast
    with j(1) pe(2) [OF s] show "\<exists>dad tp j. json_ok j \<and> stored (ext_alloc F') F' (paddr F' s) dad tp j" by auto
  qed
  moreover have "rooted F'" using i(5) pe(1) unfolding rooted_def us by simp
  ultimately show ?thesis using dropsD(1,2) [OF d] by (simp add: stock_def)
qed

text \<open>The document an item holds, with its type link.\<close>

definition pdoc :: "File \<Rightarrow> place \<Rightarrow> doc" where
  "pdoc F s = (doc_of (fst (read_at F (paddr F s))), type_ptr (pent F s))"

lemma pdoc_stored:
  assumes "file_inv F" "tidy_file F" "s \<in> used F" "stored A F (paddr F s) dad tp j" "json_ok j"
  shows "pdoc F s = (doc_of j, tp)" "dad_ptr (fam_addr (pent F s)) = dad"
proof -
  obtain j' e where r: "file_read (paddr F s) F = Some (Some (j', e), F)" "doc_of j' = doc_of j"
    using file_read_stored [OF assms(1,4,5)] by blast
  obtain e' k v where e': "node_at A F (paddr F s) e' k v" "type_ptr e' = tp" "dad_ptr (fam_addr e') = dad"
    using assms(4) by (cases j) auto
  have "e' = pent F s" using node_place(1) [OF assms(1-3) e'(1)] .
  with r e'(2,3) show "pdoc F s = (doc_of j, tp)" "dad_ptr (fam_addr (pent F s)) = dad"
    by (simp_all add: pdoc_def read_at_def)
qed

lemma drops_pdoc:
  assumes st: "stock F" and d: "drops X F F'" and c: "cut F X" and s: "s \<in> used F" "s \<notin> X"
  shows "pdoc F' s = pdoc F s"
proof -
  note i = stockD [OF st]
  obtain dad tp j where j: "json_ok j" "stored (ext_alloc F) F (paddr F s) dad tp j"
    using i(4) s(1) unfolding filed_def by blast
  have "s \<in> used F - X" using s by blast
  then have st': "stored (ext_alloc F') F' (paddr F s) dad tp j"
    using drops_stored [OF i(1,2) d subset_refl _ _ j(2)] c unfolding cut_def by blast
  have s': "s \<in> used F'" using s dropsD(4) [OF d] by blast
  have "pdoc F' s = (doc_of j, tp)"
    using pdoc_stored(1) [OF dropsD(1,2) [OF d] s' _ j(1)] st' drops_addr_used [OF d s(1)] by simp
  with pdoc_stored(1) [OF i(1,2) s(1) j(2,1)] show ?thesis by simp
qed

subsection \<open>Deleting a tree\<close>

text \<open>What is below a link.\<close>

definition below :: "File \<Rightarrow> Fileoff \<Rightarrow> place set" where
  "below F a = {x. \<exists>t \<in> used F. paddr F t = a \<and> x \<in> desc F t}"

lemma below_zero: "stock F \<Longrightarrow> below F 0 = {}"
  using paddr_used(4) [OF stockD(1,2), of F] by (force simp: below_def)

lemma below_at: "stock F \<Longrightarrow> t \<in> used F \<Longrightarrow> below F (paddr F t) = desc F t"
proof (intro equalityI subsetI)
  fix x assume st: "stock F" and t: "t \<in> used F" and "x \<in> below F (paddr F t)"
  then obtain u where u: "u \<in> used F" "paddr F u = paddr F t" "x \<in> desc F u" unfolding below_def by blast
  have "u = t" by (rule paddr_inj [OF stockD(1,2) [OF st] u(1) t u(2)])
  with u(3) show "x \<in> desc F t" by simp
qed (unfold below_def, blast)

lemma below_used: "below F a \<subseteq> used F"
  using desc_used by (auto simp: below_def)

lemma finite_below: "finite (below F a)"
  by (rule finite_subset [OF below_used finite_used])

definition linkable :: "File \<Rightarrow> Fileoff \<Rightarrow> bool" where
  "linkable F a \<longleftrightarrow> a = 0 \<or> (\<exists>t \<in> used F. paddr F t = a \<and> unref F t)"

lemma cut_below: "stock F \<Longrightarrow> linkable F a \<Longrightarrow> cut F (below F a)"
proof -
  assume st: "stock F" and l: "linkable F a"
  show "cut F (below F a)"
  proof (cases "a = 0")
    case True
    then show ?thesis using below_zero [OF st] linkedD(1) [OF stockD(3) [OF st]] by (simp add: cut_def)
  next
    case False
    then obtain t where t: "t \<in> used F" "paddr F t = a" "unref F t" using l by (auto simp: linkable_def)
    from cut_desc [OF st t(1,3)] show ?thesis using below_at [OF st t(1)] t(2) by simp
  qed
qed

lemma drops_below:
  assumes st: "stock F" and d: "drops X F F'" and c: "cut F X" and t: "\<And>t. t \<in> used F \<Longrightarrow> paddr F t = a \<Longrightarrow> t \<notin> X"
  shows "below F' a = below F a" "below F a \<subseteq> used F'"
proof -
  have at: "(u \<in> used F' \<and> paddr F' u = a) \<longleftrightarrow> (u \<in> used F \<and> paddr F u = a)" for u
    using dropsD(4) [OF d] drops_addr_used [OF d, of u] t [of u] by (metis Diff_iff)
  note ds = drops_desc [OF st d c]
  have "x \<in> below F' a \<longleftrightarrow> x \<in> below F a" for x
  proof -
    have "x \<in> below F' a \<longleftrightarrow> (\<exists>u. (u \<in> used F' \<and> paddr F' u = a) \<and> x \<in> desc F' u)" unfolding below_def by blast
    also have "\<dots> \<longleftrightarrow> (\<exists>u. (u \<in> used F \<and> paddr F u = a) \<and> x \<in> desc F u)"
      unfolding at using ds(1) t by metis
    also have "\<dots> \<longleftrightarrow> x \<in> below F a" unfolding below_def by blast
    finally show ?thesis .
  qed
  then show "below F' a = below F a" by blast
  show "below F a \<subseteq> used F'"
    unfolding dropsD(4) [OF d] below_def using ds(2) t by blast
qed

lemma drops_linkable:
  assumes d: "drops X F F'" and l: "linkable F a" and t: "\<And>t. t \<in> used F \<Longrightarrow> paddr F t = a \<Longrightarrow> t \<notin> X"
  shows "linkable F' a"
proof (cases "a = 0")
  case False
  then obtain u where u: "u \<in> used F" "paddr F u = a" "unref F u" using l by (auto simp: linkable_def)
  have "u \<in> used F'" "paddr F' u = a" using u(1,2) t [OF u(1,2)] dropsD(4) [OF d] drops_addr_used [OF d] by auto
  moreover have "unref F' u"
    using u(3) drops_pent [OF d] drops_addr_used [OF d u(1)] dropsD(4) [OF d] by (auto simp: unref_def)
  ultimately show ?thesis by (auto simp: linkable_def)
qed (simp add: linkable_def)

lemma image_drops:
  assumes "stock F" "drops X F F'" "cut F X" "Y \<subseteq> used F'"
  shows "image_mset (pdoc F') (mset_set Y) = image_mset (pdoc F) (mset_set Y)"
proof (rule image_mset_cong)
  fix s assume "s \<in># mset_set Y"
  then have "s \<in> Y" by (cases "finite Y") simp_all
  then have "s \<in> used F" "s \<notin> X" using assms(4) dropsD(4) [OF assms(2)] by blast+
  then show "pdoc F' s = pdoc F s" by (rule drops_pdoc [OF assms(1-3)])
qed

text \<open>A brother or a son, when there is one.\<close>

definition held :: "File \<Rightarrow> Json option \<Rightarrow> Fileoff \<Rightarrow> Fileoff \<Rightarrow> bool" where
  "held F x a dad \<longleftrightarrow> (case x of None \<Rightarrow> a = 0 | Some y \<Rightarrow> a \<noteq> 0 \<and> json_ok y \<and> stored (ext_alloc F) F a dad 0 y)"

lemma held_drops:
  assumes st: "stock F" and d: "drops X F F'" and c: "cut F X" and h: "held F x a dad"
    and l: "a = 0 \<or> (\<exists>u \<in> used F. paddr F u = a)" and t: "\<And>t. t \<in> used F \<Longrightarrow> paddr F t = a \<Longrightarrow> t \<notin> X"
  shows "held F' x a dad"
proof (cases x)
  case (Some y)
  then have y: "json_ok y" "stored (ext_alloc F) F a dad 0 y" "a \<noteq> 0" using h by (simp_all add: held_def)
  obtain u where u: "u \<in> used F" "paddr F u = a" using l y(3) by blast
  have "u \<in> used F - X" using u t by blast
  then have "stored (ext_alloc F') F' (paddr F u) dad 0 y"
    using drops_stored [OF stockD(1,2) [OF st] d subset_refl _ _ y(2) [folded u(2)]] c unfolding cut_def by blast
  with y u(2) Some show ?thesis by (simp add: held_def)
qed (use h in \<open>simp add: held_def\<close>)

text \<open>What the deletion of the tree at \<open>a\<close> does; \<open>N\<close> is what it held.\<close>

definition tree_post :: "Fileoff \<Rightarrow> doc multiset \<Rightarrow> File \<Rightarrow> File \<Rightarrow> bool" where
  "tree_post a N F F' \<longleftrightarrow> drops (below F a) F F' \<and> stock F' \<and> image_mset (pdoc F) (mset_set (below F a)) = N"

lemma delete_relative:
  assumes st: "stock F" and h: "held F x a dad" and l: "linkable F a"
    and IH: "\<And>y. x = Some y \<Longrightarrow> a \<noteq> 0 \<Longrightarrow> json_ok y \<Longrightarrow> stored (ext_alloc F) F a dad 0 y \<Longrightarrow>
      \<exists>F'. file_delete a False F = Some (Some (), F') \<and> tree_post a (nodes_of 0 y) F F'"
  shows "\<exists>F'. (if a \<noteq> 0 then file_delete a False else ret ()) F = Some (Some (), F') \<and> tree_post a (nodes_of_opt x) F F'"
proof (cases x)
  case None
  then have "a = 0" using h by (simp add: held_def)
  with None st drops_refl [OF stockD(1,2) [OF st]] show ?thesis
    by (simp add: tree_post_def below_zero nodes_of_opt_def)
next
  case (Some y)
  with h IH [OF Some] show ?thesis by (auto simp: held_def nodes_of_opt_def)
qed

text \<open>The state after the item of a node was deleted, with what is left to do.\<close>

lemma delete_node:
  assumes st: "stock F" and s: "s \<in> used F" "unref F s" and j: "json_ok (Json k v t b sn n x)"
    and sd: "stored (ext_alloc F) F (paddr F s) dad tp (Json k v t b sn n x)"
  shows "\<exists>F1. ext_at (paddr F s) sect_ext_delete F = Some (Some (pent F s), F1) \<and> drops {s} F F1 \<and> stock F1 \<and>
    held F1 b (bro_ptr (fam_addr (pent F s))) dad \<and> linkable F1 (bro_ptr (fam_addr (pent F s))) \<and>
    held F1 sn (son_ptr (fam_addr (pent F s))) (paddr F s) \<and> linkable F1 (son_ptr (fam_addr (pent F s))) \<and>
    below F1 (bro_ptr (fam_addr (pent F s))) = below F (bro_ptr (fam_addr (pent F s))) \<and>
    below F1 (son_ptr (fam_addr (pent F s))) = below F (son_ptr (fam_addr (pent F s))) \<and>
    below F1 (bro_ptr (fam_addr (pent F s))) \<inter> below F1 (son_ptr (fam_addr (pent F s))) = {} \<and>
    desc F s = insert s (below F (bro_ptr (fam_addr (pent F s))) \<union> below F (son_ptr (fam_addr (pent F s))))"
proof -
  let ?e = "pent F s" and ?b = "bro_ptr (fam_addr (pent F s))" and ?s = "son_ptr (fam_addr (pent F s))"
  note i = stockD [OF st] and l = linkedD [OF stockD(3) [OF st]]
  obtain F1 where d1: "ext_at (paddr F s) sect_ext_delete F = Some (Some ?e, F1)" and dr: "drops {s} F F1"
    using delete_item [OF i(1,2) s(1)] by blast
  note c = cut_single [OF st s] and us = dropsD(4) [OF dr]
  have st1: "stock F1" by (rule drops_stock [OF st dr c])
  obtain e where e: "node_at (ext_alloc F) F (paddr F s) e k (val_bytes t v)"
    "case b of None \<Rightarrow> bro_ptr (fam_addr e) = 0
      | Some bj \<Rightarrow> bro_ptr (fam_addr e) \<noteq> 0 \<and> stored (ext_alloc F) F (bro_ptr (fam_addr e)) dad 0 bj"
    "case sn of None \<Rightarrow> son_ptr (fam_addr e) = 0
      | Some sj \<Rightarrow> son_ptr (fam_addr e) \<noteq> 0 \<and> stored (ext_alloc F) F (son_ptr (fam_addr e)) (paddr F s) 0 sj"
    using sd unfolding stored.simps by blast
  have pe: "e = ?e" using node_place(1) [OF i(1,2) s(1) e(1)] .
  have hb: "held F b ?b dad" and hs: "held F sn ?s (paddr F s)"
    using e(2,3) j unfolding pe held_def by (auto split: option.splits)
  have lt: "\<exists>u \<in> used F. paddr F u = a" if "a = ?b \<or> a = ?s" "a \<noteq> 0" for a
  proof -
    have "a \<in> refs ?e" using that by (auto simp: refs_def)
    with l(1) [OF s(1)] show ?thesis by blast
  qed
  have ne: "u \<notin> {s}" if "u \<in> used F" "paddr F u = a" "a = ?b \<or> a = ?s" for u a
  proof
    assume "u \<in> {s}"
    moreover have "a \<noteq> 0" using that(1,2) paddr_used(4) [OF i(1,2)] by (cases u) auto
    ultimately have "paddr F s \<in> refs ?e" using that by (auto simp: refs_def)
    with s show False by (auto simp: unref_def)
  qed
  have lk1: "linkable F1 a" if a: "a = ?b \<or> a = ?s" for a
  proof (cases "a = 0")
    case False
    then obtain u where u: "u \<in> used F" "paddr F u = a" using lt [OF a] by blast
    have ar: "a \<in> refs ?e" using a False by (auto simp: refs_def)
    have u1: "u \<in> used F1" "paddr F1 u = a" using u ne [OF u a] us drops_addr_used [OF dr u(1)] by auto
    have "paddr F1 u \<notin> refs (pent F1 w)" if w: "w \<in> used F1" for w
    proof
      assume "paddr F1 u \<in> refs (pent F1 w)"
      moreover have "w \<in> used F" "w \<noteq> s" "pent F1 w = pent F w" using w us drops_pent [OF dr, of w] by auto
      ultimately show False using l(4) [of w s a] s(1) ar u1(2) by simp
    qed
    with u1 show ?thesis by (auto simp: linkable_def unref_def)
  qed (simp add: linkable_def)
  have lF: "a = 0 \<or> (\<exists>u \<in> used F. paddr F u = a)" if "a = ?b \<or> a = ?s" for a using lt [OF that] by blast
  have bw: "below F1 a = below F a" if "a = ?b \<or> a = ?s" for a
    by (rule drops_below(1) [OF st dr c]) (use ne that in blast)
  have held: "held F1 y a d" if h: "held F y a d" and a: "a = ?b \<or> a = ?s" for y a d
    by (rule held_drops [OF st dr c h]) (use lF [OF a] ne a in blast)+
  have disj: "below F1 ?b \<inter> below F1 ?s = {}"
  proof -
    have False if x: "x \<in> below F1 ?b" "x \<in> below F1 ?s" for x
    proof -
      obtain p q where p: "p \<in> used F1" "paddr F1 p = ?b" "x \<in> desc F1 p" and q: "q \<in> used F1" "paddr F1 q = ?s" "x \<in> desc F1 q"
        using x by (auto simp: below_def)
      have "?b \<noteq> 0" "?s \<noteq> 0"
        using p(1,2) q(1,2) paddr_used(4) [OF stockD(1,2) [OF st1]] by (cases p; cases q; force)+
      then have "?b \<noteq> ?s" using l(2) [OF s(1)] by (auto simp: once_def)
      then have pq: "p \<noteq> q" using p(2) q(2) by auto
      have up: "unref F1 p" "unref F1 q"
        using lk1 [of ?b] lk1 [of ?s] \<open>?b \<noteq> 0\<close> \<open>?s \<noteq> 0\<close> p(1,2) q(1,2) paddr_inj [OF stockD(1,2) [OF st1]]
        by (metis linkable_def)+
      have "q \<notin> desc F1 p" using desc_unref [OF up(2)] pq by blast
      then have "desc F1 q \<inter> desc F1 p = {}"
      proof -
        have "y \<notin> desc F1 p" if "(q, y) \<in> (lk F1)\<^sup>*" for y
          using that
        proof (induction rule: rtrancl_induct)
          case base
          then show ?case using \<open>q \<notin> desc F1 p\<close> .
        next
          case (step y z)
          from cut_lk [OF cut_desc [OF st1 p(1) up(1)] stockD(1,2) [OF st1] step.hyps(2) step.IH] show ?case .
        qed
        then show ?thesis by (auto simp: desc_def)
      qed
      with p(3) q(3) show False by blast
    qed
    then show ?thesis by blast
  qed
  have desc: "desc F s = insert s (below F ?b \<union> below F ?s)"
  proof (intro equalityI subsetI)
    fix x assume "x \<in> desc F s"
    then have "(s, x) \<in> (lk F)\<^sup>*" by (simp add: desc_def)
    then show "x \<in> insert s (below F ?b \<union> below F ?s)"
    proof (cases rule: converse_rtranclE)
      case (step y)
      then have "y \<in> used F" "paddr F y \<in> refs ?e" "x \<in> desc F y" by (auto simp: lk_def desc_def)
      then show ?thesis by (auto simp: below_def refs_def)
    qed simp
  next
    fix x assume "x \<in> insert s (below F ?b \<union> below F ?s)"
    then consider "x = s" | y where "y \<in> used F" "paddr F y = ?b \<or> paddr F y = ?s" "x \<in> desc F y"
      by (auto simp: below_def)
    then show "x \<in> desc F s"
    proof cases
      case 2
      have "paddr F y \<noteq> 0" using 2(1) paddr_used(4) [OF i(1,2)] by (cases y) auto
      then have "(s, y) \<in> lk F" using 2(1,2) s(1) by (auto simp: lk_def refs_def)
      with 2(3) show ?thesis unfolding desc_def by (simp add: converse_rtrancl_into_rtrancl)
    qed (simp add: desc_self)
  qed
  show ?thesis
    by (rule exI [of _ F1], intro conjI d1 dr st1 disj desc held hb hs lk1 bw) simp_all
qed

lemma tree_postD:
  assumes "tree_post a N F F'"
  shows "drops (below F a) F F'" "stock F'" "image_mset (pdoc F) (mset_set (below F a)) = N"
  using assms by (simp_all add: tree_post_def)

text \<open>Two trees that are apart, one after the other.\<close>

lemma tree_after:
  assumes st: "stock F" and t: "tree_post a N F F1" and a: "linkable F a" and b: "linkable F b" and apart: "below F a \<inter> below F b = {}"
  shows "below F1 b = below F b" "linkable F1 b" "image_mset (pdoc F1) (mset_set (below F b)) = image_mset (pdoc F) (mset_set (below F b))"
    "held F x b dad \<Longrightarrow> held F1 x b dad"
proof -
  note d = tree_postD [OF t] and c = cut_below [OF st a]
  have out: "u \<notin> below F a" if "u \<in> used F" "paddr F u = b" for u
    using that desc_self [of u F] apart unfolding below_def by blast
  note k = drops_below [OF st d(1) c out]
  show "below F1 b = below F b" by (rule k(1))
  show "linkable F1 b" using d(1) b out by (rule drops_linkable)
  show "image_mset (pdoc F1) (mset_set (below F b)) = image_mset (pdoc F) (mset_set (below F b))"
    using st d(1) c k(2) by (rule image_drops)
  have "b = 0 \<or> (\<exists>u \<in> used F. paddr F u = b)" using b unfolding linkable_def by blast
  then show "held F1 x b dad" if "held F x b dad" using held_drops [OF st d(1) c that _ out] by blast
qed

text \<open>A whole tree, with the brothers of its root.\<close>

lemma file_delete_tree:
  "stock F \<Longrightarrow> s \<in> used F \<Longrightarrow> unref F s \<Longrightarrow> json_ok j \<Longrightarrow> stored (ext_alloc F) F (paddr F s) dad tp j \<Longrightarrow>
   \<exists>F'. file_delete (paddr F s) False F = Some (Some (), F') \<and> tree_post (paddr F s) (nodes_of tp j) F F'"
proof (induction j arbitrary: s dad tp F)
  case (Json k v t b sn n x)
  note st = Json.prems(1) and s = Json.prems(2,3)
  let ?e = "pent F s" and ?b = "bro_ptr (fam_addr (pent F s))" and ?s = "son_ptr (fam_addr (pent F s))" and ?j = "Json k v t b sn n x"
  obtain F1 where d1: "ext_at (paddr F s) sect_ext_delete F = Some (Some ?e, F1)" "drops {s} F F1" "stock F1"
    and hb: "held F1 b ?b dad" "linkable F1 ?b" and hs: "held F1 sn ?s (paddr F s)" "linkable F1 ?s"
    and bl: "below F1 ?b = below F ?b" "below F1 ?s = below F ?s" and apart: "below F1 ?b \<inter> below F1 ?s = {}"
    and ds: "desc F s = insert s (below F ?b \<union> below F ?s)"
    using delete_node [OF st s Json.prems(4,5)] by blast
  have rel: "\<exists>G'. file_delete a False G = Some (Some (), G') \<and> tree_post a (nodes_of 0 y) G G'"
    if y: "b = Some y \<or> sn = Some y" and G: "stock G" "linkable G a" "a \<noteq> 0" "json_ok y" "stored (ext_alloc G) G a d 0 y" for y G a d
  proof -
    obtain u where u: "u \<in> used G" "paddr G u = a" "unref G u" using G(2,3) unfolding linkable_def by blast
    from y show ?thesis
    proof
      assume "b = Some y"
      from Json.IH(1) [OF _ G(1) u(1,3) G(4) G(5) [folded u(2)]] this show ?thesis unfolding u(2) by simp
    next
      assume "sn = Some y"
      from Json.IH(2) [OF _ G(1) u(1,3) G(4) G(5) [folded u(2)]] this show ?thesis unfolding u(2) by simp
    qed
  qed
  obtain F2 where d2: "(if ?b \<noteq> 0 then file_delete ?b False else ret ()) F1 = Some (Some (), F2)"
    and t2: "tree_post ?b (nodes_of_opt b) F1 F2"
    using delete_relative [OF d1(3) hb] rel [OF _ d1(3) hb(2)] by blast
  note p2 = tree_postD [OF t2] and k = tree_after [OF d1(3) t2 hb(2) hs(2) apart]
  obtain F3 where d3: "(if ?s \<noteq> 0 then file_delete ?s False else ret ()) F2 = Some (Some (), F3)"
    and t3: "tree_post ?s (nodes_of_opt sn) F2 F3"
    using delete_relative [OF p2(2) k(4) [OF hs(1)] k(2)] rel [OF _ p2(2) k(2)] by blast
  note p3 = tree_postD [OF t3]
  have "file_delete (paddr F s) False F = Some (Some (), F3)"
    using d1(1) d2 d3 file_head_sync_inv [OF stockD(1) [OF p3(2)]]
    by (subst file_delete.simps) simp
  moreover have "drops (below F (paddr F s)) F F3"
  proof -
    have "drops ({s} \<union> (below F1 ?b \<union> below F2 ?s)) F F3"
      using drops_trans [OF d1(2) drops_trans [OF p2(1) p3(1)]] .
    then show ?thesis using bl k(1) by (simp add: below_at [OF st s(1)] ds)
  qed
  moreover have "image_mset (pdoc F) (mset_set (below F (paddr F s))) = nodes_of tp ?j"
  proof -
    note c = cut_single [OF st s]
    have fin: "finite (below F ?b)" "finite (below F ?s)" by (rule finite_below)+
    have us: "below F ?b \<subseteq> used F1" "below F ?s \<subseteq> used F1" using bl below_used [of F1] by metis+
    have new: "s \<notin> below F ?b \<union> below F ?s" using us dropsD(4) [OF d1(2)] by blast
    have "image_mset (pdoc F) (mset_set (below F ?b)) = nodes_of_opt b"
      using image_drops [OF st d1(2) c us(1)] p2(3) bl(1) by simp
    moreover have "image_mset (pdoc F) (mset_set (below F ?s)) = nodes_of_opt sn"
      using image_drops [OF st d1(2) c us(2)] p3(3) k(1,3) bl(2) by simp
    moreover have "mset_set (below F ?b \<union> below F ?s) = mset_set (below F ?b) + mset_set (below F ?s)"
      using fin apart bl by (intro mset_set_Union) simp_all
    moreover have "pdoc F s = (doc_of ?j, tp)"
      using pdoc_stored(1) [OF stockD(1,2) [OF st] s(1) Json.prems(5,4)] .
    ultimately show ?thesis
      using fin new by (simp add: below_at [OF st s(1)] ds nodes_of_eq del: nodes_of.simps doc_of.simps)
  qed
  ultimately show ?case using p3(2) unfolding tree_post_def by blast
qed

end
