(* ===== verification/Deletion.thy ===== *)
theory Deletion
  imports Database Drops
begin

text \<open>
  \<^verbatim>\<open>user_delete\<close> on a tidy database. The documents in it are those of its items in use, \<open>docs F\<close>;
  deleting the root of a document takes its tree, and the loop over the hits of a query takes the trees of
  exactly the documents the query accepts.
\<close>

subsection \<open>Deleting the root of a document\<close>

definition docs :: "File \<Rightarrow> doc multiset" where
  "docs F = image_mset (pdoc F) (mset_set (used F))"

definition tree_of :: "doc \<Rightarrow> doc multiset" where
  "tree_of d = add_mset d (nodes_of_opt (json_son (fst d)))"

lemma doc_of_doc_of [simp]: "doc_of (doc_of j) = doc_of j"
proof (induction j)
  case (Json k v t b s n x)
  have "doc_of (doc_of y) = doc_of y" if "b = Some y \<or> s = Some y" for y
    using that Json.IH by auto
  then show ?case by (cases b; cases s) simp_all
qed

lemma nodes_of_doc_of [simp]: "nodes_of tp (doc_of j) = nodes_of tp j"
proof (induction j arbitrary: tp)
  case (Json k v t b s n x)
  have "nodes_of 0 (doc_of y) = nodes_of 0 y" "doc_of (doc_of y) = doc_of y" if "b = Some y \<or> s = Some y" for y
    using that Json.IH by auto
  then show ?case by (cases b; cases s) simp_all
qed

lemma tree_of_doc: "tree_of (doc_of (Json k v t b sn n x), tp) = add_mset (doc_of (Json k v t b sn n x), tp) (nodes_of_opt sn)"
  by (cases sn) (simp_all add: tree_of_def nodes_of_opt_def)

text \<open>What an operation that takes the documents \<open>N\<close> does to the others.\<close>

definition takes :: "place set \<Rightarrow> doc multiset \<Rightarrow> File \<Rightarrow> File \<Rightarrow> bool" where
  "takes X N F F' \<longleftrightarrow> drops X F F' \<and> X \<subseteq> used F \<and> stock F' \<and> image_mset (pdoc F) (mset_set X) = N \<and> (\<forall>t \<in> used F'. pdoc F' t = pdoc F t)"

lemma takesD:
  assumes "takes X N F F'"
  shows "drops X F F'" "X \<subseteq> used F" "stock F'" "image_mset (pdoc F) (mset_set X) = N" "t \<in> used F' \<Longrightarrow> pdoc F' t = pdoc F t"
  using assms by (simp_all add: takes_def)

lemma takes_docs:
  assumes "takes X N F F'"
  shows "docs F = docs F' + N"
proof -
  note t = takesD [OF assms]
  have u: "used F = used F' \<union> X" "used F' \<inter> X = {}" using t(2) dropsD(4) [OF t(1)] by blast+
  have "mset_set (used F) = mset_set (used F') + mset_set X"
    unfolding u(1) using u(2) finite_used finite_subset [OF t(2) finite_used] by (intro mset_set_Union)
  moreover have "image_mset (pdoc F') (mset_set (used F')) = image_mset (pdoc F) (mset_set (used F'))"
    using t(5) finite_used by (intro image_mset_cong) simp
  ultimately show ?thesis using t(4) by (simp add: docs_def)
qed

text \<open>A document that has a type is taken with its sons and leaves its brothers.\<close>

lemma file_delete_root:
  assumes st: "stock F" and s: "s \<in> used F" "type_ptr (pent F s) \<noteq> 0"
  shows "\<exists>X F'. file_delete (paddr F s) True F = Some (Some (), F') \<and> takes X (tree_of (pdoc F s)) F F' \<and>
    s \<in> X \<and> (\<forall>t \<in> X. type_ptr (pent F t) \<noteq> 0 \<longrightarrow> t = s)"
proof -
  let ?e = "pent F s" and ?b = "bro_ptr (fam_addr (pent F s))" and ?s = "son_ptr (fam_addr (pent F s))"
  note i = stockD [OF st]
  have un: "unref F s" by (rule linkedD(3) [OF i(3) s])
  obtain dad tp j where j: "json_ok j" "stored (ext_alloc F) F (paddr F s) dad tp j"
    using i(4) s(1) unfolding filed_def by blast
  obtain k v t b sn n x where jd: "j = Json k v t b sn n x" by (cases j)
  have dad: "dad_ptr (fam_addr ?e) = 0" using i(5) s unfolding rooted_def by blast
  obtain F1 where d1: "ext_at (paddr F s) sect_ext_delete F = Some (Some ?e, F1)" "drops {s} F F1" "stock F1"
    and hb: "held F1 b ?b dad" "linkable F1 ?b" and hs: "held F1 sn ?s (paddr F s)" "linkable F1 ?s"
    and bl: "below F1 ?b = below F ?b" "below F1 ?s = below F ?s" and apart: "below F1 ?b \<inter> below F1 ?s = {}"
    and ds: "desc F s = insert s (below F ?b \<union> below F ?s)"
    using delete_node [OF st s(1) un j [unfolded jd]] by blast
  have rel: "\<exists>G'. file_delete ?s False F1 = Some (Some (), G') \<and> tree_post ?s (nodes_of 0 y) F1 G'"
    if G: "?s \<noteq> 0" "json_ok y" "stored (ext_alloc F1) F1 ?s (paddr F s) 0 y" for y
  proof -
    obtain u where u: "u \<in> used F1" "paddr F1 u = ?s" "unref F1 u" using hs(2) G(1) unfolding linkable_def by blast
    show ?thesis using file_delete_tree [OF d1(3) u(1,3) G(2) G(3) [folded u(2)]] unfolding u(2) .
  qed
  obtain F2 where d2: "(if ?s \<noteq> 0 then file_delete ?s False else ret ()) F1 = Some (Some (), F2)"
    and t2: "tree_post ?s (nodes_of_opt sn) F1 F2"
    using delete_relative [OF d1(3) hs rel] by blast
  note p2 = tree_postD [OF t2] and c1 = cut_single [OF st s(1) un] and c2 = cut_below [OF d1(3) hs(2)]
  have "file_delete (paddr F s) True F = Some (Some (), F2)"
    using d1(1) d2 dad file_head_sync_inv [OF stockD(1) [OF p2(2)]] by (subst file_delete.simps) simp
  moreover have "takes (insert s (below F ?s)) (tree_of (pdoc F s)) F F2"
    unfolding takes_def
  proof (intro conjI ballI)
    show "drops (insert s (below F ?s)) F F2" using drops_trans [OF d1(2) p2(1)] bl(2) by simp
    show "insert s (below F ?s) \<subseteq> used F" using s(1) below_used by blast
    show "stock F2" by (rule p2(2))
    have us: "below F ?s \<subseteq> used F1" using bl below_used [of F1] by metis
    then have new: "s \<notin> below F ?s" using dropsD(4) [OF d1(2)] by blast
    have "image_mset (pdoc F) (mset_set (below F ?s)) = nodes_of_opt sn"
      using image_drops [OF st d1(2) c1 us] p2(3) bl(2) by simp
    moreover have "pdoc F s = (doc_of j, tp)" using pdoc_stored(1) [OF i(1,2) s(1) j(2,1)] .
    ultimately show "image_mset (pdoc F) (mset_set (insert s (below F ?s))) = tree_of (pdoc F s)"
      using finite_below new unfolding jd by (simp add: tree_of_doc del: doc_of.simps)
  next
    fix u assume "u \<in> used F2"
    then have u: "u \<in> used F1" "u \<notin> below F1 ?s" "u \<in> used F" "u \<notin> {s}"
      using dropsD(4) [OF p2(1)] dropsD(4) [OF d1(2)] by blast+
    show "pdoc F2 u = pdoc F u"
      using drops_pdoc [OF d1(3) p2(1) c2 u(1,2)] drops_pdoc [OF st d1(2) c1 u(3,4)] by simp
  qed
  moreover have "t = s" if t: "t \<in> insert s (below F ?s)" "type_ptr (pent F t) \<noteq> 0" for t
  proof -
    have "t \<in> desc F s" using t(1) ds by blast
    moreover have "t \<in> used F" using t(1) s(1) below_used by blast
    ultimately show ?thesis using desc_unref [OF linkedD(3) [OF i(3) _ t(2)]] by blast
  qed
  ultimately show ?thesis by blast
qed

subsection \<open>Items in use and the table of all items\<close>

text \<open>No item in use holds a ghost: its record begins with a byte other than zero.\<close>

lemma used_not_ghost:
  assumes st: "stock F" and s: "s \<in> used F"
  shows "fst (pdoc F s) \<noteq> ghost"
proof
  assume g: "fst (pdoc F s) = ghost"
  note i = stockD [OF st]
  obtain dad tp j where j: "json_ok j" "stored (ext_alloc F) F (paddr F s) dad tp j"
    using i(4) s unfolding filed_def by blast
  obtain k v t b sn n x where jd: "j = Json k v t b sn n x" by (cases j)
  have "doc_of j = ghost" using pdoc_stored(1) [OF i(1,2) s j(2,1)] g by simp
  then have kv: "k = []" "t = TYPE_INT32" "v = VRaw 0" by (simp_all add: jd ghost_def split: if_splits)
  obtain e where "node_at (ext_alloc F) F (paddr F s) e k (val_bytes t v)" using j(2) unfolding jd stored.simps by blast
  note n = node_place [OF i(1,2) s this]
  obtain l m where p: "s = (l, m)" by (cases s)
  let ?h = "f_extent F ! l"
  note u = used_items [OF i(2) s [unfolded p]]
  obtain q where q: "items ?h q" "m < q" using u(2) by blast
  have r: "rec_ok (filp F) ?h (pent F s)"
    using tidyD(1) [OF tidy_fileD [OF i(2) u(1)] q u(3)] by (simp add: p pent_def)
  have "unat (key_size (pent F s)) = length (pkey F s)" by (simp add: pkey_def rec_key_def)
  then have "unat (key_size (pent F s)) = 0" using n(2) kv(1) by simp
  then have "0 < unat (val_size (pent F s))" using r by (simp add: rec_ok_def rec_end_def)
  then obtain w where "unat (val_size (pent F s)) = Suc w" using gr0_implies_Suc by blast
  then have "pval F s = fdata (filp F) (unat (file_offset ?h) + unat (val_ptr (pent F s))) #
      fget (filp F) (Suc (unat (file_offset ?h) + unat (val_ptr (pent F s)))) w"
    by (simp add: pval_def rec_val_def p fget_Suc)
  moreover have "pval F s = replicate 8 0"
    using n(3) kv(2,3) enc64_dec64 [of "replicate 8 0"] by (simp add: dec64_def eval_nat_numeral)
  ultimately show False using r by (simp add: rec_ok_def p eval_nat_numeral)
qed

text \<open>A table that has an entry for every item has those of the items in use and ghosts.\<close>

lemma map_by_nth: "map f xs = map (\<lambda>i. f (xs ! i)) [0..<length xs]"
  by (rule nth_equalityI) simp_all

lemma distinct_pairs: "distinct is \<Longrightarrow> distinct (concat (map (\<lambda>i. map (Pair i) [0..<n i]) is))"
  by (induction "is") (auto simp: distinct_map inj_on_def)

lemma table_rows:
  assumes "length dss = m" "\<And>i. i < m \<Longrightarrow> length (dss ! i) = n i"
    and "\<And>i k. i < m \<Longrightarrow> k < n i \<Longrightarrow> slot_content (dss ! i ! k) = {#h (i, k)#}"
  shows "content dss = image_mset h (mset_set (SIGMA i:{..<m}. {..<n i}))"
proof -
  let ?P = "\<lambda>i. map (Pair i) [0..<n i]" and ?all = "SIGMA i:{..<m}. {..<n i}"
  have row: "row_content (dss ! i) = mset (map h (?P i))" if "i < m" for i
  proof -
    have "row_content (dss ! i) = sum_list (map (\<lambda>k. slot_content (dss ! i ! k)) [0..<n i])"
      unfolding row_content_def map_by_nth [of slot_content "dss ! i"] assms(2) [OF that] ..
    also have "\<dots> = sum_list (map (\<lambda>k. {#h (i, k)#}) [0..<n i])"
      by (rule arg_cong [of _ _ sum_list], rule map_cong) (use assms(3) [OF that] in simp_all)
    finally show ?thesis by (simp add: mset_map_sum comp_def)
  qed
  have "content dss = sum_list (map (\<lambda>i. row_content (dss ! i)) [0..<m])"
    unfolding content_def map_by_nth [of row_content dss] assms(1) ..
  also have "\<dots> = sum_list (map (\<lambda>i. mset (map h (?P i))) [0..<m])"
    by (rule arg_cong [of _ _ sum_list], rule map_cong) (use row in simp_all)
  also have "\<dots> = image_mset h (mset (concat (map ?P [0..<m])))"
    by (simp add: mset_concat_sum image_mset_sum_list comp_def multiset.map_comp)
  also have "mset (concat (map ?P [0..<m])) = mset_set ?all"
  proof -
    have "distinct (concat (map ?P [0..<m]))"
      by (rule distinct_pairs) simp
    moreover have "set (concat (map ?P [0..<m])) = ?all" by auto
    ultimately show ?thesis by (metis mset_set_set)
  qed
  finally show ?thesis .
qed

definition item_cnt :: "File \<Rightarrow> nat \<Rightarrow> nat" where
  "item_cnt F i = (unat (lst_itm_ptr (f_extent F ! i)) - 32) div 80"

lemma item_cnt_items: "items (f_extent F ! i) n \<Longrightarrow> item_cnt F i = n"
  by (simp add: item_cnt_def items_def)

definition all_items :: "File \<Rightarrow> place set" where
  "all_items F = (SIGMA i:{..<length (f_extent F)}. {..<item_cnt F i})"

lemma used_all: "tidy_file F \<Longrightarrow> used F \<subseteq> all_items F"
proof
  fix s assume t: "tidy_file F" and s: "s \<in> used F"
  obtain i k where p: "s = (i, k)" by (cases s)
  from used_items [OF t s [unfolded p]] show "s \<in> all_items F"
    by (auto simp: all_items_def p item_cnt_items)
qed

lemma finite_all_items: "finite (all_items F)"
  by (simp add: all_items_def)

definition item_doc :: "File \<Rightarrow> place \<Rightarrow> doc" where
  "item_doc F s = (if s \<in> used F then pdoc F s else (ghost, 0))"

lemma items_docs:
  assumes t: "tidy_file F"
  shows "image_mset (item_doc F) (mset_set (all_items F)) = docs F + replicate_mset (card (all_items F - used F)) (ghost, 0)"
proof -
  have "all_items F = used F \<union> (all_items F - used F)" using used_all [OF t] by blast
  then have "mset_set (all_items F) = mset_set (used F) + mset_set (all_items F - used F)"
    using mset_set_Union [OF finite_used, of "all_items F - used F"] finite_all_items by (metis Diff_disjoint finite_Diff)
  moreover have "image_mset (item_doc F) (mset_set (used F)) = docs F"
    unfolding docs_def using finite_used by (intro image_mset_cong) (simp add: item_doc_def)
  moreover have "image_mset (item_doc F) (mset_set (all_items F - used F)) = image_mset (\<lambda>_. (ghost, 0)) (mset_set (all_items F - used F))"
    using finite_all_items by (intro image_mset_cong) (simp add: item_doc_def)
  ultimately show ?thesis by (simp add: image_mset_const_eq)
qed

lemma unused_wiped:
  assumes inv: "file_inv F" and i: "i < length (f_extent F)" and n: "items (f_extent F ! i) n" "k < n" and u: "(i, k) \<notin> used F"
  shows "wiped (ext_alloc F) F (slot_addr F i k)"
proof -
  let ?h = "f_extent F ! i"
  have wf: "sect_wf (?h, filp F)" using file_invD(2) [OF inv] i by simp
  have l: "32 + 80 * k + 80 \<le> unat (lst_itm_ptr ?h)" "unat (lst_itm_ptr ?h) \<le> 8192"
    using n wf unfolding items_def sect_wf_def by auto
  then have "32 + 80 * k < 8192" by linarith
  note a = paddr_at(1) [OF inv i this, unfolded paddr_def prod.case]
  have z: "\<not> item_used (filp F) ?h k" using u n by (simp add: used_iff [OF n(1) i])
  have "b \<in> ext_alloc F \<and> fdata (filp F) b = 0" if "unat (slot_addr F i k) \<le> b" "b < unat (slot_addr F i k) + 80" for b
  proof
    have r: "unat (file_offset ?h) + 32 + 80 * k \<le> b" "b < unat (file_offset ?h) + 32 + 80 * k + 80"
      using that unfolding a by simp_all
    then show "fdata (filp F) b = 0" using z unfolding item_used_iff by blast
    have "b \<in> sect_alloc ?h" using r l(1) by (simp add: sect_alloc_def Let_def)
    with nth_mem [OF i] show "b \<in> ext_alloc F" unfolding ext_alloc_def by blast
  qed
  then show ?thesis by (simp add: wiped_def)
qed

lemma used_not_wiped:
  assumes "file_inv F" "tidy_file F" "(i, k) \<in> used F"
  shows "\<not> wiped P F (slot_addr F i k)"
proof
  assume w: "wiped P F (slot_addr F i k)"
  have "item_ent (filp F) (f_extent F ! i) k = entity_new"
    by (rule wiped_item [OF w]) (use paddr_used(1) [OF assms] in \<open>simp add: paddr_def\<close>)
  then show False using used_items(3) [OF assms(2,3)] by (simp add: item_used_ent)
qed

lemma entry_doc:
  assumes st: "stock F" and ok: "slots_ok (ext_alloc F) F dss" and full: "full dss" and i: "i < length dss" "k < length (dss ! i)"
  shows "slot_content (dss ! i ! k) = {#item_doc F (i, k)#}"
proof -
  note inv = stockD(1,2) [OF st] and o = slots_okD [OF ok]
  have l: "i < length (f_extent F)" using i(1) o(1) by simp
  obtain dad tp j where s: "dss ! i ! k = Some (dad, tp, j)" using fullD [OF full i] by blast
  have "(doc_of j, tp) = item_doc F (i, k)"
  proof (cases "(i, k) \<in> used F")
    case True
    then have "json_ok j" "stored (ext_alloc F) F (paddr F (i, k)) dad tp j"
      using o(3) [OF i] used_not_wiped [OF inv True] by (simp_all add: s slot_ok_def paddr_def)
    with pdoc_stored(1) [OF inv True] True show ?thesis by (simp add: item_doc_def)
  next
    case False
    note r = slot_read [OF inv(1) ok i s]
    have rw: "read_at F (slot_addr F i k) = (json_set_foff (slot_addr F i k) ghost, entity_new)"
      using slot_read_wiped(1) [OF inv(1) ok i unused_wiped [OF inv(1) l o(2) [OF i(1)] i(2) False]] by (simp add: read_at_def)
    have "doc_of j = ghost" "tp = 0" using r(2,4) unfolding rw by (simp_all add: ghost_def entity_new_def)
    with False show ?thesis by (simp add: item_doc_def)
  qed
  then show ?thesis by (simp add: s)
qed

lemma table_docs:
  assumes st: "stock F" and ok: "slots_ok (ext_alloc F) F dss" and full: "full dss"
  shows "content dss = docs F + replicate_mset (card (all_items F - used F)) (ghost, 0)"
proof -
  note o = slots_okD [OF ok]
  have n: "length (dss ! i) = item_cnt F i" if "i < length (f_extent F)" for i
    using item_cnt_items [OF o(2)] that o(1) by simp
  have "content dss = image_mset (item_doc F) (mset_set (all_items F))"
    unfolding all_items_def
    by (rule table_rows [OF o(1) n]) (use entry_doc [OF st ok full] n o(1) in simp_all)
  then show ?thesis by (simp only: items_docs [OF stockD(2) [OF st]])
qed

text \<open>There is such a table for every stock, and a full table files all items in use.\<close>

lemma ghost_ok: "json_ok ghost"
  by (simp add: ghost_def val_ok_def canonical_def)

lemma stock_table:
  assumes st: "stock F"
  shows "\<exists>dss. slots_ok (ext_alloc F) F dss \<and> full dss"
proof -
  note i = stockD [OF st]
  have "\<forall>s \<in> used F. \<exists>x. case x of (dad, tp, j) \<Rightarrow> json_ok j \<and> stored (ext_alloc F) F (paddr F s) dad tp j"
    using i(4) unfolding filed_def by fast
  then obtain g where g: "\<And>s. s \<in> used F \<Longrightarrow> case g s of (dad, tp, j) \<Rightarrow> json_ok j \<and> stored (ext_alloc F) F (paddr F s) dad tp j"
    using bchoice [of "used F"] by meson
  define x where "x = (\<lambda>s. Some (if s \<in> used F then g s else (0, 0, ghost)))"
  let ?dss = "map (\<lambda>i. map (\<lambda>k. x (i, k)) [0..<item_cnt F i]) [0..<length (f_extent F)]"
  have it: "items (f_extent F ! l) (item_cnt F l)" if "l < length (f_extent F)" for l
    using tidy_items [OF tidy_fileD [OF i(2) that]] item_cnt_items by metis
  have "slot_ok (ext_alloc F) F (slot_addr F l k) (x (l, k))" if l: "l < length (f_extent F)" "k < item_cnt F l" for l k
  proof (cases "(l, k) \<in> used F")
    case True
    from g [OF this] True show ?thesis by (simp add: x_def slot_ok_def paddr_def split: prod.splits)
  next
    case False
    with unused_wiped [OF i(1) l(1) it [OF l(1)] l(2) False] ghost_ok show ?thesis by (simp add: x_def slot_ok_def)
  qed
  with it have "slots_ok (ext_alloc F) F ?dss" by (simp add: slots_ok_def)
  moreover have "x s \<noteq> None" for s by (simp add: x_def)
  then have "full ?dss" unfolding holes_def by auto
  ultimately show ?thesis by blast
qed

lemma table_filed:
  assumes inv: "file_inv F" "tidy_file F" and ok: "slots_ok (ext_alloc F) F dss" and full: "full dss"
  shows "filed F"
  unfolding filed_def
proof
  fix s assume s: "s \<in> used F"
  obtain i k where p: "s = (i, k)" by (cases s)
  note u = used_items [OF inv(2) s [unfolded p]] and o = slots_okD [OF ok]
  have i: "i < length dss" using u(1) o(1) by simp
  have k: "k < length (dss ! i)" using u(2) items_unique [OF o(2) [OF i]] by blast
  obtain dad tp j where e: "dss ! i ! k = Some (dad, tp, j)" using fullD [OF full i k] by blast
  have "json_ok j \<and> stored (ext_alloc F) F (paddr F s) dad tp j"
    using o(3) [OF i k] used_not_wiped [OF inv s [unfolded p]] by (simp add: e slot_ok_def paddr_def p)
  then show "\<exists>dad tp j. json_ok j \<and> stored (ext_alloc F) F (paddr F s) dad tp j" by blast
qed

subsection \<open>Deleted items are read\<close>






end
