(* ===== verification/User_Delete.thy ===== *)
theory User_Delete
  imports Deletion
begin

text \<open>
  The loop of \<^verbatim>\<open>user_delete\<close>. The iterator holds the hits of one section and looks for more behind it
  while items go: the hits are the roots of trees that are apart, so that deleting one leaves the hits that
  are still to come, and the loop takes the trees of all documents the query accepted at its start.
\<close>

subsection \<open>What stays while documents go\<close>

definition typed_links :: "File \<Rightarrow> bool" where
  "typed_links F \<longleftrightarrow> (\<forall>d \<in># docs F. \<exists>name. link_ok F (snd d) name)"

definition named :: "File \<Rightarrow> named_doc multiset" where
  "named F = image_mset (\<lambda>(d, tp). (d, name_of F tp)) (docs F)"

definition name_at :: "File \<Rightarrow> place \<Rightarrow> named_doc" where
  "name_at F s = (fst (pdoc F s), name_of F (snd (pdoc F s)))"

text \<open>A stock of documents with types, as the loop finds it.\<close>

definition store :: "Type list list \<Rightarrow> File \<Rightarrow> bool" where
  "store tss F \<longleftrightarrow> stock F \<and> types_inv F tss \<and> typed_links F"

lemma storeD:
  assumes "store tss F"
  shows "stock F" "types_inv F tss" "typed_links F" "file_inv F" "tidy_file F"
  using assms types_invD(1) stockD(2) by (auto simp: store_def)

lemma pdoc_in_docs: "s \<in> used F \<Longrightarrow> pdoc F s \<in># docs F"
  by (simp add: docs_def finite_used)

lemma named_used: "named F = image_mset (name_at F) (mset_set (used F))"
  by (simp add: named_def docs_def name_at_def [abs_def] multiset.map_comp comp_def case_prod_beta)

lemma takes_kept:
  assumes inv: "types_inv F tss" and t: "takes X N F F'"
  shows "types_inv F' tss" "types_kept F F'"
proof -
  note d = takesD [OF t] and i = types_invD [OF inv]
  note s = drops_shape [OF d(1)]
  have k: "keeps (f_types F ! l, filp F) (f_types F ! l, filp F')" if l: "l < length (f_types F)" for l
  proof (rule keeps_same)
    fix b assume "b \<in> sect_alloc (f_types F ! l)"
    then have "b \<in> sect_bytes (f_types F ! l)" using sect_alloc_bytes [OF i(4) [OF l]] by blast
    then show "fdata (filp F') b = fdata (filp F) b" using s(6) [OF nth_mem [OF l]] by blast
  qed
  then show "types_kept F F'" using s(2) by (simp add: types_kept_def)
  have "types_from (filp F') (f_types F ! l) 32 (tss ! l)" if "l < length (f_types F)" for l
    by (rule types_from_keeps [OF i(3) [OF that] _ k [OF that]]) simp
  then show "types_inv F' tss" using s(2) i(2) dropsD(1) [OF d(1)] by (simp add: types_inv_def)
qed

lemma takes_store:
  assumes st: "store tss F" and t: "takes X N F F'"
  shows "store tss F'" "tp = 0 \<or> (\<exists>d. (d, tp) \<in># docs F) \<Longrightarrow> name_of F' tp = name_of F tp" "s \<in> used F' \<Longrightarrow> name_at F' s = name_at F s"
proof -
  note i = storeD [OF st] and d = takesD [OF t] and k = takes_kept [OF storeD(2) [OF st] t]
  have fi': "file_inv F'" using k(1) by (rule types_invD)
  have l: "\<exists>name. link_ok F tp name" if "(d, tp) \<in># docs F" for d tp
    using i(3) that unfolding typed_links_def by fastforce
  show n: "name_of F' tp = name_of F tp" if "tp = 0 \<or> (\<exists>d. (d, tp) \<in># docs F)" for tp
    using that
  proof
    assume "\<exists>d. (d, tp) \<in># docs F"
    then obtain name where "link_ok F tp name" using l by blast
    then show ?thesis using link_ok_kept [OF _ k(2)] link_ok_name fi' i(4) by metis
  qed (use name_of_zero fi' i(4) in simp)
  have "typed_links F'"
    unfolding typed_links_def
  proof
    fix x assume "x \<in># docs F'"
    then have "(fst x, snd x) \<in># docs F" using takes_docs [OF t] by simp
    from l [OF this] link_ok_kept [OF _ k(2)] show "\<exists>name. link_ok F' (snd x) name" by blast
  qed
  then show "store tss F'" using d(3) k(1) by (simp add: store_def)
  show "name_at F' s = name_at F s" if s: "s \<in> used F'"
  proof -
    have "s \<in> used F" using s dropsD(4) [OF d(1)] by blast
    then have "(fst (pdoc F s), snd (pdoc F s)) \<in># docs F" using pdoc_in_docs by simp
    with n d(5) [OF s] show ?thesis unfolding name_at_def by metis
  qed
qed

text \<open>The document and all nodes below its sons, as the abstract database sees them.\<close>

definition tree_docs :: "named_doc \<Rightarrow> named_doc multiset" where
  "tree_docs d = add_mset d (case json_son (fst d) of None \<Rightarrow> {#} | Some y \<Rightarrow> doc_nodes None y)"

definition takes_doc :: "Query \<Rightarrow> named_doc \<Rightarrow> bool" where
  "takes_doc q = (\<lambda>(d, name). query_check q d name = Some True)"

definition removed :: "Query \<Rightarrow> named_doc multiset \<Rightarrow> named_doc multiset" where
  "removed q M = (\<Sum>d \<in># filter_mset (takes_doc q) M. tree_docs d)"

definition typed_query :: "Query \<Rightarrow> bool" where
  "typed_query q \<longleftrightarrow> q_type_name q \<noteq> None"

lemma typed_query_name: "typed_query q \<Longrightarrow> \<not> takes_doc q (d, None)"
  by (auto simp: typed_query_def takes_doc_def query_check_def query_check_type_def split: option.splits bool.splits)

lemma removed_union: "removed q (M + N) = removed q M + removed q N"
  by (simp add: removed_def)

lemma tree_docs_hits:
  assumes q: "typed_query q" and d: "takes_doc q d"
  shows "filter_mset (takes_doc q) (tree_docs d) = {#d#}"
proof -
  have "\<not> takes_doc q x" if "x \<in># doc_nodes None y" for x y
  proof -
    have "snd x = None" using that doc_nodes_name [of "fst x" _ None y] by (cases "snd x") (metis option.distinct(1) prod.collapse)+
    with typed_query_name [OF q] show ?thesis by (metis prod.collapse)
  qed
  then have "filter_mset (takes_doc q) (case json_son (fst d) of None \<Rightarrow> {#} | Some y \<Rightarrow> doc_nodes None y) = {#}"
    by (auto split: option.splits)
  then show ?thesis
    using d unfolding tree_docs_def by (simp only: filter_mset_add_mset if_True)
qed

lemma removed_tree: "typed_query q \<Longrightarrow> takes_doc q d \<Longrightarrow> removed q (tree_docs d) = tree_docs d"
  using tree_docs_hits [of q d] by (simp add: removed_def)

lemma takes_named:
  assumes st: "store tss F" and s: "s \<in> used F" and t: "takes X (tree_of (pdoc F s)) F F'"
  shows "named F = named F' + tree_docs (name_at F s)"
proof -
  let ?g = "\<lambda>(d, tp). (d, name_of F tp)"
  note i = storeD [OF st] and k = takes_store [OF st t]
  obtain d tp where p: "pdoc F s = (d, tp)" by (cases "pdoc F s")
  have dd: "docs F = docs F' + tree_of (d, tp)" using takes_docs [OF t] by (simp add: p)
  have "image_mset ?g (docs F') = named F'"
    unfolding named_def
  proof (rule image_mset_cong)
    fix x assume "x \<in># docs F'"
    then have "(fst x, snd x) \<in># docs F" using dd by simp
    then have "name_of F' (snd x) = name_of F (snd x)" using k(2) by blast
    then show "?g x = (case x of (d, tp) \<Rightarrow> (d, name_of F' tp))" by (simp add: case_prod_beta)
  qed
  moreover have "image_mset ?g (tree_of (d, tp)) = tree_docs (name_at F s)"
    using nodes_of_named [of "name_of F" 0] name_of_zero [OF i(4)]
    by (cases "json_son d") (simp_all add: tree_of_def tree_docs_def name_at_def p nodes_of_opt_def)
  ultimately show ?thesis by (simp add: named_def [of F] dd)
qed

subsection \<open>What a search finds\<close>

definition accepted :: "Query \<Rightarrow> File \<Rightarrow> place set" where
  "accepted q F = {s \<in> used F. takes_doc q (name_at F s)}"

text \<open>A query that has an answer on everything there is, deleted items included.\<close>

definition answers :: "Query \<Rightarrow> File \<Rightarrow> bool" where
  "answers q F \<longleftrightarrow> (\<forall>(d, name) \<in># add_mset (ghost, None) (named F). query_check q d name \<noteq> None)"

lemma finite_accepted: "finite (accepted q F)"
  using finite_used by (simp add: accepted_def)

lemma accepted_typed:
  assumes "store tss F" "typed_query q" "s \<in> accepted q F"
  shows "s \<in> used F" "type_ptr (pent F s) \<noteq> 0"
proof -
  show "s \<in> used F" using assms(3) by (simp add: accepted_def)
  show "type_ptr (pent F s) \<noteq> 0"
  proof
    assume "type_ptr (pent F s) = 0"
    then have "name_at F s = (fst (pdoc F s), None)"
      using name_of_zero [OF storeD(4) [OF assms(1)]] by (simp add: name_at_def pdoc_def)
    with assms(2,3) typed_query_name show False by (simp add: accepted_def)
  qed
qed

lemma store_table:
  assumes st: "store tss F" and ok: "slots_ok (ext_alloc F) F dss" and full: "full dss"
  shows "links_ok F dss" "docs_of F dss = named F + replicate_mset (card (all_items F - used F)) (ghost, None)"
proof -
  note c = table_docs [OF storeD(1) [OF st] ok full]
  have "link_ok F 0 None" by (simp add: link_ok_def)
  then show "links_ok F dss" using storeD(3) [OF st] by (auto simp: links_ok_def c typed_links_def in_replicate_mset)
  show "docs_of F dss = named F + replicate_mset (card (all_items F - used F)) (ghost, None)"
    using name_of_zero [OF storeD(4) [OF st]] by (simp add: docs_of_def c named_def)
qed

lemma hits_places:
  assumes "\<And>k. k \<in> set ks \<Longrightarrow> A (r (a k)) \<longleftrightarrow> (i, k) \<in> B" "\<And>k. k \<in> set ks \<Longrightarrow> g (r (a k)) = h (i, k)"
  shows "map g (filter A (map r (map a ks))) = map h (filter (\<lambda>s. s \<in> B) (map (Pair i) ks))"
  using assms by (induction ks) auto

lemma find_accepted:
  assumes st: "store tss F" and q: "typed_query q" "answers q F" and i: "i < length (f_extent F)"
  shows "\<exists>hs ps. file_find i q [] F = Some (Some (OK, hs), F) \<and> map (jfoff \<circ> fst) hs = map (paddr F) ps \<and>
    distinct ps \<and> set ps = {s \<in> accepted q F. fst s = i}"
proof -
  note sk = storeD(1) [OF st] and inv = storeD(4,5) [OF st]
  obtain dss where ok: "slots_ok (ext_alloc F) F dss" and full: "full dss" using stock_table [OF sk] by blast
  note tb = store_table [OF st ok full] and o = slots_okD [OF ok]
  have l: "i < length dss" using i o(1) by simp
  let ?n = "length (dss ! i)" and ?row = "hits F q (row_addrs F i (length (dss ! i)))"
  have qd: "query_check q d name \<noteq> None" if "(d, name) \<in># docs_of F dss" for d name
    using q(2) that unfolding tb(2) answers_def by (auto simp: in_replicate_mset split: if_splits)
  have f: "file_find i q [] F = Some (Some (OK, ?row), F)"
    using file_find_eq [OF inv(1) ok full l slot_readable [OF inv(1) ok full tb(1) l]]
      slot_checkable [OF inv(1) ok full qd l] by simp
  let ?ps = "filter (\<lambda>s. s \<in> accepted q F) (map (Pair i) [0..<?n])"
  have at: "(accepts F q (read_at F (slot_addr F i k)) \<longleftrightarrow> (i, k) \<in> accepted q F) \<and>
      (jfoff \<circ> fst) (read_at F (slot_addr F i k)) = paddr F (i, k)" if k: "k < ?n" for k
  proof -
    obtain dad tp j where s: "dss ! i ! k = Some (dad, tp, j)" using fullD [OF full l k] by blast
    note r = slot_read [OF inv(1) ok l k s]
    have v: "item_doc F (i, k) = (doc_of j, tp)" using entry_doc [OF sk ok full l k] s by simp
    have "accepts F q (read_at F (slot_addr F i k)) \<longleftrightarrow> takes_doc q (doc_of j, name_of F tp)"
      using query_check_doc [OF r(3)] r(2,4) by (simp add: accepts_def takes_doc_def)
    also have "\<dots> \<longleftrightarrow> (i, k) \<in> accepted q F"
    proof (cases "(i, k) \<in> used F")
      case True
      then show ?thesis using v by (simp add: accepted_def item_doc_def name_at_def)
    next
      case False
      then show ?thesis using v typed_query_name [OF q(1)] name_of_zero [OF inv(1)] by (auto simp: accepted_def item_doc_def)
    qed
    finally show ?thesis using r(5) by (simp add: paddr_def)
  qed
  have "map (jfoff \<circ> fst) ?row = map (paddr F) ?ps"
    unfolding hits_def row_addrs_def by (rule hits_places) (use at in simp_all)
  moreover have "distinct ?ps" by (simp add: distinct_map inj_on_def)
  moreover have "k < ?n" if "(i, k) \<in> accepted q F" for k
    using used_items(2) [OF inv(2), of i k] that items_unique [OF o(2) [OF l]] by (auto simp: accepted_def)
  then have "set ?ps = {s \<in> accepted q F. fst s = i}" by auto
  ultimately show ?thesis using f by blast
qed

text \<open>The rows of all sections at once.\<close>

lemma find_rows:
  assumes st: "store tss F" and q: "typed_query q" "answers q F"
  shows "\<exists>row ps. \<forall>i < length (f_extent F). file_find i q [] F = Some (Some (OK, row i), F) \<and>
    map (jfoff \<circ> fst) (row i) = map (paddr F) (ps i) \<and> distinct (ps i) \<and> set (ps i) = {s \<in> accepted q F. fst s = i}"
proof -
  define P where "P = (\<lambda>i hs ps. file_find i q [] F = Some (Some (OK, hs), F) \<and>
    map (jfoff \<circ> fst) hs = map (paddr F) ps \<and> distinct ps \<and> set ps = {s \<in> accepted q F. fst s = i})"
  have "\<exists>x. P i (fst x) (snd x)" if "i < length (f_extent F)" for i
  proof -
    have "\<exists>hs ps. P i hs ps" unfolding P_def by (rule find_accepted [OF st q that])
    then obtain hs ps where "P i hs ps" by blast
    then show ?thesis by (intro exI [of _ "(hs, ps)"]) simp
  qed
  then have "\<forall>i. \<exists>x. i < length (f_extent F) \<longrightarrow> P i (fst x) (snd x)" by blast
  from choice [OF this] obtain f where "\<forall>i < length (f_extent F). P i (fst (f i)) (snd (f i))" by (elim exE)
  then show ?thesis
    unfolding P_def by (intro exI [of _ "\<lambda>i. fst (f i)"] exI [of _ "\<lambda>i. snd (f i)"])
qed

text \<open>An iterator that stands before the hits \<open>ps\<close> of the first section with one.\<close>

definition at_hits :: "Query \<Rightarrow> File \<Rightarrow> Iter \<Rightarrow> place list \<Rightarrow> bool" where
  "at_hits q F it ps \<longleftrightarrow> it_query it = q \<and> map (jfoff \<circ> fst) (cur_col it) = map (paddr F) ps \<and> distinct ps \<and>
     (ps = [] \<longrightarrow> accepted q F = {}) \<and>
     (ps \<noteq> [] \<longrightarrow> (\<exists>i. cur_sect it = Some i \<and> set ps = {s \<in> accepted q F. fst s = i} \<and> (\<forall>s \<in> accepted q F. i \<le> fst s)))"

lemma found_before:
  assumes "found row [a..<n] i c" "a \<le> l" "l < i"
  shows "row l = []"
proof -
  obtain bs "as" where eq: "[a..<n] = bs @ i # as" and bs: "concat (map row bs) = []"
    using assms(1) by (auto simp: found_def)
  note s = upt_split [OF eq]
  have "l \<in> set [a..<n]" using assms(2,3) s by simp
  then have "l \<in> set bs" using assms(3) s unfolding eq by auto
  with bs show ?thesis by simp
qed

lemma at_hits_found:
  assumes rows: "\<And>i. i < length (f_extent F) \<Longrightarrow> map (jfoff \<circ> fst) (row i) = map (paddr F) (ps i) \<and> distinct (ps i) \<and>
      set (ps i) = {s \<in> accepted q F. fst s = i}"
    and f: "found row [a..<length (f_extent F)] i c" and a: "\<And>s. s \<in> accepted q F \<Longrightarrow> a \<le> fst s"
    and it: "it_query it = q" "cur_col it = c" "cur_sect it = Some i"
  shows "at_hits q F it (ps i)"
proof -
  have i: "i < length (f_extent F)" "c \<noteq> []" using found_upt [OF f] by blast+
  have c: "c = row i" using f by (simp add: found_def)
  note r = rows [OF i(1)]
  have ne: "ps i \<noteq> []" using r i(2) c by auto
  have "i \<le> fst s" if s: "s \<in> accepted q F" for s
  proof (rule ccontr)
    assume n: "\<not> i \<le> fst s"
    then have "row (fst s) = []" using found_before [OF f a [OF s]] by simp
    moreover have "fst s < length (f_extent F)" using n i(1) by simp
    ultimately have "ps (fst s) = []" using rows [of "fst s"] by simp
    then show False using rows [of "fst s"] \<open>fst s < length (f_extent F)\<close> s by (metis (mono_tags, lifting) empty_iff empty_set mem_Collect_eq)
  qed
  with r ne it c show ?thesis by (simp add: at_hits_def)
qed

lemma no_rows:
  assumes rows: "\<And>i. i < length (f_extent F) \<Longrightarrow> map (jfoff \<circ> fst) (row i) = map (paddr F) (ps i) \<and> distinct (ps i) \<and>
      set (ps i) = {s \<in> accepted q F. fst s = i}"
    and e: "concat (map row [a..<length (f_extent F)]) = []" and a: "\<And>s. s \<in> accepted q F \<Longrightarrow> a \<le> fst s"
  shows "accepted q F = {}"
proof -
  have False if s: "s \<in> accepted q F" for s
  proof -
    have l: "fst s < length (f_extent F)" using s by (auto simp: accepted_def used_def)
    then have "fst s \<in> set [a..<length (f_extent F)]" using a [OF s] by simp
    then have "row (fst s) = []" using e by simp
    then have "ps (fst s) = []" using rows [OF l] by simp
    then show False using rows [OF l] s by (metis (mono_tags, lifting) empty_iff empty_set mem_Collect_eq)
  qed
  then show ?thesis by blast
qed

subsection \<open>The loop\<close>

lemma iter_ctor_hits:
  assumes st: "store tss F" and q: "typed_query q" "answers q F"
  shows "\<exists>it ps. iter_ctor q F = Some (Some it, F) \<and> at_hits q F it ps"
proof -
  let ?n = "length (f_extent F)"
  obtain row ps where r: "\<forall>i < ?n. file_find i q [] F = Some (Some (OK, row i), F) \<and>
    map (jfoff \<circ> fst) (row i) = map (paddr F) (ps i) \<and> distinct (ps i) \<and> set (ps i) = {s \<in> accepted q F. fst s = i}"
    using find_rows [OF assms] by blast
  have rows: "map (jfoff \<circ> fst) (row i) = map (paddr F) (ps i) \<and> distinct (ps i) \<and> set (ps i) = {s \<in> accepted q F. fst s = i}"
    if "i < ?n" for i using r that by blast
  have f: "file_find j q [] F = Some (Some (OK, row j), F)" if "j \<in> set [0..<?n]" for j using r that by simp
  consider (none) "concat (map row [0..<?n]) = []" "first_hits [0..<?n] q F = Some (Some (None, []), F)"
    | (some) i c where "found row [0..<?n] i c" "first_hits [0..<?n] q F = Some (Some (Some i, c), F)"
    using first_hits_ok [of "[0..<?n]", OF f] by blast
  then show ?thesis
  proof cases
    case none
    let ?it = "\<lparr>it_query = q, cur_col = [], cur_sect = None\<rparr>"
    have "accepted q F = {}" by (rule no_rows [OF rows none(1)]) simp_all
    then have "at_hits q F ?it []" by (simp add: at_hits_def)
    moreover have "iter_ctor q F = Some (Some ?it, F)" using none(2) by (simp add: iter_ctor_def)
    ultimately show ?thesis by blast
  next
    case some
    let ?it = "\<lparr>it_query = q, cur_col = c, cur_sect = Some i\<rparr>"
    have "at_hits q F ?it (ps i)" by (rule at_hits_found [OF rows some(1)]) simp_all
    moreover have "iter_ctor q F = Some (Some ?it, F)" using some(2) by (simp add: iter_ctor_def)
    ultimately show ?thesis by blast
  qed
qed

text \<open>From the first hit on, when its item is gone.\<close>

lemma iter_next_hits:
  assumes st: "store tss F'" and q: "typed_query q" "answers q F'" and at: "at_hits q F it (s # ps)"
    and acc: "accepted q F' = accepted q F - {s}" and addr: "\<And>t. t \<in> set ps \<Longrightarrow> paddr F' t = paddr F t"
  shows "\<exists>it' ps'. iter_next it F' = Some (Some it', F') \<and> at_hits q F' it' ps'"
proof -
  obtain i where it: "it_query it = q" "map (jfoff \<circ> fst) (cur_col it) = map (paddr F) (s # ps)" "distinct (s # ps)"
    "cur_sect it = Some i" "set (s # ps) = {s \<in> accepted q F. fst s = i}" "\<And>t. t \<in> accepted q F \<Longrightarrow> i \<le> fst t"
    using at unfolding at_hits_def by blast
  obtain x xs where c: "cur_col it = x # xs" "map (jfoff \<circ> fst) xs = map (paddr F) ps" using it(2) by (cases "cur_col it") auto
  have left: "set ps = {t \<in> accepted q F'. fst t = i}" using it(3,5) acc by auto
  show ?thesis
  proof (cases "ps = []")
    case False
    let ?it = "it\<lparr>cur_col := xs\<rparr>"
    have "xs \<noteq> []" using c(2) False by auto
    then have "iter_next it F' = Some (Some ?it, F')" using c(1) by (simp add: iter_next_def)
    moreover have "map (paddr F) ps = map (paddr F') ps" using addr by simp
    then have "at_hits q F' ?it ps"
      unfolding at_hits_def using it(1,3,4,6) c(2) left False acc by simp
    ultimately show ?thesis by blast
  next
    case True
    let ?n = "length (f_extent F')"
    have xs: "xs = []" using c(2) True by simp
    have up: "Suc i \<le> fst t" if "t \<in> accepted q F'" for t
    proof -
      have "t \<in> accepted q F" "t \<notin> set ps" using that acc True by simp_all
      then show ?thesis using it(6) [of t] left that by (metis (mono_tags, lifting) Suc_leI le_neq_implies_less mem_Collect_eq)
    qed
    obtain row qs where r: "\<forall>i < ?n. file_find i q [] F' = Some (Some (OK, row i), F') \<and>
      map (jfoff \<circ> fst) (row i) = map (paddr F') (qs i) \<and> distinct (qs i) \<and> set (qs i) = {s \<in> accepted q F'. fst s = i}"
      using find_rows [OF st q] by blast
    have rows: "map (jfoff \<circ> fst) (row i) = map (paddr F') (qs i) \<and> distinct (qs i) \<and> set (qs i) = {s \<in> accepted q F'. fst s = i}"
      if "i < ?n" for i using r that by blast
    have f: "file_find j q [] F' = Some (Some (OK, row j), F')" if "j \<in> set [Suc i..<?n]" for j using r that by simp
    consider (none) j where "concat (map row [Suc i..<?n]) = []" "next_hits [Suc i..<?n] i q F' = Some (Some (j, []), F')"
      | (some) j c' where "found row [Suc i..<?n] j c'" "next_hits [Suc i..<?n] i q F' = Some (Some (j, c'), F')"
      using next_hits_ok [of "[Suc i..<?n]", OF f] by blast
    then show ?thesis
    proof cases
      case none
      let ?it = "it\<lparr>cur_col := [], cur_sect := Some j\<rparr>"
      have "accepted q F' = {}" by (rule no_rows [OF rows none(1) up])
      then have "at_hits q F' ?it []" using it(1) by (simp add: at_hits_def)
      moreover have "iter_next it F' = Some (Some ?it, F')" using c(1) xs it(1,4) none(2) by (simp add: iter_next_def)
      ultimately show ?thesis by blast
    next
      case some
      let ?it = "it\<lparr>cur_col := c', cur_sect := Some j\<rparr>"
      have "at_hits q F' ?it (qs j)" by (rule at_hits_found [OF rows some(1) up]) (simp_all add: it(1))
      moreover have "iter_next it F' = Some (Some ?it, F')" using c(1) xs it(1,4) some(2) by (simp add: iter_next_def)
      ultimately show ?thesis by blast
    qed
  qed
qed

definition deleted_post :: "Query \<Rightarrow> Type list list \<Rightarrow> File \<Rightarrow> File \<Rightarrow> bool" where
  "deleted_post q tss F F' \<longleftrightarrow> store tss F' \<and> named F = named F' + removed q (named F) \<and> types_kept F F' \<and>
     lst_sect_ptr F' = lst_sect_ptr F \<and> fcap (filp F') = fcap (filp F)"

lemma accepted_none: "accepted q F = {} \<Longrightarrow> removed q (named F) = {#}"
proof -
  assume a: "accepted q F = {}"
  have "filter_mset (takes_doc q) (named F) = {#}"
    using a by (auto simp: named_used accepted_def finite_used)
  then show ?thesis unfolding removed_def by (simp only: image_mset_empty sum_mset.empty)
qed

lemma delete_loop_ok:
  assumes q: "typed_query q"
  shows "store tss F \<Longrightarrow> answers q F \<Longrightarrow> at_hits q F it ps \<Longrightarrow>
    \<exists>F'. delete_loop it F = Some (Some (), F') \<and> deleted_post q tss F F'"
proof (induction "card (accepted q F)" arbitrary: F it ps)
  case 0
  then have e: "accepted q F = {}" using finite_accepted by simp
  have "ps = []" using 0(4) e unfolding at_hits_def by (metis (no_types, lifting) Collect_empty_eq empty_iff set_empty)
  then have "\<not> iter_is_avail it" using 0(4) by (simp add: at_hits_def iter_is_avail_def)
  then have "delete_loop it F = Some (Some (), F)" by (subst delete_loop.simps) simp
  moreover have "types_kept F F" by (simp add: types_kept_def keeps_same)
  then have "deleted_post q tss F F" using 0(2) accepted_none [OF e] by (simp add: deleted_post_def)
  ultimately show ?case by blast
next
  case (Suc n)
  note st = Suc.prems(1) and at = Suc.prems(3)
  have "ps \<noteq> []" using at Suc.hyps(2) by (auto simp: at_hits_def)
  then obtain s ps0 where ps: "ps = s # ps0" by (cases ps) auto
  have sub: "set ps \<subseteq> accepted q F" using at ps unfolding at_hits_def by blast
  then have sa: "s \<in> accepted q F" by (simp add: ps)
  note ty = accepted_typed [OF st q]
  note s = ty [OF sa]
  have av: "iter_is_avail it" and fo: "jfoff (iter_get_json it) = paddr F s"
    using at by (cases "cur_col it"; simp add: at_hits_def ps iter_is_avail_def iter_get_json_def)+
  obtain X F1 where d: "file_delete (paddr F s) True F = Some (Some (), F1)" and t: "takes X (tree_of (pdoc F s)) F F1"
    and X: "s \<in> X" "\<And>t. t \<in> X \<Longrightarrow> type_ptr (pent F t) \<noteq> 0 \<Longrightarrow> t = s"
    using file_delete_root [OF storeD(1) [OF st] s] by blast
  note k = takes_store [OF st t] and td = takesD [OF t] and tn = takes_named [OF st s(1) t]
  note dr = dropsD(4) [OF td(1)]
  have acc: "accepted q F1 = accepted q F - {s}"
  proof -
    have "t \<in> used F1" if "t \<in> accepted q F" "t \<noteq> s" for t
      using ty [OF that(1)] X(2) that(2) dr by blast
    then show ?thesis using k(3) dr X(1) unfolding accepted_def by auto
  qed
  have an: "answers q F1" using Suc.prems(2) tn unfolding answers_def by simp
  have "paddr F1 u = paddr F u" if "u \<in> set ps0" for u
  proof -
    have "u \<in> accepted q F" using that by (intro subsetD [OF sub]) (simp add: ps)
    then show ?thesis by (rule drops_addr_used [OF td(1) ty(1)])
  qed
  then obtain it1 ps1 where nx: "iter_next it F1 = Some (Some it1, F1)" "at_hits q F1 it1 ps1"
    using iter_next_hits [OF k(1) q an at [unfolded ps] acc] by blast
  have "n = card (accepted q F1)" using Suc.hyps(2) acc sa finite_accepted by simp
  then obtain F' where F': "delete_loop it1 F1 = Some (Some (), F')" "deleted_post q tss F1 F'"
    using Suc.hyps(1) [OF _ k(1) an nx(2)] by blast
  have "delete_loop it F = Some (Some (), F')"
    using av fo d nx(1) F'(1) by (subst delete_loop.simps) simp
  moreover have "deleted_post q tss F F'"
  proof -
    note p = F'(2) [unfolded deleted_post_def]
    have "removed q (tree_docs (name_at F s)) = tree_docs (name_at F s)"
      using removed_tree [OF q] sa by (simp add: accepted_def)
    then have "named F = named F' + removed q (named F)" using p tn by (simp add: removed_union)
    moreover have "types_kept F F'" using takes_kept(2) [OF storeD(2) [OF st] t] p types_kept_trans by blast
    ultimately show ?thesis using p drops_shape(3,4) [OF td(1)] by (simp add: deleted_post_def)
  qed
  ultimately show ?case by blast
qed

lemma user_delete_store:
  assumes "store tss F" "typed_query q" "answers q F"
  shows "\<exists>F'. user_delete q F = Some (Some (), F') \<and> deleted_post q tss F F'"
proof -
  obtain it ps where i: "iter_ctor q F = Some (Some it, F)" "at_hits q F it ps" using iter_ctor_hits [OF assms] by blast
  from delete_loop_ok [OF assms(2,1,3) i(2)] i(1) show ?thesis by (simp add: user_delete_def)
qed

end
