(* ===== verification/Tidy_Db.thy ===== *)
theory Tidy_Db
  imports User_Delete
begin

text \<open>
  The database with deletions. As long as only solid documents are inserted (no record begins with a zero
  byte), every operation keeps the file a stock of documents, and \<open>live_rep F D\<close> says which abstract
  database it holds: the types by name and the documents of the items in use. With the ghosts of the
  deleted items this is a representation in the sense of \<open>Database\<close>, so that its theorems carry over.
\<close>

subsection \<open>Representation\<close>

definition live_rep :: "File \<Rightarrow> Db \<Rightarrow> bool" where
  "live_rep F D \<longleftrightarrow> (\<exists>tss. store tss F \<and> db_types D = (\<lambda>name. first_named name tss) \<and> db_docs D = named F)"

text \<open>What is left of a multiset of documents without ghosts.\<close>

definition no_ghosts :: "named_doc multiset \<Rightarrow> named_doc multiset" where
  "no_ghosts M = filter_mset (\<lambda>d. d \<noteq> (ghost, None)) M"

lemma named_no_ghosts: "stock F \<Longrightarrow> no_ghosts (named F) = named F"
  unfolding no_ghosts_def filter_mset_eq_conv named_used
  using used_not_ghost by (auto simp: name_at_def finite_used)

lemma no_ghosts_union: "no_ghosts (M + N) = no_ghosts M + no_ghosts N"
  by (simp add: no_ghosts_def)

lemma no_ghosts_only: "no_ghosts (replicate_mset n (ghost, None)) = {#}"
  by (induction n) (simp_all add: no_ghosts_def)

text \<open>The two representations of one file.\<close>

lemma live_db_rep:
  assumes "live_rep F D"
  shows "\<exists>n. db_rep F (D\<lparr>db_docs := db_docs D + replicate_mset n (ghost, None)\<rparr>)"
proof -
  obtain tss where st: "store tss F" and D: "db_types D = (\<lambda>name. first_named name tss)" "db_docs D = named F"
    using assms by (auto simp: live_rep_def)
  obtain dss where t: "slots_ok (ext_alloc F) F dss" "full dss" using stock_table [OF storeD(1) [OF st]] by blast
  note tb = store_table [OF st t]
  have "db_rep F (D\<lparr>db_docs := db_docs D + replicate_mset (card (all_items F - used F)) (ghost, None)\<rparr>)"
    by (rule db_repI [OF storeD(2) [OF st] t tb(1)]) (simp_all add: D tb(2))
  then show ?thesis by blast
qed

lemma db_live_rep:
  assumes rep: "db_rep F D" and st: "stock F"
  shows "live_rep F (D\<lparr>db_docs := no_ghosts (db_docs D)\<rparr>)"
proof -
  obtain tss dss where inv: "types_inv F tss" and ok: "slots_ok (ext_alloc F) F dss" and full: "full dss"
    and links: "links_ok F dss" and D: "db_types D = (\<lambda>name. first_named name tss)" "db_docs D = docs_of F dss"
    using rep by (rule db_repE)
  have "typed_links F" using links by (simp add: links_ok_def typed_links_def table_docs [OF st ok full])
  then have s: "store tss F" using st inv by (simp add: store_def)
  have "no_ghosts (db_docs D) = named F"
    by (simp add: D(2) store_table(2) [OF s ok full] no_ghosts_union no_ghosts_only named_no_ghosts [OF st])
  with s D(1) show ?thesis by (auto simp: live_rep_def)
qed

lemma live_repD:
  assumes "live_rep F D"
  shows "stock F" "no_ghosts (db_docs D) = db_docs D"
  using assms named_no_ghosts storeD(1) by (auto simp: live_rep_def)

subsection \<open>Operations keep the stock\<close>

lemma open_stock:
  assumes "8 \<le> cap" "cap < LONG_LIMIT"
  shows "stock (empty_db cap)"
proof -
  have u: "used (empty_db cap) = {}" by (simp add: used_def empty_db_def)
  have "tidy_file (empty_db cap)" by (simp add: tidy_file_def empty_db_def)
  moreover have "linked (empty_db cap)" unfolding linked_def u using forest_empty by blast
  ultimately show ?thesis using empty_db_inv [OF assms] by (simp add: stock_def filed_def rooted_def u)
qed

lemma stock_docs_same:
  assumes st: "stock F" and d: "docs_same F F'" and inv: "file_inv F'"
  shows "stock F'"
proof -
  note i = stockD [OF st]
  have e: "f_extent F' = f_extent F" and b: "\<And>b. b \<in> ext_alloc F \<Longrightarrow> fdata (filp F') b = fdata (filp F) b"
    using d by (simp_all add: docs_same_def)
  have al: "ext_alloc F' = ext_alloc F" by (simp add: ext_alloc_def e)
  have h: "length (f_extent F) \<le> length (f_extent F')" "f_extent F' ! l = f_extent F ! l" for l by (simp_all add: e)
  note s = same_sects [OF i(2) h b]
  have us: "used F' = used F"
  proof (rule set_eqI)
    fix x show "x \<in> used F' \<longleftrightarrow> x \<in> used F"
    proof (cases "fst x < length (f_extent F)")
      case True
      then show ?thesis using s(2) [of "fst x" "snd x"] by simp
    next
      case False
      then show ?thesis by (auto simp: used_def e)
    qed
  qed
  have pe: "pent F' x = pent F x" "paddr F' x = paddr F x" if "x \<in> used F" for x
  proof -
    have "fst x < length (f_extent F)" using that by (auto simp: used_def)
    with s(3,4) [of "fst x" "snd x"] that show "pent F' x = pent F x" "paddr F' x = paddr F x" by simp_all
  qed
  have "tidy_file F'" unfolding tidy_file_def using s(1) by (auto simp: e in_set_conv_nth)
  moreover have "linked F'"
    using i(3) forest_same [of F "used F" _ _ F', OF _ pe] unfolding linked_def us by blast
  moreover have "filed F'"
    unfolding filed_def us
  proof
    fix x assume x: "x \<in> used F"
    then obtain dad tp j where j: "json_ok j" "stored (ext_alloc F) F (paddr F x) dad tp j" using i(4) unfolding filed_def by blast
    have "stored (ext_alloc F') F' (paddr F x) dad tp j"
      using j(2) by (rule stored_transfer) (use b al e in \<open>simp_all add: ext_grow_def\<close>)
    with j(1) pe(2) [OF x] show "\<exists>dad tp j. json_ok j \<and> stored (ext_alloc F') F' (paddr F' x) dad tp j" by auto
  qed
  moreover have "rooted F'" using i(5) pe(1) by (simp add: rooted_def us)
  ultimately show ?thesis using inv by (simp add: stock_def)
qed

lemma stock_write:
  assumes st: "stock F" and p: "write_post j 0 tp F a F'" and sd: "solid_doc j"
  shows "stock F'"
proof -
  note i = stockD [OF st]
  have fi: "file_inv F'" and ext: "extends F F'" and w: "stored (ext_alloc F' - ext_alloc F) F' a 0 tp j"
    and ws: "write_slots (nodes_of tp j) F F'" and wl: "write_links (solid_doc j) {a} {x. x = a \<and> tp \<noteq> 0} F F'"
    using p by (simp_all add: write_post_def)
  have t: "tidy_file F'" and l: "links_post {a} {x. x = a \<and> tp \<noteq> 0} F F'"
    using wl sd i(2) by (simp_all add: write_links_def)
  note q = links_postD [OF l]
  obtain dss where ok: "slots_ok (ext_alloc F) F dss" and full: "full dss" using stock_table [OF st] by blast
  obtain dss' where ok': "slots_ok (ext_alloc F \<union> (ext_alloc F' - ext_alloc F)) F' dss'" "full dss'"
    using ws [unfolded write_slots_def, rule_format, OF subset_refl ok] full by (metis subset_empty)
  have al: "ext_alloc F \<union> (ext_alloc F' - ext_alloc F) = ext_alloc F'"
    using ext_alloc_mono [OF extends_grow [OF ext]] by blast
  have "filed F'" using table_filed [OF fi t ok' [unfolded al]] .
  moreover have "rooted F'"
    unfolding rooted_def
  proof (intro ballI impI)
    fix s assume s: "s \<in> used F'" and ty: "type_ptr (pent F' s) \<noteq> 0"
    show "dad_ptr (fam_addr (pent F' s)) = 0"
    proof (cases "s \<in> used F")
      case True
      then show ?thesis using i(5) ty q(2) by (simp add: rooted_def)
    next
      case False
      then have "paddr F' s = a" using forestD(5) [OF q(4) _ ty] s by blast
      moreover obtain e k v where "node_at (ext_alloc F' - ext_alloc F) F' a e k v" "dad_ptr (fam_addr e) = 0"
        using w by (cases j) auto
      ultimately show ?thesis using node_place(1) [OF fi t s] by metis
    qed
  qed
  ultimately show ?thesis using fi t linked_post [OF i(3) l fi t] by (simp add: stock_def)
qed

subsection \<open>Deleting\<close>

lemma delete_live:
  assumes rep: "live_rep F D" and q: "typed_query q"
    and c: "\<And>d name. (d, name) \<in># add_mset (ghost, None) (db_docs D) \<Longrightarrow> query_check q d name \<noteq> None"
  shows "\<exists>F' M. user_delete q F = Some (Some (), F') \<and> live_rep F' (D\<lparr>db_docs := M\<rparr>) \<and>
    db_docs D = M + removed q (db_docs D) \<and> lst_sect_ptr F' = lst_sect_ptr F \<and> fcap (filp F') = fcap (filp F)"
proof -
  obtain tss where st: "store tss F" and D: "db_types D = (\<lambda>name. first_named name tss)" "db_docs D = named F"
    using rep by (auto simp: live_rep_def)
  have "answers q F" using c unfolding answers_def D(2) by blast
  from user_delete_store [OF st q this] obtain F' where F': "user_delete q F = Some (Some (), F')" "deleted_post q tss F F'"
    by blast
  then have "live_rep F' (D\<lparr>db_docs := named F'\<rparr>)" using D(1) by (auto simp: live_rep_def deleted_post_def)
  with F' D(2) show ?thesis unfolding deleted_post_def by metis
qed

text \<open>A document that is deleted takes its root only, as far as the query is concerned.\<close>

lemma removed_hits:
  assumes q: "typed_query q"
  shows "filter_mset (takes_doc q) (removed q M) = filter_mset (takes_doc q) M"
proof (induction M)
  case (add d M)
  show ?case
  proof (cases "takes_doc q d")
    case True
    have "filter_mset (takes_doc q) (tree_docs d) = {#d#}" by (rule tree_docs_hits [OF q True])
    with True add.IH show ?thesis by (simp add: removed_def)
  qed (use add.IH in \<open>simp add: removed_def\<close>)
qed (simp add: removed_def)

lemma nothing_left:
  assumes "typed_query q" "N = M + removed q N"
  shows "filter_mset (takes_doc q) M = {#}"
proof -
  have "filter_mset (takes_doc q) N = filter_mset (takes_doc q) M + filter_mset (takes_doc q) (removed q N)"
    using assms(2) by (metis filter_union_mset)
  with removed_hits [OF assms(1)] show ?thesis by simp
qed

text \<open>Reading: a query with a type does not see ghosts.\<close>

lemma read_live:
  assumes rep: "live_rep F D" and q: "typed_query q"
    and c: "\<And>d name. (d, name) \<in># add_mset (ghost, None) (db_docs D) \<Longrightarrow> query_check q d name \<noteq> None"
  shows "\<exists>it xs. user_read q F = Some (Some it, F) \<and> yields F it xs \<and> mset (map (view_of F) xs) = filter_mset (takes_doc q) (db_docs D)"
proof -
  obtain n where db: "db_rep F (D\<lparr>db_docs := db_docs D + replicate_mset n (ghost, None)\<rparr>)"
    using live_db_rep [OF rep] by blast
  have "query_check q d name \<noteq> None" if "(d, name) \<in># db_docs D + replicate_mset n (ghost, None)" for d name
    by (rule c) (use that in \<open>auto simp: in_replicate_mset split: if_splits\<close>)
  with read_total [OF db, of q] obtain it xs where r: "user_read q F = Some (Some it, F)" "yields F it xs"
    "mset (map (view_of F) xs) = filter_mset (takes_doc q) (db_docs D + replicate_mset n (ghost, None))"
    unfolding takes_doc_def by auto
  have "filter_mset (takes_doc q) (replicate_mset n (ghost, None)) = {#}"
    using typed_query_name [OF q] by (induction n) simp_all
  with r show ?thesis by auto
qed

subsection \<open>Steps and runs\<close>

datatype Tidy_event = Plain Event | Deleted Query

fun tidy_event :: "Event \<Rightarrow> bool" where
  "tidy_event (Inserted j tname) \<longleftrightarrow> solid_doc j"
| "tidy_event (Answered q xs) \<longleftrightarrow> typed_query q"
| "tidy_event _ \<longleftrightarrow> True"

inductive tidy_step :: "File \<Rightarrow> Tidy_event \<Rightarrow> File \<Rightarrow> bool" where
  plain_step: "step F ev F' \<Longrightarrow> tidy_event ev \<Longrightarrow> tidy_step F (Plain ev) F'"
| delete_step: "cmd_type c = DELETE \<Longrightarrow> typed_query (cmd_query c) \<Longrightarrow> answers (cmd_query c) F \<Longrightarrow>
    user_apply c F = Some (r, F') \<Longrightarrow> tidy_step F (Deleted (cmd_query c)) F'"

inductive live_next :: "Db \<Rightarrow> Tidy_event \<Rightarrow> Db \<Rightarrow> bool" where
  plain: "db_next D ev D' \<Longrightarrow> live_next D (Plain ev) D'"
| deleted: "db_docs D = M + removed q (db_docs D) \<Longrightarrow> live_next D (Deleted q) (D\<lparr>db_docs := M\<rparr>)"

inductive_cases live_nextE: "live_next D ev D'"

inductive tidy_run :: "File \<Rightarrow> Tidy_event list \<Rightarrow> File \<Rightarrow> bool" where
  tidy_nil: "tidy_run F [] F"
| tidy_snoc: "tidy_run F evs F' \<Longrightarrow> tidy_step F' ev F'' \<Longrightarrow> tidy_run F (evs @ [ev]) F''"

inductive live_run :: "Db \<Rightarrow> Tidy_event list \<Rightarrow> Db \<Rightarrow> bool" where
  live_nil: "live_run D [] D"
| live_snoc: "live_run D evs D' \<Longrightarrow> live_next D' ev D'' \<Longrightarrow> live_run D (evs @ [ev]) D''"

lemma solid_not_ghost: "solid_doc j \<Longrightarrow> no_ghosts (doc_nodes name j) = doc_nodes name j"
proof (induction j arbitrary: name)
  case (Json k v t b s n x)
  have "doc_of (Json k v t b s n x) \<noteq> ghost"
  proof
    assume "doc_of (Json k v t b s n x) = ghost"
    then have "k = []" "t = TYPE_INT32" "v = VRaw 0" by (simp_all add: ghost_def split: if_splits)
    moreover have "enc64 0 = replicate 8 0"
      using enc64_dec64 [of "replicate 8 0"] by (simp add: dec64_def eval_nat_numeral)
    ultimately show False using Json.prems by (simp add: solid_def eval_nat_numeral)
  qed
  moreover have "no_ghosts (doc_nodes None y) = doc_nodes None y" if "b = Some y \<or> s = Some y" for y
    using that Json.IH(1,2) [of y None] Json.prems by auto
  ultimately show ?case by (cases b; cases s) (simp_all add: no_ghosts_def)
qed

text \<open>The abstract steps do not depend on ghosts.\<close>

lemma next_no_ghosts:
  assumes "db_next D ev D'" "tidy_event ev"
  shows "db_next (D\<lparr>db_docs := no_ghosts (db_docs D)\<rparr>) ev (D'\<lparr>db_docs := no_ghosts (db_docs D')\<rparr>)"
  using assms
proof (cases rule: db_next.cases)
  case (new_type t)
  then show ?thesis using db_next.new_type [of "D\<lparr>db_docs := no_ghosts (db_docs D)\<rparr>" t] by (cases D) simp
next
  case (same_name t t' t'')
  then show ?thesis using db_next.same_name [of "D\<lparr>db_docs := no_ghosts (db_docs D)\<rparr>" t t' t''] by (cases D) simp
next
  case (inserted j tname)
  then have "insertable (D\<lparr>db_docs := no_ghosts (db_docs D)\<rparr>) j tname" by (simp add: insertable_def)
  from db_next.inserted [OF this] inserted assms(2) show ?thesis by (simp add: no_ghosts_union solid_not_ghost)
next
  case (refused j tname)
  then have "\<not> insertable (D\<lparr>db_docs := no_ghosts (db_docs D)\<rparr>) j tname" by (simp add: insertable_def)
  from db_next.refused [OF this] refused show ?thesis by simp
next
  case (answered q)
  then have q: "typed_query q" using assms(2) by simp
  have "filter_mset (takes_doc q) (no_ghosts (db_docs D)) = filter_mset (takes_doc q) (db_docs D)"
    unfolding no_ghosts_def filter_filter_mset using typed_query_name [OF q] by (intro filter_mset_cong) auto
  with db_next.answered [of "D\<lparr>db_docs := no_ghosts (db_docs D)\<rparr>" q] answered show ?thesis by (simp add: takes_doc_def)
qed

text \<open>Each operation keeps the stock, whatever it answers.\<close>

lemma step_stock:
  assumes "step F ev F'" "tidy_event ev" and rep: "db_rep F D" and st: "stock F"
  shows "stock F'"
  using assms(1)
proof (cases rule: step.cases)
  case (add_step t)
  obtain tss where inv: "types_inv F tss" using rep by (rule db_repE)
  obtain G tss' where "user_add_type t F = Some (Some (), G)" "types_inv G tss'" "docs_same F G"
    using user_add_type_kept [OF inv add_step(2-4)] by blast
  with add_step(5) stock_docs_same [OF st] types_invD(1) show ?thesis by auto
next
  case (insert_step c r)
  obtain tss dss where inv: "types_inv F tss" and D: "db_types D = (\<lambda>name. first_named name tss)" using rep by (rule db_repE)
  have w: "user_write (cmd_json c) (cmd_type_name c) F = Some (Some (), F')"
    using insert_step(6) by (auto simp: user_apply_insert [OF insert_step(2)] split: option.splits)
  have "insertable D (cmd_json c) (cmd_type_name c)"
    using refuse_rep [OF rep insert_step(3)] w by fastforce
  then obtain t where t: "first_named (cmd_type_name c) tss = Some t" "json_is_apply_type (cmd_json c) t = OK"
    by (auto simp: insertable_def D)
  obtain a tp where "write_post (cmd_json c) 0 tp F a F'"
    using user_write_post [OF inv insert_step(3) t insert_step(4,5)] w by auto
  moreover have "solid_doc (cmd_json c)" using assms(2) insert_step(1) by simp
  ultimately show ?thesis by (rule stock_write [OF st])
next
  case (refuse_step c)
  obtain G D' where w: "user_write (cmd_json c) (cmd_type_name c) F =
      Some (if insertable D (cmd_json c) (cmd_type_name c) then Some () else None, G)"
    using user_write_rep [OF rep refuse_step(3-5)] by blast
  have "user_write (cmd_json c) (cmd_type_name c) F = Some (None, F')"
    using refuse_step(6) by (auto simp: user_apply_insert [OF refuse_step(2)] split: option.splits)
  with w have "\<not> insertable D (cmd_json c) (cmd_type_name c)" "G = F'" by (auto split: if_splits)
  with w refuse_rep [OF rep refuse_step(3)] st show ?thesis by simp
next
  case (read_step c it xs)
  have r: "user_read (cmd_query c) F = Some (Some it, F')"
    using read_step(3) unfolding user_apply_read [OF read_step(2)] by (auto split: option.splits)
  from read_rep(1) [OF rep r read_step(4)] st show ?thesis by simp
qed

lemma user_apply_delete:
  assumes "cmd_type c = DELETE"
  shows "user_apply c F = (case user_delete (cmd_query c) F of
    None \<Rightarrow> None | Some (r, F') \<Rightarrow> Some (map_option (\<lambda>_. None) r, F'))"
  using assms by (auto simp: user_apply_def DO_OR_FAIL_def split: option.splits)

lemma tidy_step_refines:
  assumes "tidy_step F ev F'" and rep: "live_rep F D"
  shows "\<exists>D'. live_rep F' D' \<and> live_next D ev D'"
  using assms(1)
proof (cases rule: tidy_step.cases)
  case (plain_step e)
  obtain n where db: "db_rep F (D\<lparr>db_docs := db_docs D + replicate_mset n (ghost, None)\<rparr>)"
    using live_db_rep [OF rep] by blast
  note l = live_repD [OF rep]
  obtain D' where D': "db_rep F' D'" "db_next (D\<lparr>db_docs := db_docs D + replicate_mset n (ghost, None)\<rparr>) e D'"
    using step_refines [OF plain_step(2) db] by blast
  have "live_rep F' (D'\<lparr>db_docs := no_ghosts (db_docs D')\<rparr>)"
    by (rule db_live_rep [OF D'(1) step_stock [OF plain_step(2,3) db l(1)]])
  moreover have "db_next D e (D'\<lparr>db_docs := no_ghosts (db_docs D')\<rparr>)"
    using next_no_ghosts [OF D'(2) plain_step(3)] l(2) by (cases D) (simp add: no_ghosts_union no_ghosts_only)
  ultimately show ?thesis using live_next.plain plain_step(1) by blast
next
  case (delete_step c r)
  have "query_check (cmd_query c) d name \<noteq> None" if "(d, name) \<in># add_mset (ghost, None) (db_docs D)" for d name
    using delete_step(4) that rep unfolding answers_def live_rep_def by auto
  from delete_live [OF rep delete_step(3) this] obtain G M where
    G: "user_delete (cmd_query c) F = Some (Some (), G)" "live_rep G (D\<lparr>db_docs := M\<rparr>)" "db_docs D = M + removed (cmd_query c) (db_docs D)"
    by blast
  have "G = F'" using delete_step(5) G(1) by (simp add: user_apply_delete [OF delete_step(2)])
  with G(2) live_next.deleted [OF G(3)] delete_step(1) show ?thesis by blast
qed

lemma tidy_run_refines:
  "tidy_run F evs F' \<Longrightarrow> live_rep F D \<Longrightarrow> \<exists>D'. live_rep F' D' \<and> live_run D evs D'"
proof (induction rule: tidy_run.induct)
  case (tidy_snoc F evs F' ev F'')
  then obtain D' where "live_rep F' D'" "live_run D evs D'" by blast
  with tidy_step_refines [OF tidy_snoc.hyps(2)] live_snoc show ?case by blast
qed (use live_nil in blast)

lemma open_live:
  assumes "8 \<le> cap" "cap < LONG_LIMIT"
  shows "live_rep (empty_db cap) db_empty"
  using db_live_rep [OF open_rep(2) [OF assms] open_stock [OF assms]] by (simp add: db_empty_def no_ghosts_def)

text \<open>The abstract database stays well formed.\<close>

lemma live_next_ok: "live_next D ev D' \<Longrightarrow> db_ok D \<Longrightarrow> db_ok D'"
proof (erule live_nextE)
  fix q M assume D': "D' = D\<lparr>db_docs := M\<rparr>" and M: "db_docs D = M + removed q (db_docs D)" and ok: "db_ok D"
  have "x \<in># db_docs D" if "x \<in># M" for x using that M by (metis union_iff)
  then show "db_ok D'" using ok unfolding D' db_ok_def by simp blast
qed (use db_next_ok in blast)

lemma live_run_ok: "live_run D evs D' \<Longrightarrow> db_ok D \<Longrightarrow> db_ok D'"
  by (induction rule: live_run.induct) (auto intro: live_next_ok)

subsection \<open>Documents are well typed\<close>

lemma json_ok_doc_of: "json_ok j \<Longrightarrow> json_ok (doc_of j)"
proof (induction j)
  case (Json k v t b s n x)
  have "val_ok t (if t = TYPE_OBJECT then VRaw 0 else v)" using Json.prems by (simp add: val_ok_def)
  moreover have "val_bytes t (if t = TYPE_OBJECT then VRaw 0 else v) = val_bytes t v"
    using Json.prems by (cases v) (auto simp: val_ok_def)
  moreover have "json_ok (doc_of y)" if "b = Some y \<or> s = Some y" for y using that Json.IH Json.prems by auto
  ultimately show ?case using Json.prems by (cases b; cases s) simp_all
qed

lemma content_ok:
  assumes ok: "slots_ok P F dss" and d: "(d, tp) \<in># content dss"
  shows "json_ok d"
proof -
  have "\<exists>i < length dss. (d, tp) \<in># row_content (dss ! i)"
    using d by (auto simp: content_def in_set_conv_nth)
  then obtain i where i: "i < length dss" "(d, tp) \<in># row_content (dss ! i)" by blast
  then have "\<exists>k < length (dss ! i). (d, tp) \<in># slot_content (dss ! i ! k)"
    by (auto simp: row_content_def in_set_conv_nth)
  then obtain k where k: "k < length (dss ! i)" "(d, tp) \<in># slot_content (dss ! i ! k)" by blast
  have s: "slot_ok P F (slot_addr F i k) (dss ! i ! k)" using slots_okD(3) [OF ok i(1) k(1)] .
  show ?thesis
  proof (cases "dss ! i ! k")
    case None
    with k(2) show ?thesis by simp
  next
    case (Some e)
    obtain dad t j where e: "e = (dad, t, j)" by (cases e)
    then have "d = doc_of j" using k(2) Some by simp
    moreover have "json_ok j" using s by (simp add: Some e slot_ok_def)
    ultimately show ?thesis using json_ok_doc_of by simp
  qed
qed

lemma db_rep_typed:
  assumes rep: "db_rep F D" and ok: "db_ok D" and d: "(d, name) \<in># db_docs D"
  shows "json_ok d" "name = Some nm \<Longrightarrow> \<exists>t. user_read_type nm F = Some (Some t, F) \<and> type_name t = nm"
proof -
  obtain tss dss where inv: "types_inv F tss" and sl: "slots_ok (ext_alloc F) F dss" and links: "links_ok F dss"
    and D: "db_types D = (\<lambda>name. first_named name tss)" "db_docs D = docs_of F dss"
    using rep by (rule db_repE)
  obtain tp where c: "(d, tp) \<in># content dss" "name = name_of F tp" using d unfolding D(2) docs_of_def by auto
  show "json_ok d" by (rule content_ok [OF sl c(1)])
  show "\<exists>t. user_read_type nm F = Some (Some t, F) \<and> type_name t = nm" if nm: "name = Some nm"
  proof -
    obtain name' where l: "link_ok F tp name'" using links c(1) unfolding links_ok_def by fastforce
    then have "link_ok F tp (Some nm)" using link_ok_name [OF types_invD(1) [OF inv] l] c(2) nm by simp
    then have can: "canonical nm" by (auto simp: link_ok_def type_at_def)
    have "db_types D nm \<noteq> None" using ok d nm unfolding db_ok_def by blast
    then obtain t where t: "db_types D nm = Some t" by blast
    then have "type_name t = nm" using ok unfolding db_ok_def by blast
    with t user_read_type_ok [OF inv can] D(1) show ?thesis by simp
  qed
qed

end
