(* ===== verification/Spec2Isabelle.thy ===== *)
theory Spec2Isabelle
  imports Remote List_Clients Bench Tidy_Db
begin

text \<open>
  A verification development for \<^verbatim>\<open>nosql-gql-dbms\<close>, a document database in C with a C++ server and a
  client for a small query language.

  \<^bold>\<open>The program.\<close> A database is one file: an 8-byte header that holds the offset behind the last section,
  then sections of 8192 bytes. A section has a 32-byte header; its items grow upwards behind the header
  (\<^verbatim>\<open>lst_itm_ptr\<close>), its records grow downwards from the end (\<^verbatim>\<open>fst_rec_ptr\<close>), and the space between
  them is \<^verbatim>\<open>free_space\<close>. Sections of documents (\<^verbatim>\<open>extents.c\<close>) keep one entity of 80 bytes per node of a
  document, with key and value in the record area; sections of types (\<^verbatim>\<open>types.c\<close>) keep document types and
  their attributes. \<^verbatim>\<open>file.c\<close> spreads trees of nodes over sections, \<^verbatim>\<open>iter.c\<close> walks the hits of a query,
  \<^verbatim>\<open>user.c\<close> is the interface, \<^verbatim>\<open>bench.c\<close> a set of client programs. The server (\<^verbatim>\<open>dbms_server.hpp\<close>,
  \<^verbatim>\<open>driver.hpp\<close>, \<^verbatim>\<open>request.hpp\<close>, \<^verbatim>\<open>response.hpp\<close>) turns messages into commands of \<^verbatim>\<open>user.c\<close>; the
  client (\<^verbatim>\<open>lexer.l\<close>, \<^verbatim>\<open>parser.y\<close>, \<^verbatim>\<open>Node.hpp\<close>, \<^verbatim>\<open>network/request.hpp\<close>, \<^verbatim>\<open>driver.hpp\<close>) turns statements
  into messages.

  \<^bold>\<open>Reading the model.\<close> An operation on a state is a function to \<open>None\<close> (no defined outcome: it does not
  return, or C leaves the behaviour undefined) or to a result and a new state, where the result \<open>None\<close>
  is the status \<^verbatim>\<open>FAILED\<close>. So every theorem that an operation equals \<open>Some _\<close> is a termination theorem.
  Machine integers are 64-, 32- and 8-bit words and wrap. Pointers into the lists of sections are indices;
  that linked lists behave like lists is proved on a heap model (\<open>Linked_List\<close>, \<open>List_Clients\<close>).

  \<^bold>\<open>Theories and sources.\<close>
  \<^item> \<open>Prelude\<close>: machine types, the program type, shared lemmas. \<open>Stdio\<close>: \<^verbatim>\<open>fseek\<close>, \<^verbatim>\<open>fread\<close>, \<^verbatim>\<open>fwrite\<close> and
    the macros of \<^verbatim>\<open>utils.h\<close> on a stream on a device of finite size. \<open>Cstring\<close>: \<^verbatim>\<open>utils/string.c\<close>.
  \<^item> \<open>Codec\<close>: little-endian structures, with the locale \<open>struct_codec\<close> interpreted for every on-disk structure.
  \<^item> \<open>Linked_List\<close>: \<^verbatim>\<open>list.h\<close>, \<^verbatim>\<open>pair.h\<close> and the table comparisons, with the locales \<open>node_dtor\<close> for
    what the macros rely on in the destructor of an element and \<open>fifo\<close> for what clients rely on. \<open>List_Clients\<close>: walks over linked sections and hits.
  \<^item> \<open>Objects\<close>, \<open>Json_Tree\<close>: \<^verbatim>\<open>object/*.c\<close>, \<^verbatim>\<open>json.c\<close>, \<^verbatim>\<open>entity.c\<close>. \<open>Query_Check\<close>: \<^verbatim>\<open>query/*.c\<close>.
  \<^item> \<open>Sect_Header\<close>: \<^verbatim>\<open>section/header.c\<close> and the invariant \<open>sect_wf\<close> of a section. \<open>Sect_Step\<close>: the
    contract \<open>section_op\<close> of an operation on one section.
  \<^item> \<open>Sect_Extents\<close>, \<open>Extents_Spec\<close>, \<open>Extents_Delete\<close>, \<open>Delete_Damage\<close>: \<^verbatim>\<open>extents.c\<close>. \<open>Sect_Types\<close>,
    \<open>Types_Spec\<close>: \<^verbatim>\<open>types.c\<close>.
  \<^item> \<open>File_Store\<close>: \<^verbatim>\<open>file/header.c\<close> and \<^verbatim>\<open>file.c\<close>. \<open>File_Inv\<close>: the invariant \<open>file_inv\<close> of an open
    file. \<open>Stored\<close>: documents that lie in the file. \<open>Slots\<close>: all items as one table and its content.
    \<open>Round_Trip\<close>: what writing a document does. \<open>Type_Store\<close>: the types of a database.
  \<^item> \<open>Iter\<close>, \<open>User\<close>: \<^verbatim>\<open>iter.c\<close>, \<^verbatim>\<open>user.c\<close>. \<open>User_Spec\<close>, \<open>Read_Spec\<close>: what the interface promises.
    \<open>Database\<close>: the abstract database, the step relation of the interface and the refinement.
  \<^item> \<open>Tidy\<close>, \<open>Places\<close>: sections in which a deletion is harmless, and their items as a forest. \<open>Drops\<close>: what
    \<open>file_delete\<close> takes from the file. \<open>Deletion\<close>, \<open>User_Delete\<close>: the documents of a file, and \<open>user_delete\<close>
    with its loop over the hits. \<open>Tidy_Db\<close>: the database with deletions and its refinement.
  \<^item> \<open>Bench\<close>: \<^verbatim>\<open>bench.c\<close>.
  \<^item> \<open>Wire\<close>: the messages of \<^verbatim>\<open>dbms.proto\<close>, with the locale \<open>enum_codec\<close> for the enumerations both sides
    number. \<open>Server\<close>, \<open>Client\<close>: the two ends. \<open>End_To_End\<close>: a statement on its way to the file.
  \<^item> \<open>Lexer\<close>, \<open>Lexer_Spec\<close>: \<^verbatim>\<open>lexer.l\<close>, rules as regular expressions with the longest match. \<open>Parser\<close>:
    \<^verbatim>\<open>parser.y\<close>, the grammar and its parser, with the locale \<open>item_parser\<close> for the lists the grammar is
    full of. \<open>Printing\<close>: \<^verbatim>\<open>repr\<close> and \<^verbatim>\<open>operator<<\<close>. \<open>Remote\<close>: \<^verbatim>\<open>dbms_client.hpp\<close>, \<^verbatim>\<open>dbms_server.hpp\<close> and both
    \<^verbatim>\<open>main\<close> functions, from a text typed at the client to the file.

  \<^bold>\<open>What is proved.\<close> Up from the bytes: structures round-trip through their encoding; an operation on a
  section changes only its section and keeps \<open>sect_wf\<close>; so it keeps \<open>file_inv\<close>, whichever section it
  runs on; a written document is stored in bytes that were free and reads back; a table of slots
  describes all sections at once; and over that table adding types, inserting and reading refine a map of
  types and a multiset of documents. The theorems of this theory follow from that refinement: after any
  sequence of these operations on a new file, a query yields exactly the inserted nodes it accepts.
  Deletions join the refinement under two conditions: no record begins with a zero byte (\<open>solid_doc\<close>), so that
  \<open>sect_head_cmprs_frp\<close> stops at the right byte, and deletions and queries name a type, since a deleted
  item in front of one in use is read as a number 0 without a type (the \<open>ghost\<close>). Then a delete command takes
  exactly the trees of the accepted documents.
  From the other side, the lexer takes the longest match, the parser accepts exactly the grammar (but for
  the tokens it gives up at), a statement becomes its message and the server's command; so the text of an
  insert statement ends as a stored document.
  Next to these stand the theorems on what goes wrong: comparisons of equal texts without a defined outcome, types that look at
  the first field only, numbers the server loses, deletions that open a live record to the next write, deleted items that are read,
  keys that are not freed.

  \<^bold>\<open>Bounds.\<close> A key and a value together have at most 8080 bytes, so that a node fits an empty section
  (8192 bytes less the header and the entity); a type and its names at most 8160 bytes. Each node and each
  type takes at most one new section, so \<open>room_for n\<close> (8192 bytes for each of \<open>n\<close> nodes) is enough room on
  the device; a device has less than \<open>2 ^ 63\<close> bytes, the range of a file position. Loops are
  structural, or \<open>partial_function\<close>s whose termination is proved where a theorem needs it. Two definitions
  take a number: \<open>p_more\<close>, the loop of the parser over a list of the grammar, gets the number of tokens that
  are left, and each of its items uses up one, so that the bound is never exhausted (\<open>item_parser\<close>); \<open>parse\<close>,
  the endless loop around the parser, is described by its first \<open>n\<close> calls.

  \<^bold>\<open>What is assumed.\<close> The scanner and the parser are generated by flex and bison and are not in the
  repository: their documented behaviour on the rules and productions of \<^verbatim>\<open>lexer.l\<close> and \<^verbatim>\<open>parser.y\<close> is
  modelled (longest match, first rule; shift before reduce; an action as soon as its production is
  complete; \<^verbatim>\<open>as<T>()\<close> on a fresh semantic value, assigned to at once, is taken to construct it). The stubs of gRPC, \<^verbatim>\<open>DebugString\<close>, \<^verbatim>\<open>stof\<close>, the texts of floats and indeterminate memory are
  parameters of the definitions that use them.

  \<^bold>\<open>Not modelled.\<close> Allocation, as memory is not bounded in the model, and destructors that only free memory
  (modelled are those of files and sections, which write, and, on the heap of \<open>Linked_List\<close>, those of lists
  and of their elements); \<^verbatim>\<open>sect_head_cmp\<close>, which dereferences numbers; clock readings; the threads of the server,
  so that calls arrive one after the other; the unit tests.

  \<^bold>\<open>Still to do.\<close> The effects of \<open>sect_ext_update\<close>, \<open>file_update\<close>, \<open>user_update\<close> and \<open>sect_types_delete\<close>, which
  are modelled but have no theorem on what they keep; deletions without a type, which meet the ghosts, and
  of documents with a record that begins with a zero byte, beyond one section.
\<close>

subsection \<open>Documents on disk\<close>

text \<open>C8: a document that fits (strings as built by \<open>string_ctor\<close>, values of their types, each node
  within an empty section, room for one section per node) is written without failure, and reading the
  returned address gives it back: same keys, types, values and shape, its address, its parent and its
  type; the read changes nothing and the file invariant holds.\<close>

theorem write_read_round_trip:
  assumes "file_inv F" "json_ok j" "room_for (json_nodes j) F"
  shows "\<exists>a F' j' e. file_write j dad tp F = Some (Some a, F') \<and> file_inv F' \<and>
    file_read a F' = Some (Some (j', e), F') \<and> doc_of j' = doc_of j \<and> jfoff j' = a \<and>
    dad_ptr (fam_addr e) = dad \<and> type_ptr e = tp"
proof -
  obtain a F' where w: "file_write j dad tp F = Some (Some a, F')" and p: "write_post j dad tp F a F'"
    using file_write_post [OF assms] by blast
  then have inv: "file_inv F'" and st: "stored (ext_alloc F' - ext_alloc F) F' a dad tp j"
    by (simp_all add: write_post_def)
  from file_read_stored [OF inv st assms(2)] w inv show ?thesis by blast
qed

definition sample_doc :: Json where
  "sample_doc = Json [107] (VRaw 0) TYPE_OBJECT None
     (Some (Json [110] (VRaw 5) TYPE_INT32 (Some (Json [115] (VStr [97, 98]) TYPE_STRING None None None 0)) None None 0))
     None 0"

lemma sample_doc_ok: "json_ok sample_doc" "json_nodes sample_doc = 3"
  by (simp_all add: sample_doc_def val_ok_def canonical_no_NUL)

theorem write_read_round_trip_witness:
  "\<exists>a F' j' e. file_write sample_doc 0 40 (empty_db 100000) = Some (Some a, F') \<and> file_inv F' \<and>
    file_read a F' = Some (Some (j', e), F') \<and> doc_of j' = doc_of sample_doc \<and> jfoff j' = a \<and>
    dad_ptr (fam_addr e) = 0 \<and> type_ptr e = 40"
proof (rule write_read_round_trip)
  show "room_for (json_nodes sample_doc) (empty_db 100000)"
    by (simp add: room_for_def sample_doc_ok empty_db_def) (simp add: fopen_w_def)
qed (simp_all add: empty_db_inv sample_doc_ok)

text \<open>Writing a second document leaves the first as it was: it reads back from its old address,
  with the same content, after the second write.\<close>

theorem second_write_keeps_first:
  assumes "file_inv F" "json_ok j1" "json_ok j2" "room_for (json_nodes j1 + json_nodes j2) F"
  shows "\<exists>a1 F1 a2 F2. file_write j1 d1 t1 F = Some (Some a1, F1) \<and> file_write j2 d2 t2 F1 = Some (Some a2, F2) \<and>
    a1 \<noteq> a2 \<and> file_inv F2 \<and>
    (\<exists>j e. file_read a1 F2 = Some (Some (j, e), F2) \<and> doc_of j = doc_of j1 \<and> jfoff j = a1 \<and> type_ptr e = t1)"
proof -
  have "room_for (json_nodes j1) F" using assms(4) by (simp add: room_for_def)
  then obtain a1 F1 where w1: "file_write j1 d1 t1 F = Some (Some a1, F1)" and p1: "write_post j1 d1 t1 F a1 F1"
    using file_write_post [OF assms(1,2)] by blast
  have i1: "file_inv F1" and s1: "stored (ext_alloc F1 - ext_alloc F) F1 a1 d1 t1 j1"
    and l1: "unat (lst_sect_ptr F1) \<le> unat (lst_sect_ptr F) + 8192 * json_nodes j1" "extends F F1"
    using p1 by (simp_all add: write_post_def)
  have "room_for (json_nodes j2) F1"
    using assms(4) l1 by (simp add: room_for_def extends_def sects_grow_def)
  then obtain a2 F2 where w2: "file_write j2 d2 t2 F1 = Some (Some a2, F2)" and p2: "write_post j2 d2 t2 F1 a2 F2"
    using file_write_post [OF i1 assms(3)] by blast
  have i2: "file_inv F2" and g2: "extends F1 F2" and s2: "stored (ext_alloc F2 - ext_alloc F1) F2 a2 d2 t2 j2"
    using p2 by (simp_all add: write_post_def)
  have s1': "stored (ext_alloc F1 - ext_alloc F) F2 a1 d1 t1 j1"
    using s1 g2 by (rule stored_extends) blast
  have "a1 \<noteq> a2"
    using stored_address [OF s1] stored_address [OF s2] by auto
  moreover obtain j e where "file_read a1 F2 = Some (Some (j, e), F2)" "doc_of j = doc_of j1" "jfoff j = a1" "type_ptr e = t1"
    using file_read_stored [OF i2 s1' assms(2)] by blast
  ultimately show ?thesis using w1 w2 i2 by blast
qed

theorem second_write_keeps_first_witness:
  "\<exists>a1 F1 a2 F2. file_write sample_doc 0 40 (empty_db 100000) = Some (Some a1, F1) \<and>
    file_write sample_doc 0 40 F1 = Some (Some a2, F2) \<and> a1 \<noteq> a2 \<and> file_inv F2 \<and>
    (\<exists>j e. file_read a1 F2 = Some (Some (j, e), F2) \<and> doc_of j = doc_of sample_doc \<and> jfoff j = a1 \<and> type_ptr e = 40)"
proof (rule second_write_keeps_first)
  show "room_for (json_nodes sample_doc + json_nodes sample_doc) (empty_db 100000)"
    by (simp add: room_for_def sample_doc_ok empty_db_def) (simp add: fopen_w_def)
qed (simp_all add: empty_db_inv sample_doc_ok)

subsection \<open>The user's view\<close>

text \<open>C9: inserting a document. An unknown type, or a document the type does not accept, is refused and
  the database stays as it was. Otherwise the document is written as a root of that type: it can be read
  back, its type link leads to the type, and the types of the database are untouched.\<close>

theorem insert_document:
  assumes "types_inv F tss" "canonical tname" "json_ok j" "room_for (json_nodes j) F"
  shows "case first_named tname tss of
      None \<Rightarrow> user_write j tname F = Some (None, F)
    | Some t \<Rightarrow>
        if json_is_apply_type j t = OK
        then \<exists>F' a j' e. user_write j tname F = Some (Some (), F') \<and> types_inv F' tss \<and> extends F F' \<and>
               file_read a F' = Some (Some (j', e), F') \<and> doc_of j' = doc_of j \<and> jfoff j' = a \<and>
               dad_ptr (fam_addr e) = 0 \<and> file_read_type (type_ptr e) F' = Some (Some t, F')
        else user_write j tname F = Some (None, F)"
proof (cases "first_named tname tss")
  case None
  then show ?thesis using user_write_unknown [OF assms(1,2)] by simp
next
  case (Some t)
  show ?thesis
  proof (cases "json_is_apply_type j t = OK")
    case True
    with Some user_write_ok [OF assms(1,2) Some True assms(3,4)] show ?thesis by simp
  next
    case False
    with Some user_write_known [OF assms(1,2) Some, of j] show ?thesis by auto
  qed
qed

text \<open>C12: adding a type to a database with room. It is stored, all types and documents that were there
  stay readable, a lookup of any other name answers as before, and a lookup of the new name answers the
  new type when no type had it.\<close>

theorem add_type_then_lookup:
  assumes "types_inv F tss" "canonical_type t" "items_len t + names_len t \<le> 8160" "room_for_sect F"
  shows "\<exists>F' tss'. user_add_type t F = Some (Some (), F') \<and> types_inv F' tss' \<and> type_added t tss tss' \<and>
    (first_named (type_name t) tss = None \<longrightarrow> user_read_type (type_name t) F' = Some (Some t, F')) \<and>
    (\<forall>name. canonical name \<longrightarrow> name \<noteq> type_name t \<longrightarrow> user_read_type name F' = Some (first_named name tss, F')) \<and>
    (\<forall>a dad tp j. json_ok j \<longrightarrow> stored (ext_alloc F) F a dad tp j \<longrightarrow>
       (\<exists>j' e. file_read a F' = Some (Some (j', e), F') \<and> doc_of j' = doc_of j))"
proof -
  obtain F' tss' where w: "user_add_type t F = Some (Some (), F')" and inv: "types_inv F' tss'"
    and added: "type_added t tss tss'" and docs: "docs_same F F'"
    using user_add_type_ok [OF assms] by blast
  have can: "canonical (type_name t)" using assms(2) by (simp add: canonical_type_def)
  have l1: "first_named (type_name t) tss = None \<longrightarrow> user_read_type (type_name t) F' = Some (Some t, F')"
    using user_read_type_ok [OF inv can] first_named_added(2) [OF added] by simp
  have l2: "\<forall>name. canonical name \<longrightarrow> name \<noteq> type_name t \<longrightarrow>
      user_read_type name F' = Some (first_named name tss, F')"
    using user_read_type_ok [OF inv] first_named_added(1) [OF added] by simp
  have l3: "\<forall>a dad tp j. json_ok j \<longrightarrow> stored (ext_alloc F) F a dad tp j \<longrightarrow>
      (\<exists>j' e. file_read a F' = Some (Some (j', e), F') \<and> doc_of j' = doc_of j)"
    using stored_docs_read [OF types_invD(1) [OF inv] docs] by blast
  show ?thesis
    by (rule exI [of _ F'], rule exI [of _ tss'], intro conjI w inv added l1 l2 l3)
qed

definition sample_type :: Type where
  "sample_type = \<lparr>type_name = [116], attr_list = [attr_ctor [110] TYPE_INT32]\<rparr>"

lemma sample_type_ok: "canonical_type sample_type" "items_len sample_type + names_len sample_type \<le> 8160"
  by (simp_all add: sample_type_def canonical_type_def canonical_no_NUL attr_ctor_def items_len_def names_len_def)

lemma empty_db_room: "n \<le> 12 \<Longrightarrow> room_for n (empty_db 100000)" "room_for_sect (empty_db 100000)"
  by (simp_all add: room_for_def room_for_sect_def empty_db_def) (simp_all add: fopen_w_def)

theorem add_type_then_lookup_witness:
  "\<exists>F' tss'. user_add_type sample_type (empty_db 100000) = Some (Some (), F') \<and> types_inv F' tss' \<and>
    type_added sample_type [] tss' \<and>
    (first_named (type_name sample_type) [] = None \<longrightarrow>
       user_read_type (type_name sample_type) F' = Some (Some sample_type, F')) \<and>
    (\<forall>name. canonical name \<longrightarrow> name \<noteq> type_name sample_type \<longrightarrow>
       user_read_type name F' = Some (first_named name [], F')) \<and>
    (\<forall>a dad tp j. json_ok j \<longrightarrow> stored (ext_alloc (empty_db 100000)) (empty_db 100000) a dad tp j \<longrightarrow>
       (\<exists>j' e. file_read a F' = Some (Some (j', e), F') \<and> doc_of j' = doc_of j))"
  by (rule add_type_then_lookup [OF _ sample_type_ok empty_db_room(2)]) (simp add: empty_db_types)

theorem insert_document_witness:
  "\<exists>F tss F' a j' e. user_add_type sample_type (empty_db 100000) = Some (Some (), F) \<and> types_inv F tss \<and>
    user_write sample_doc [116] F = Some (Some (), F') \<and> types_inv F' tss \<and> extends F F' \<and>
    file_read a F' = Some (Some (j', e), F') \<and> doc_of j' = doc_of sample_doc \<and> jfoff j' = a \<and>
    dad_ptr (fam_addr e) = 0 \<and> file_read_type (type_ptr e) F' = Some (Some sample_type, F')"
proof -
  have base: "types_inv (empty_db 100000) []" by (simp add: empty_db_types)
  obtain F tss where w: "user_add_type sample_type (empty_db 100000) = Some (Some (), F)" and inv: "types_inv F tss"
    and added: "type_added sample_type [] tss" and docs: "docs_same (empty_db 100000) F"
    and cap: "unat (lst_sect_ptr F) \<le> unat (lst_sect_ptr (empty_db 100000)) + 8192"
    using user_add_type_ok [OF base sample_type_ok empty_db_room(2)] by blast
  have known: "first_named [116] tss = Some sample_type"
    using first_named_added(2) [OF added] by (simp add: first_named_def) (simp add: sample_type_def)
  have fits: "json_is_apply_type sample_doc sample_type = OK"
    by code_simp
  have room: "room_for (json_nodes sample_doc) F"
    using cap docs by (simp add: room_for_def sample_doc_ok docs_same_def) (simp add: empty_db_def fopen_w_def)
  have "canonical [116]" by (simp add: canonical_no_NUL)
  from insert_document [OF inv this sample_doc_ok(1) room] w inv show ?thesis
    unfolding known by (simp only: option.case fits simp_thms if_True) blast
qed

subsection \<open>The abstract database\<close>

text \<open>C1: adding types, inserting and reading refine the abstract database: every step of the interface on
  a file that represents a map of types and a multiset of documents leads to a file that represents
  what the specification \<open>db_next\<close> allows for that step, answers included.\<close>

theorem steps_refine:
  assumes "db_rep F D" "step F ev F'"
  shows "\<exists>D'. db_rep F' D' \<and> db_next D ev D'"
  by (rule step_refines [OF assms(2,1)])

lemma sample_open: "user_open_file 100000 = Some (empty_db 100000)" "db_rep (empty_db 100000) db_empty"
  by (rule open_rep, simp, simp)+

lemma sample_served:
  assumes "\<forall>d \<in> set ds. demand_ok d" "sum_list (map sections ds) \<le> 12"
  shows "\<exists>evs F D. run (empty_db 100000) evs F \<and> list_all2 meets ds evs \<and> db_rep F D"
  using serve_all [OF sample_open(2) assms(1) empty_db_room(1) [OF assms(2)]] served_meets by blast

theorem steps_refine_witness:
  "\<exists>F' D'. step (empty_db 100000) (Added sample_type) F' \<and> db_rep F' D' \<and> db_next db_empty (Added sample_type) D'"
proof -
  obtain F' where "user_add_type sample_type (empty_db 100000) = Some (Some (), F')"
    using add_type_rep [OF sample_open(2) sample_type_ok empty_db_room(2)] by blast
  then have s: "step (empty_db 100000) (Added sample_type) F'"
    by (rule add_step [OF sample_type_ok empty_db_room(2)])
  from steps_refine [OF sample_open(2) s] s show ?thesis by blast
qed

text \<open>C4: on a new database, after any sequence of added types, insertions and reads, the file represents an
  abstract database whose documents are exactly the nodes inserted so far, each once, in which a type is
  found under its own name and every document with a type has a type that is there.\<close>

theorem runs_keep_documents:
  assumes "8 \<le> cap" "cap < LONG_LIMIT" "user_open_file cap = Some F" "run F evs F'"
  shows "\<exists>D. db_rep F' D \<and> db_run db_empty evs D \<and> db_ok D \<and> db_docs D = inserted_nodes evs"
proof -
  have F: "F = empty_db cap" using open_rep(1) [OF assms(1,2)] assms(3) by simp
  obtain D where D: "db_rep F' D" "db_run db_empty evs D"
    using run_refines [OF assms(4)] open_rep(2) [OF assms(1,2)] F by blast
  have "db_docs D = inserted_nodes evs" using db_run_docs [OF D(2)] by (simp add: db_empty_def)
  with D db_run_ok [OF D(2) db_empty_ok] show ?thesis by blast
qed

definition sample_demands :: "Demand list" where
  "sample_demands = [Want_type sample_type, Want_insert sample_doc [116], Want_insert sample_doc [117]]"

lemma sample_demands_ok: "\<forall>d \<in> set sample_demands. demand_ok d" "sum_list (map sections sample_demands) \<le> 12"
  using sample_type_ok sample_doc_ok by (simp_all add: sample_demands_def canonical_no_NUL)

theorem runs_keep_documents_witness:
  "\<exists>evs F' D. run (empty_db 100000) evs F' \<and> list_all2 meets sample_demands evs \<and> db_rep F' D \<and>
    db_run db_empty evs D \<and> db_ok D \<and> db_docs D = inserted_nodes evs"
proof -
  obtain evs F' where r: "run (empty_db 100000) evs F'" "list_all2 meets sample_demands evs"
    using sample_served [OF sample_demands_ok] by blast
  from runs_keep_documents [OF _ _ sample_open(1) r(1)] r show ?thesis by auto
qed

text \<open>C2: reading is complete and exact. After any such sequence on a new database, a query whose iterator
  was read to its end has handed out exactly the inserted nodes it accepts, each once, with the names
  of their types, and has changed nothing.\<close>

theorem read_exactly:
  assumes "8 \<le> cap" "cap < LONG_LIMIT" "user_open_file cap = Some F" "run F evs F'"
    and "cmd_type c = READ" "user_apply c F' = Some (Some (Some it), F'')" "yields F'' it xs"
  shows "F'' = F' \<and> mset (map (view_of F') xs) =
    filter_mset (\<lambda>(d, name). query_check (cmd_query c) d name = Some True) (inserted_nodes evs)"
proof -
  have "F = empty_db cap" using open_rep(1) [OF assms(1,2)] assms(3) by simp
  then obtain D where D: "db_rep F' D" "db_run db_empty evs D"
    using run_refines [OF assms(4)] open_rep(2) [OF assms(1,2)] by blast
  have r: "user_read (cmd_query c) F' = Some (Some it, F'')"
    using assms(6) unfolding user_apply_read [OF assms(5)] by (auto split: option.splits)
  note rd = read_rep [OF D(1) r assms(7)]
  have "db_docs D = inserted_nodes evs" using db_run_docs [OF D(2)] by (simp add: db_empty_def)
  with rd show ?thesis by (simp add: db_next_Answered)
qed

text \<open>C3: reading comes to an end. After any such sequence on a new database, a query that can be checked on
  every inserted node is answered, and its iterator reaches its end.\<close>

theorem read_returns:
  assumes "8 \<le> cap" "cap < LONG_LIMIT" "user_open_file cap = Some F" "run F evs F'"
    and "cmd_type c = READ" "\<And>d name. (d, name) \<in># inserted_nodes evs \<Longrightarrow> query_check (cmd_query c) d name \<noteq> None"
  shows "\<exists>it xs. user_apply c F' = Some (Some (Some it), F') \<and> yields F' it xs"
proof -
  have "F = empty_db cap" using open_rep(1) [OF assms(1,2)] assms(3) by simp
  then obtain D where D: "db_rep F' D" "db_run db_empty evs D"
    using run_refines [OF assms(4)] open_rep(2) [OF assms(1,2)] by blast
  have docs: "db_docs D = inserted_nodes evs" using db_run_docs [OF D(2)] by (simp add: db_empty_def)
  obtain it xs where "user_read (cmd_query c) F' = Some (Some it, F')" "yields F' it xs"
    using read_total [OF D(1), of "cmd_query c"] assms(6) unfolding docs by blast
  then show ?thesis by (auto simp: user_apply_read [OF assms(5)])
qed

definition sample_read :: Command where
  "sample_read = \<lparr>cmd_type = READ, cmd_type_name = [], cmd_query = query_new, cmd_json = sample_doc\<rparr>"

lemma query_new_check [simp]: "query_check query_new d name = Some True"
  by (simp add: query_check_def query_new_def query_check_type_def)

theorem read_returns_witness:
  "\<exists>evs F' it xs. run (empty_db 100000) evs F' \<and> list_all2 meets sample_demands evs \<and>
    user_apply sample_read F' = Some (Some (Some it), F') \<and> yields F' it xs"
proof -
  obtain evs F' where r: "run (empty_db 100000) evs F'" "list_all2 meets sample_demands evs"
    using sample_served [OF sample_demands_ok] by blast
  have "\<exists>it xs. user_apply sample_read F' = Some (Some (Some it), F') \<and> yields F' it xs"
    by (rule read_returns [OF _ _ sample_open(1) r(1)]) (simp_all add: sample_read_def)
  with r show ?thesis by blast
qed

theorem read_exactly_witness:
  "\<exists>evs F' it xs. run (empty_db 100000) evs F' \<and> list_all2 meets sample_demands evs \<and>
    user_apply sample_read F' = Some (Some (Some it), F') \<and> yields F' it xs \<and>
    mset (map (view_of F') xs) = inserted_nodes evs"
proof -
  obtain evs F' D where r: "run (empty_db 100000) evs F'" "list_all2 meets sample_demands evs" "db_rep F' D"
    using sample_served [OF sample_demands_ok] by blast
  have c: "cmd_type sample_read = READ" "cmd_query sample_read = query_new" by (simp_all add: sample_read_def)
  obtain it xs where a: "user_read query_new F' = Some (Some it, F')" "yields F' it xs"
    using read_total [OF r(3), of query_new] by auto
  then have u: "user_apply sample_read F' = Some (Some (Some it), F')" by (simp add: user_apply_read c)
  have "(\<lambda>(d, name). query_check query_new d name = Some True) = (\<lambda>_. True)" by (simp add: fun_eq_iff)
  then have "mset (map (view_of F') xs) = inserted_nodes evs"
    using read_exactly [OF _ _ sample_open(1) r(1) c(1) u a(2)] by (simp add: c(2))
  with r a u show ?thesis by blast
qed

text \<open>C5: every demand is met. On an open database with room for one section per type and per node, any
  sequence of well-formed types and documents is worked off in order: each type is added, each document is
  inserted when its type is known by then and accepts it (no other reason makes an insertion fail, as for
  instance a full section), and refused otherwise; the file then holds the database that these events lead to.\<close>

theorem demands_met:
  assumes "db_rep F D" "\<forall>d \<in> set ds. demand_ok d" "room_for (sum_list (map sections ds)) F"
  shows "\<exists>evs F' D'. run F evs F' \<and> served D ds evs D' \<and> list_all2 meets ds evs \<and> db_run D evs D' \<and> db_rep F' D'"
  using serve_all [OF assms] served_meets served_run by blast

text \<open>A document of a type that was added just before is inserted.\<close>

lemma sample_types_served: "served db_empty [Want_type sample_type, Want_insert sample_doc [116]] evs D \<Longrightarrow>
  evs = [Added sample_type, Inserted sample_doc [116]]"
proof -
  assume "served db_empty [Want_type sample_type, Want_insert sample_doc [116]] evs D"
  then show ?thesis
  proof (cases rule: served.cases)
    case (served_snoc ds es D1 d)
    then have d: "d = Want_insert sample_doc [116]" and "ds = [Want_type sample_type]"
      by (metis append1_eq_conv append_Cons append_Nil)+
    with served_snoc(3) have "served db_empty ([] @ [Want_type sample_type]) es D1" by simp
    then obtain D0 where es: "es = [Added sample_type]" and n: "db_next db_empty (Added sample_type) D1"
    proof (cases rule: served.cases)
      case (served_snoc ds0 es0 D0 d0)
      then have "ds0 = []" "d0 = Want_type sample_type" by simp_all
      with served_snoc(3) have "es0 = [] \<and> D0 = db_empty" by (auto elim: served.cases)
      with served_snoc that \<open>d0 = Want_type sample_type\<close> show ?thesis by simp
    qed simp
    from n have "db_types D1 [116] = Some sample_type"
      by (rule db_next_AddedE) (simp_all add: db_empty_def, simp_all add: sample_type_def)
    moreover have "json_is_apply_type sample_doc sample_type = OK"
      by code_simp
    ultimately have "insertable D1 sample_doc [116]" by (simp add: insertable_def)
    with served_snoc d es show ?thesis by simp
  qed
qed

theorem demands_met_witness:
  "\<exists>F' D'. run (empty_db 100000) [Added sample_type, Inserted sample_doc [116]] F' \<and> db_rep F' D' \<and>
    db_run db_empty [Added sample_type, Inserted sample_doc [116]] D'"
proof -
  let ?ds = "[Want_type sample_type, Want_insert sample_doc [116]]"
  have "\<forall>d \<in> set ?ds. demand_ok d" "sum_list (map sections ?ds) \<le> 12"
    using sample_type_ok sample_doc_ok by (simp_all add: canonical_no_NUL)
  from demands_met [OF sample_open(2) this(1) empty_db_room(1) [OF this(2)]] sample_types_served show ?thesis by blast
qed

text \<open>C13: bounds. After any such sequence on a new database, the sections lie one behind the other between
  the file header and \<^verbatim>\<open>lst_sect_ptr\<close>, which is within the device; in each, the item pointer and the
  record border stay in order within its 8192 bytes, \<^verbatim>\<open>free_space\<close> is their distance, and the headers on
  disk are those in memory.\<close>

theorem headers_in_bounds:
  assumes "8 \<le> cap" "cap < LONG_LIMIT" "user_open_file cap = Some F" "run F evs F'"
  shows "unat (lst_sect_ptr F') \<le> fcap (filp F') \<and> fget (filp F') 0 8 = enc64 (lst_sect_ptr F') \<and>
    (\<forall>h \<in> set (sects F'). 8 \<le> unat (file_offset h) \<and> unat (file_offset h) + 8192 \<le> unat (lst_sect_ptr F') \<and>
       32 \<le> unat (lst_itm_ptr h) \<and> unat (lst_itm_ptr h) \<le> unat (fst_rec_ptr h) \<and> unat (fst_rec_ptr h) \<le> 8192 \<and>
       unat (free_space h) = unat (fst_rec_ptr h) - unat (lst_itm_ptr h) \<and>
       fget (filp F') (unat (file_offset h)) 32 = head_bytes h) \<and>
    (\<forall>i < length (sects F'). \<forall>j < length (sects F'). i \<noteq> j \<longrightarrow>
       unat (file_offset (sects F' ! i)) + 8192 \<le> unat (file_offset (sects F' ! j)) \<or>
       unat (file_offset (sects F' ! j)) + 8192 \<le> unat (file_offset (sects F' ! i)))"
proof -
  have "F = empty_db cap" using open_rep(1) [OF assms(1,2)] assms(3) by simp
  then obtain D where "db_rep F' D"
    using run_refines [OF assms(4)] open_rep(2) [OF assms(1,2)] by blast
  then obtain tss dss where "types_inv F' tss" by (rule db_repE)
  then have inv: "file_inv F'" by (rule types_invD)
  note d = file_invD [OF inv]
  have h: "32 \<le> unat (lst_itm_ptr h)" "unat (lst_itm_ptr h) \<le> unat (fst_rec_ptr h)" "unat (fst_rec_ptr h) \<le> 8192"
    "unat (free_space h) = unat (fst_rec_ptr h) - unat (lst_itm_ptr h)"
    "fget (filp F') (unat (file_offset h)) 32 = head_bytes h" if "h \<in> set (sects F')" for h
    using d(9) [OF that] unat_free_space [OF d(9) [OF that]] by (simp_all add: sect_wf_def)
  from d(4,7,8) h sects_apart [OF inv] show ?thesis unfolding apart_def by blast
qed

theorem headers_in_bounds_witness:
  "\<exists>evs F'. run (empty_db 100000) evs F' \<and> list_all2 meets sample_demands evs \<and>
    unat (lst_sect_ptr F') \<le> fcap (filp F') \<and> fget (filp F') 0 8 = enc64 (lst_sect_ptr F') \<and>
    (\<forall>h \<in> set (sects F'). unat (lst_itm_ptr h) \<le> unat (fst_rec_ptr h) \<and> unat (fst_rec_ptr h) \<le> 8192)"
proof -
  obtain evs F' where r: "run (empty_db 100000) evs F'" "list_all2 meets sample_demands evs"
    using sample_served [OF sample_demands_ok] by blast
  have c: "(8 :: nat) \<le> 100000" "(100000 :: nat) < LONG_LIMIT" by simp_all
  from headers_in_bounds [OF c sample_open(1) r(1)] r show ?thesis by blast
qed

subsection \<open>Deletions\<close>

text \<open>A run whose events are harmless is a run of the database with deletions.\<close>

lemma run_tidy: "run F evs F' \<Longrightarrow> \<forall>ev \<in> set evs. tidy_event ev \<Longrightarrow> tidy_run F (map Plain evs) F'"
proof (induction rule: run.induct)
  case (run_snoc F evs F' ev F'')
  then have "tidy_run F (map Plain evs) F'" "tidy_step F' (Plain ev) F''" by (auto intro: plain_step)
  then show ?case using tidy_snoc by simp
qed (simp add: tidy_nil)

lemma sample_doc_solid: "solid_doc sample_doc"
  by (simp add: sample_doc_def solid_def enc64_def upt8)

lemma sample_demands_tidy:
  assumes "list_all2 meets sample_demands evs"
  shows "\<forall>ev \<in> set evs. tidy_event ev"
proof -
  have "tidy_event ev" if "meets d ev" "d \<in> set sample_demands" for d ev
    using that sample_doc_solid by (cases d; cases ev) (auto simp: sample_demands_def)
  with assms show ?thesis by (metis in_set_conv_nth list_all2_conv_all_nth)
qed

definition sample_typed :: Query where
  "sample_typed = query_ctor (Some [116]) query_new"

lemma sample_typed_ok: "typed_query sample_typed" "query_check sample_typed d name \<noteq> None"
  by (simp_all add: sample_typed_def typed_query_def query_ctor_def query_new_def query_check_def)

lemma sample_live:
  "\<exists>evs F D. list_all2 meets sample_demands evs \<and> tidy_run (empty_db 100000) (map Plain evs) F \<and> live_rep F D"
proof -
  obtain evs F where r: "run (empty_db 100000) evs F" "list_all2 meets sample_demands evs"
    using sample_served [OF sample_demands_ok] by blast
  note t = run_tidy [OF r(1) sample_demands_tidy [OF r(2)]]
  have "live_rep (empty_db 100000) db_empty" by (rule open_live) simp_all
  with tidy_run_refines [OF t] t r(2) show ?thesis by blast
qed

definition delete_command :: "Query \<Rightarrow> Command" where
  "delete_command q = \<lparr>cmd_type = DELETE, cmd_type_name = [], cmd_query = q, cmd_json = sample_doc\<rparr>"

text \<open>C6: deletions join the refinement. On a new database, after any sequence of operations in which the
  inserted documents are solid (no record, that is value and key, begins with a zero byte) and reads and
  deletions go to documents of a type, the file holds an abstract database that results from the same
  sequence: a deletion takes exactly the documents its query accepts, each with all nodes below it, and
  nothing else; types and the links to them stay well formed.\<close>

theorem deletions_refine:
  assumes "8 \<le> cap" "cap < LONG_LIMIT" "user_open_file cap = Some F" "tidy_run F evs F'"
  shows "\<exists>D. live_rep F' D \<and> live_run db_empty evs D \<and> db_ok D"
proof -
  have F: "F = empty_db cap" using open_rep(1) [OF assms(1,2)] assms(3) by simp
  obtain D where D: "live_rep F' D" "live_run db_empty evs D"
    using tidy_run_refines [OF assms(4)] open_live [OF assms(1,2)] F by blast
  with live_run_ok [OF D(2) db_empty_ok] show ?thesis by blast
qed

text \<open>C7: a deletion is carried out, takes exactly what it should, and what it took is not read again. On a
  file that holds the abstract database \<open>D\<close>, a delete command for a type, with conditions that have an answer on every
  document there is and on the ghost of a deleted item, succeeds. The documents left, together with the accepted ones and
  all nodes below these, are those that were there; types and sections stay. Then a query for a type hands out exactly
  the documents left that it accepts; the query of the deletion finds nothing.\<close>

theorem deleted_then_read:
  assumes "live_rep F D" "cmd_type c = DELETE" "typed_query (cmd_query c)" "typed_query q"
    and "\<And>d name. (d, name) \<in># add_mset (ghost, None) (db_docs D) \<Longrightarrow> query_check (cmd_query c) d name \<noteq> None"
    and "\<And>d name. (d, name) \<in># add_mset (ghost, None) (db_docs D) \<Longrightarrow> query_check q d name \<noteq> None"
  shows "\<exists>F' M it xs. user_apply c F = Some (Some None, F') \<and> live_rep F' (D\<lparr>db_docs := M\<rparr>) \<and>
    db_docs D = M + removed (cmd_query c) (db_docs D) \<and> lst_sect_ptr F' = lst_sect_ptr F \<and>
    user_read q F' = Some (Some it, F') \<and> yields F' it xs \<and>
    mset (map (view_of F') xs) = filter_mset (\<lambda>(d, name). query_check q d name = Some True) M \<and>
    (q = cmd_query c \<longrightarrow> xs = [])"
proof -
  obtain F' M where d: "user_delete (cmd_query c) F = Some (Some (), F')" "live_rep F' (D\<lparr>db_docs := M\<rparr>)"
    "db_docs D = M + removed (cmd_query c) (db_docs D)" "lst_sect_ptr F' = lst_sect_ptr F"
    using delete_live [OF assms(1,3,5)] by blast
  have "x \<in># db_docs D" if "x \<in># M" for x using d(3) that by (metis union_iff)
  then have "query_check q d name \<noteq> None" if "(d, name) \<in># add_mset (ghost, None) (db_docs (D\<lparr>db_docs := M\<rparr>))" for d name
    using that by (intro assms(6)) auto
  from read_live [OF d(2) assms(4) this] obtain it xs where r: "user_read q F' = Some (Some it, F')" "yields F' it xs"
    "mset (map (view_of F') xs) = filter_mset (takes_doc q) M"
    by auto
  have "xs = []" if e: "q = cmd_query c"
  proof -
    have "mset (map (view_of F') xs) = {#}" unfolding r(3) e by (rule nothing_left [OF assms(3) d(3)])
    then show ?thesis by simp
  qed
  moreover have "user_apply c F = Some (Some None, F')" using d(1) user_apply_delete [OF assms(2)] by simp
  ultimately show ?thesis using d(2-4) r unfolding takes_doc_def by blast
qed

theorem deleted_then_read_witness:
  "\<exists>evs F D F' M it. list_all2 meets sample_demands evs \<and> tidy_run (empty_db 100000) (map Plain evs) F \<and> live_rep F D \<and>
    user_apply (delete_command sample_typed) F = Some (Some None, F') \<and> live_rep F' (D\<lparr>db_docs := M\<rparr>) \<and>
    db_docs D = M + removed sample_typed (db_docs D) \<and> user_read sample_typed F' = Some (Some it, F') \<and> yields F' it []"
proof -
  obtain evs F D where s: "list_all2 meets sample_demands evs" "tidy_run (empty_db 100000) (map Plain evs) F" "live_rep F D"
    using sample_live by blast
  have c: "cmd_type (delete_command sample_typed) = DELETE" "cmd_query (delete_command sample_typed) = sample_typed"
    by (simp_all add: delete_command_def)
  from deleted_then_read [OF s(3) c(1) _ sample_typed_ok(1)] sample_typed_ok s show ?thesis unfolding c(2) by metis
qed

theorem deletions_refine_witness:
  "\<exists>evs F' D. tidy_run (empty_db 100000) (map Plain evs @ [Deleted sample_typed]) F' \<and> list_all2 meets sample_demands evs \<and>
    live_rep F' D \<and> live_run db_empty (map Plain evs @ [Deleted sample_typed]) D \<and> db_ok D"
proof -
  obtain evs F D where s: "list_all2 meets sample_demands evs" "tidy_run (empty_db 100000) (map Plain evs) F" "live_rep F D"
    using sample_live by blast
  obtain F' where d: "user_delete sample_typed F = Some (Some (), F')"
    using delete_live [OF s(3) sample_typed_ok] by blast
  have c: "cmd_type (delete_command sample_typed) = DELETE" "cmd_query (delete_command sample_typed) = sample_typed"
    by (simp_all add: delete_command_def)
  have a: "answers sample_typed F" using sample_typed_ok(2) by (auto simp: answers_def)
  have "user_apply (delete_command sample_typed) F = Some (Some None, F')" using d user_apply_delete [OF c(1)] by (simp add: c(2))
  then have "tidy_step F (Deleted sample_typed) F'"
    using delete_step [OF c(1)] sample_typed_ok(1) a unfolding c(2) by blast
  then have r: "tidy_run (empty_db 100000) (map Plain evs @ [Deleted sample_typed]) F'" by (rule tidy_snoc [OF s(2)])
  from deletions_refine [OF _ _ sample_open(1) r] r s(1) show ?thesis by auto
qed

text \<open>C16: documents are well typed. After any sequence of added types, insertions and reads on a new database,
  every document a query hands out is well formed (strings as built by \<open>string_ctor\<close>, each value of the kind its
  tag names, in all its nodes, each within a section), and the type it is said to have is there: reading the type of that name
  succeeds and gives a type of that name.\<close>

theorem hits_well_typed:
  assumes "8 \<le> cap" "cap < LONG_LIMIT" "user_open_file cap = Some F" "run F evs F'"
    and "user_read q F' = Some (Some it, F'')" "yields F'' it xs" "x \<in> set xs"
  shows "json_ok (doc_of (fst x)) \<and>
    (\<forall>nm. name_of F' (type_ptr (snd x)) = Some nm \<longrightarrow>
       (\<exists>t. user_read_type nm F' = Some (Some t, F') \<and> type_name t = nm))"
proof -
  have "F = empty_db cap" using open_rep(1) [OF assms(1,2)] assms(3) by simp
  then obtain D where D: "db_rep F' D" "db_run db_empty evs D"
    using run_refines [OF assms(4)] open_rep(2) [OF assms(1,2)] by blast
  note ok = db_run_ok [OF D(2) db_empty_ok] and rd = read_rep [OF D(1) assms(5,6)]
  have "view_of F' x \<in># mset (map (view_of F') xs)" using assms(7) by simp
  moreover have "mset (map (view_of F') xs) = filter_mset (\<lambda>(d, name). query_check q d name = Some True) (db_docs D)"
    using rd by (simp only: db_next_Answered)
  ultimately have "(doc_of (fst x), name_of F' (type_ptr (snd x))) \<in># db_docs D"
    by (simp only: set_mset_filter mem_Collect_eq view_of_def)
  from db_rep_typed [OF D(1) ok this] show ?thesis by blast
qed

theorem hits_well_typed_witness:
  "\<exists>evs F' it xs. run (empty_db 100000) evs F' \<and> user_read query_new F' = Some (Some it, F') \<and> yields F' it xs \<and>
    list_all2 meets sample_demands evs \<and>
    (\<forall>x \<in> set xs. json_ok (doc_of (fst x)) \<and>
       (\<forall>nm. name_of F' (type_ptr (snd x)) = Some nm \<longrightarrow>
          (\<exists>t. user_read_type nm F' = Some (Some t, F') \<and> type_name t = nm)))"
proof -
  obtain evs F' D where r: "run (empty_db 100000) evs F'" "list_all2 meets sample_demands evs" "db_rep F' D"
    using sample_served [OF sample_demands_ok] by blast
  obtain it xs where a: "user_read query_new F' = Some (Some it, F')" "yields F' it xs"
    using read_total [OF r(3), of query_new] by auto
  have c: "8 \<le> (100000 :: nat)" "(100000 :: nat) < LONG_LIMIT" by simp_all
  from hits_well_typed [OF c sample_open(1) r(1) a] r a show ?thesis by blast
qed

end
